(* ===== verification/Prelude.thy ===== *)
theory Prelude
  imports Main "HOL-Library.Word" "HOL-Library.Char_ord" "HOL-Library.List_Lexorder"
begin

text \<open>
  Shared vocabulary of the rcllite development.

  \<^item> Errors: every \<^verbatim>\<open>throw\<close> of the sources is a value of \<open>rcl_error\<close>; its constructors are
    the \<^verbatim>\<open>vila::Status\<close> codes the library uses (\<open>InvalidArguments\<close>, \<open>InternalError\<close>,
    \<open>WaitTimeout\<close>), the \<^verbatim>\<open>ValueError\<close> of the FFI layer, \<open>OtherException\<close> for an exception
    of user code, and \<open>UndefinedBehaviour\<close> for a branch in which the C++ program would access
    memory out of bounds or read an invalid object.  The last one is never thrown: it makes
    memory safety a statement about the model.
  \<^item> Effects: \<open>('s, 'a) eff\<close> is a computation on the state \<open>'s\<close> that returns or throws and
    keeps the state reached at the throw, as a C++ exception does.
  \<^item> Containers: \<^verbatim>\<open>std::map\<close> and \<^verbatim>\<open>std::set\<close> are association lists and lists in strictly
    increasing key order, so that iteration order is part of the model.
  \<^item> Strings: \<^verbatim>\<open>std::string\<close> is \<open>string\<close> (a list of 8-bit characters), ordered as
    \<^verbatim>\<open>std::char_traits<char>\<close> orders it (by unsigned character code).
  \<^item> \<^verbatim>\<open>size_t\<close> values that measure objects in memory are \<open>nat\<close>: an object is at most
    \<^verbatim>\<open>PTRDIFF_MAX\<close> bytes, so sums of an offset and a 32-bit length do not wrap.  Integers
    whose width matters are words.
\<close>

named_theorems eff_simps \<open>rewriting of effectful computations\<close>
named_theorems om_simps \<open>rewriting of ordered maps and sets\<close>

type_synonym byte = "8 word"


section \<open>Errors and results\<close>

datatype rcl_error =
    InvalidArguments string
  | InternalError string
  | WaitTimeout string
  | ValueError string
  | OtherException string
  | UndefinedBehaviour string

type_synonym 'a result = "rcl_error + 'a"

definition rbind :: "'a result \<Rightarrow> ('a \<Rightarrow> 'b result) \<Rightarrow> 'b result" where
  "rbind m f = (case m of Inl e \<Rightarrow> Inl e | Inr x \<Rightarrow> f x)"

lemma rbind_simps [simp]:
  "rbind (Inl e) f = Inl e"
  "rbind (Inr x) f = f x"
  by (simp_all add: rbind_def)

lemma rbind_eq_Inr_iff: "rbind m f = Inr y \<longleftrightarrow> (\<exists>x. m = Inr x \<and> f x = Inr y)"
  by (cases m) auto

lemma rbind_eq_Inl_iff:
  "rbind m f = Inl e \<longleftrightarrow> m = Inl e \<or> (\<exists>x. m = Inr x \<and> f x = Inl e)"
  by (cases m) auto

lemma rbind_assoc: "rbind (rbind m f) g = rbind m (\<lambda>x. rbind (f x) g)"
  by (cases m) auto

definition is_ub :: "rcl_error \<Rightarrow> bool" where
  "is_ub e = (case e of UndefinedBehaviour _ \<Rightarrow> True | _ \<Rightarrow> False)"

lemma is_ub_simps [simp]:
  "is_ub (UndefinedBehaviour m)"
  "\<not> is_ub (InvalidArguments m)"
  "\<not> is_ub (InternalError m)"
  "\<not> is_ub (WaitTimeout m)"
  "\<not> is_ub (ValueError m)"
  "\<not> is_ub (OtherException m)"
  by (simp_all add: is_ub_def)


section \<open>Computations with state and exceptions\<close>

type_synonym ('s, 'a) eff = "'s \<Rightarrow> 'a result \<times> 's"

definition ereturn :: "'a \<Rightarrow> ('s, 'a) eff" where
  "ereturn x s = (Inr x, s)"

definition ethrow :: "rcl_error \<Rightarrow> ('s, 'a) eff" where
  "ethrow e s = (Inl e, s)"

definition ebind :: "('s, 'a) eff \<Rightarrow> ('a \<Rightarrow> ('s, 'b) eff) \<Rightarrow> ('s, 'b) eff" where
  "ebind m f s = (case m s of (Inl e, s') \<Rightarrow> (Inl e, s') | (Inr x, s') \<Rightarrow> f x s')"

text \<open>\<^verbatim>\<open>try { m } catch (const std::exception&) { h }\<close>: undefined behaviour is not caught.\<close>

definition ecatch :: "('s, 'a) eff \<Rightarrow> (rcl_error \<Rightarrow> ('s, 'a) eff) \<Rightarrow> ('s, 'a) eff" where
  "ecatch m h s =
     (case m s of (Inl e, s') \<Rightarrow> (if is_ub e then (Inl e, s') else h e s') | r \<Rightarrow> r)"

definition emodify :: "('s \<Rightarrow> 's) \<Rightarrow> ('s, unit) eff" where
  "emodify f s = (Inr (), f s)"

definition egets :: "('s \<Rightarrow> 'a) \<Rightarrow> ('s, 'a) eff" where
  "egets f s = (Inr (f s), s)"

definition elift :: "'a result \<Rightarrow> ('s, 'a) eff" where
  "elift r s = (r, s)"

fun efor :: "('a \<Rightarrow> ('s, unit) eff) \<Rightarrow> 'a list \<Rightarrow> ('s, unit) eff" where
  "efor f [] = ereturn ()"
| "efor f (x # xs) = ebind (f x) (\<lambda>_. efor f xs)"

lemma eff_basic [simp, eff_simps]:
  "ereturn x s = (Inr x, s)"
  "ethrow e s = (Inl e, s)"
  "emodify f s = (Inr (), f s)"
  "egets g s = (Inr (g s), s)"
  "elift r s = (r, s)"
  by (simp_all add: ereturn_def ethrow_def emodify_def egets_def elift_def)

lemma ebind_eval [eff_simps]:
  "m s = (Inl e, s') \<Longrightarrow> ebind m f s = (Inl e, s')"
  "m s = (Inr x, s') \<Longrightarrow> ebind m f s = f x s'"
  by (simp_all add: ebind_def)

lemma ebind_basic [simp]:
  "ebind (ereturn x) f = f x"
  "ebind (ethrow e) f = ethrow e"
  "ebind (emodify g) f' s = f' () (g s)"
  "ebind (egets h) k s = k (h s) s"
  "ebind (elift (Inl e)) f = ethrow e"
  "ebind (elift (Inr x)) f = f x"
  by (simp_all add: ebind_def fun_eq_iff)

lemma ebind_Pair [simp]:
  "ebind (Pair (Inr x)) f = f x"
  "ebind (Pair (Inl e)) f = Pair (Inl e)"
  by (simp_all add: ebind_def fun_eq_iff)

lemma ebind_assoc: "ebind (ebind m f) g = ebind m (\<lambda>x. ebind (f x) g)"
  by (auto simp: ebind_def fun_eq_iff split: sum.splits prod.splits)

lemma ebind_eq_Inr_iff:
  "ebind m f s = (Inr y, s'') \<longleftrightarrow> (\<exists>x s'. m s = (Inr x, s') \<and> f x s' = (Inr y, s''))"
  by (auto simp: ebind_def split: prod.splits sum.splits)

lemma efor_append:
  "efor f (xs @ ys) = ebind (efor f xs) (\<lambda>_. efor f ys)"
  by (induction xs) (simp_all add: ebind_assoc)

lemma efor_total:
  "\<forall>x \<in> set xs. \<forall>s. f x s = (Inr (), g x s) \<Longrightarrow> efor f xs s = (Inr (), fold g xs s)"
  by (induction xs arbitrary: s) (simp_all add: ebind_def)


section \<open>Outcomes\<close>

text \<open>From \<open>P\<close> the operation returns with \<open>Q\<close> or throws with \<open>E\<close>; nothing is said of undefined behaviour.\<close>

definition ensures :: "('s \<Rightarrow> bool) \<Rightarrow> ('s, 'a) eff \<Rightarrow> ('a \<Rightarrow> 's \<Rightarrow> bool) \<Rightarrow> ('s \<Rightarrow> bool) \<Rightarrow> bool" where
  "ensures P f Q E \<longleftrightarrow>
     (\<forall>s. P s \<longrightarrow> (case f s of (Inl e, s') \<Rightarrow> is_ub e \<or> E s' | (Inr x, s') \<Rightarrow> Q x s'))"

named_theorems ensures_intros \<open>rules for outcomes\<close>

lemma ensuresI:
  assumes "\<And>s x s'. P s \<Longrightarrow> f s = (Inr x, s') \<Longrightarrow> Q x s'"
    and "\<And>s e s'. P s \<Longrightarrow> f s = (Inl e, s') \<Longrightarrow> \<not> is_ub e \<Longrightarrow> E s'"
  shows "ensures P f Q E"
  unfolding ensures_def
proof (intro allI impI)
  fix s
  assume "P s"
  obtain r s' where "f s = (r, s')" by fastforce
  then show "case f s of (Inl e, s') \<Rightarrow> is_ub e \<or> E s' | (Inr x, s') \<Rightarrow> Q x s'"
    using assms [OF \<open>P s\<close>, of _ s'] by (cases r) (simp, blast, simp)
qed

lemma ensuresD:
  assumes "ensures P f Q E" "P s"
  shows "f s = (Inr x, s') \<Longrightarrow> Q x s'" "f s = (Inl e, s') \<Longrightarrow> is_ub e \<or> E s'"
  using assms by (auto simp: ensures_def split: prod.splits sum.splits)

lemma ensures_bind:
  assumes "ensures P f R E" "\<And>x. ensures (R x) (g x) Q E"
  shows "ensures P (ebind f g) Q E"
  using assms by (fastforce simp: ensures_def ebind_def split: prod.splits sum.splits)

lemma ensures_return [ensures_intros]: "(\<And>s. P s \<Longrightarrow> Q x s) \<Longrightarrow> ensures P (ereturn x) Q E"
  by (simp add: ensures_def)

lemma ensures_throw [ensures_intros]: "(\<And>s. P s \<Longrightarrow> E s) \<Longrightarrow> ensures P (ethrow e) Q E"
  by (simp add: ensures_def)

lemma ensures_lift: "(\<And>s. P s \<Longrightarrow> E s) \<Longrightarrow> ensures P (elift r) (\<lambda>x s. P s) E"
  by (auto simp: ensures_def elift_def split: sum.splits)

lemma ensures_gets: "ensures P (egets f) (\<lambda>x s. x = f s \<and> P s) E"
  by (simp add: ensures_def)

lemma ensures_modify [ensures_intros]: "(\<And>s. P s \<Longrightarrow> Q () (f s)) \<Longrightarrow> ensures P (emodify f) Q E"
  by (simp add: ensures_def)

lemma ensures_weaken: "ensures P f Q E \<Longrightarrow> (\<And>s. P' s \<Longrightarrow> P s) \<Longrightarrow> (\<And>x s. Q x s \<Longrightarrow> Q' x s) \<Longrightarrow>
    (\<And>s. E s \<Longrightarrow> E' s) \<Longrightarrow> ensures P' f Q' E'"
  by (fastforce simp: ensures_def split: prod.splits sum.splits)

lemma ensures_if [ensures_intros]:
  "(b \<Longrightarrow> ensures P f Q E) \<Longrightarrow> (\<not> b \<Longrightarrow> ensures P g Q E) \<Longrightarrow> ensures P (if b then f else g) Q E"
  by simp

lemma ensures_efor:
  assumes "\<And>x. ensures P (f x) (\<lambda>_. P) E"
  shows "ensures P (efor f xs) (\<lambda>_. P) E"
  by (induction xs) (simp add: ensures_def, auto intro: ensures_bind assms)

lemma ensures_lift_bind:
  "(\<And>s. P s \<Longrightarrow> E s) \<Longrightarrow> (\<And>x. ensures P (g x) Q E) \<Longrightarrow> ensures P (ebind (elift r) g) Q E"
  by (rule ensures_bind [OF ensures_lift])

definition may_ub :: "'a result \<Rightarrow> bool" where
  "may_ub r \<longleftrightarrow> (\<exists>e. r = Inl e \<and> is_ub e)"


section \<open>String operations of the standard library\<close>

definition squote :: "string \<Rightarrow> string" where
  "squote s = [CHR 0x27] @ s @ [CHR 0x27]"

definition starts_with :: "'a list \<Rightarrow> 'a list \<Rightarrow> bool" where
  "starts_with p s \<longleftrightarrow> take (length p) s = p"

definition ends_with :: "'a list \<Rightarrow> 'a list \<Rightarrow> bool" where
  "ends_with p s \<longleftrightarrow> length p \<le> length s \<and> drop (length s - length p) s = p"

text \<open>\<^verbatim>\<open>std::string::find(needle)\<close>: the first position, \<open>None\<close> for \<^verbatim>\<open>npos\<close>.\<close>

fun str_find :: "'a list \<Rightarrow> 'a list \<Rightarrow> nat option" where
  "str_find p [] = (if p = [] then Some 0 else None)"
| "str_find p (c # cs) =
     (if starts_with p (c # cs) then Some 0 else map_option Suc (str_find p cs))"

text \<open>\<^verbatim>\<open>find(needle, pos)\<close>.\<close>

definition str_find_from :: "'a list \<Rightarrow> 'a list \<Rightarrow> nat \<Rightarrow> nat option" where
  "str_find_from p s pos =
     (if pos \<le> length s then map_option (\<lambda>i. i + pos) (str_find p (drop pos s)) else None)"

text \<open>\<^verbatim>\<open>rfind(c)\<close> of one character: the last position.\<close>

fun str_rfind :: "'a \<Rightarrow> 'a list \<Rightarrow> nat option" where
  "str_rfind c [] = None"
| "str_rfind c (x # xs) =
     (case str_rfind c xs of Some i \<Rightarrow> Some (Suc i) | None \<Rightarrow> if x = c then Some 0 else None)"

definition substr :: "'a list \<Rightarrow> nat \<Rightarrow> nat \<Rightarrow> 'a list" where
  "substr s pos n = take n (drop pos s)"

definition substr_from :: "'a list \<Rightarrow> nat \<Rightarrow> 'a list" where
  "substr_from s pos = drop pos s"

lemma starts_with_iff: "starts_with p s \<longleftrightarrow> (\<exists>r. s = p @ r)"
  unfolding starts_with_def by (metis append_eq_conv_conj append_take_drop_id)

lemma starts_with_append [simp]: "starts_with p (p @ r)"
  by (simp add: starts_with_def)

lemma starts_with_Nil [simp]: "starts_with [] s"
  by (simp add: starts_with_def)

lemma starts_with_Cons [simp]:
  "starts_with (a # p) (c # s) \<longleftrightarrow> a = c \<and> starts_with p s"
  "\<not> starts_with (a # p) []"
  by (auto simp: starts_with_def)

lemma ends_with_iff: "ends_with p s \<longleftrightarrow> (\<exists>r. s = r @ p)"
proof
  assume "ends_with p s"
  then have "s = take (length s - length p) s @ p"
    by (metis append_take_drop_id ends_with_def)
  then show "\<exists>r. s = r @ p" by blast
qed (auto simp: ends_with_def)

lemma str_find_None_iff: "str_find p s = None \<longleftrightarrow> (\<forall>a b. s \<noteq> a @ p @ b)"
proof (induction s)
  case (Cons c cs)
  show ?case
  proof
    assume none: "str_find p (c # cs) = None"
    then have np: "\<not> starts_with p (c # cs)" and IH: "\<forall>a b. cs \<noteq> a @ p @ b"
      using Cons by (auto split: if_splits)
    show "\<forall>a b. c # cs \<noteq> a @ p @ b"
    proof (intro allI notI)
      fix a b
      assume eq: "c # cs = a @ p @ b"
      show False
      proof (cases a)
        case Nil
        with eq np show False by (metis append_Nil starts_with_append)
      next
        case (Cons x a')
        with eq IH show False by simp
      qed
    qed
  next
    assume no: "\<forall>a b. c # cs \<noteq> a @ p @ b"
    then have "\<not> starts_with p (c # cs)"
      unfolding starts_with_iff by (metis append_Nil)
    moreover from no have "\<forall>a b. cs \<noteq> a @ p @ b"
      by (metis append_Cons)
    ultimately show "str_find p (c # cs) = None"
      using Cons by simp
  qed
qed auto

lemma str_find_char_None_iff: "str_find [c] s = None \<longleftrightarrow> c \<notin> set s"
proof -
  have "(\<exists>a b. s = a @ [c] @ b) \<longleftrightarrow> c \<in> set s"
    by (auto simp: in_set_conv_decomp)
  then show ?thesis unfolding str_find_None_iff by blast
qed

lemma str_find_SomeD:
  "str_find p s = Some i \<Longrightarrow> \<exists>a b. s = a @ p @ b \<and> length a = i"
proof (induction s arbitrary: i)
  case Nil
  then show ?case by (auto split: if_splits)
next
  case (Cons c cs)
  show ?case
  proof (cases "starts_with p (c # cs)")
    case True
    with Cons.prems have "i = 0" by simp
    moreover from True obtain b where "c # cs = [] @ p @ b"
      by (auto simp: starts_with_iff)
    ultimately show ?thesis by fastforce
  next
    case False
    with Cons.prems obtain j where j: "str_find p cs = Some j" "i = Suc j"
      by auto
    then obtain a b where "cs = a @ p @ b" "length a = j"
      using Cons.IH by blast
    with j have "c # cs = (c # a) @ p @ b \<and> length (c # a) = i" by simp
    then show ?thesis by blast
  qed
qed

lemma str_find_char_SomeD:
  "str_find [c] s = Some i \<Longrightarrow> i < length s \<and> s ! i = c \<and> (\<forall>j < i. s ! j \<noteq> c)"
proof (induction s arbitrary: i)
  case (Cons x xs)
  show ?case
  proof (cases "x = c")
    case False
    with Cons.prems obtain k where "str_find [c] xs = Some k" "i = Suc k" by auto
    with Cons.IH [of k] False show ?thesis by (auto simp: nth_Cons split: nat.splits)
  qed (use Cons.prems in simp)
qed simp

lemma str_rfind_None_iff: "str_rfind c s = None \<longleftrightarrow> c \<notin> set s"
  by (induction s) (auto split: option.splits)

lemma str_rfind_eqI: "c \<notin> set b \<Longrightarrow> str_rfind c (a @ c # b) = Some (length a)"
proof (induction a)
  case Nil
  then show ?case by (simp add: str_rfind_None_iff [THEN iffD2])
qed simp

lemma str_rfind_SomeD:
  "str_rfind c s = Some i \<Longrightarrow> \<exists>a b. s = a @ c # b \<and> length a = i \<and> c \<notin> set b"
proof (induction s arbitrary: i)
  case (Cons x xs)
  show ?case
  proof (cases "str_rfind c xs")
    case None
    with Cons.prems have "x = c" "i = 0" by (auto split: if_splits)
    with None have "x # xs = [] @ c # xs \<and> length ([] :: 'a list) = i \<and> c \<notin> set xs"
      by (simp add: str_rfind_None_iff)
    then show ?thesis by blast
  next
    case (Some j)
    then obtain a b where "xs = a @ c # b" "length a = j" "c \<notin> set b"
      using Cons.IH by blast
    moreover from Some Cons.prems have "i = Suc j" by simp
    ultimately have "x # xs = (x # a) @ c # b \<and> length (x # a) = i \<and> c \<notin> set b" by simp
    then show ?thesis by blast
  qed
qed simp


section \<open>Decimal numerals: \<^verbatim>\<open>std::to_string\<close> and \<^verbatim>\<open>fmt\<close>\<close>

lemma of_char_less_256: "(of_char c :: nat) < 256"
  by (metis of_char_mod_256 mod_less_divisor zero_less_numeral)

definition digit_char :: "nat \<Rightarrow> char" where
  "digit_char d = char_of (48 + d)"

fun show_nat :: "nat \<Rightarrow> string" where
  "show_nat n = (if n < 10 then [digit_char n] else show_nat (n div 10) @ [digit_char (n mod 10)])"

declare show_nat.simps [simp del]

definition show_int :: "int \<Rightarrow> string" where
  "show_int i = (if i < 0 then CHR ''-'' # show_nat (nat (- i)) else show_nat (nat i))"

lemma of_char_digit_char: "d < 10 \<Longrightarrow> (of_char (digit_char d) :: nat) = 48 + d"
  by (simp add: digit_char_def)

lemma show_nat_not_Nil [simp]: "show_nat n \<noteq> []"
  by (subst show_nat.simps) simp

definition read_nat :: "string \<Rightarrow> nat" where
  "read_nat s = foldl (\<lambda>acc c. 10 * acc + (of_char c - 48)) 0 s"

lemma read_nat_snoc: "read_nat (s @ [c]) = 10 * read_nat s + (of_char c - 48)"
  by (simp add: read_nat_def)

lemma read_show_nat: "read_nat (show_nat n) = n"
proof (induction n rule: show_nat.induct)
  case (1 n)
  show ?case
  proof (cases "n < 10")
    case True
    then show ?thesis
      by (subst show_nat.simps) (simp add: read_nat_def of_char_digit_char)
  next
    case False
    with 1 have "read_nat (show_nat (n div 10)) = n div 10" by simp
    with False show ?thesis
      by (subst show_nat.simps) (simp add: read_nat_snoc of_char_digit_char)
  qed
qed

lemma show_nat_inject [simp]: "show_nat m = show_nat n \<longleftrightarrow> m = n"
  by (metis read_show_nat)


section \<open>Ordered maps and sets\<close>

type_synonym ('k, 'v) omap = "('k \<times> 'v) list"

definition om_find :: "('k, 'v) omap \<Rightarrow> 'k \<Rightarrow> 'v option" where
  "om_find m k = map_of m k"

fun om_upd :: "'k::linorder \<Rightarrow> 'v \<Rightarrow> ('k, 'v) omap \<Rightarrow> ('k, 'v) omap" where
  "om_upd k v [] = [(k, v)]"
| "om_upd k v ((a, b) # m) =
     (if k < a then (k, v) # (a, b) # m
      else if k = a then (k, v) # m
      else (a, b) # om_upd k v m)"

definition om_erase :: "'k \<Rightarrow> ('k, 'v) omap \<Rightarrow> ('k, 'v) omap" where
  "om_erase k m = filter (\<lambda>p. fst p \<noteq> k) m"

definition om_keys :: "('k, 'v) omap \<Rightarrow> 'k list" where
  "om_keys m = map fst m"

definition om_ok :: "('k::linorder, 'v) omap \<Rightarrow> bool" where
  "om_ok m \<longleftrightarrow> sorted_wrt (<) (om_keys m)"

fun os_insert :: "'k::linorder \<Rightarrow> 'k list \<Rightarrow> 'k list" where
  "os_insert k [] = [k]"
| "os_insert k (a # s) = (if k < a then k # a # s else if k = a then a # s else a # os_insert k s)"

lemma om_find_Nil [simp, om_simps]: "om_find [] k = None"
  by (simp add: om_find_def)

lemma om_find_Cons [om_simps]:
  "om_find ((a, b) # m) k = (if k = a then Some b else om_find m k)"
  by (simp add: om_find_def)

lemma om_find_upd [simp, om_simps]:
  "om_find (om_upd k v m) j = (if j = k then Some v else om_find m j)"
  by (induction m) (auto simp: om_find_def)

lemma om_find_erase [simp, om_simps]:
  "om_find (om_erase k m) j = (if j = k then None else om_find m j)"
  by (induction m) (auto simp: om_find_def om_erase_def)

lemma om_keys_simps [simp]:
  "om_keys [] = []"
  "om_keys (p # m) = fst p # om_keys m"
  by (simp_all add: om_keys_def)

lemma set_om_keys_upd [simp]: "set (om_keys (om_upd k v m)) = insert k (set (om_keys m))"
  by (induction k v m rule: om_upd.induct) auto

lemma set_om_upd_fresh: "k \<notin> set (om_keys m) \<Longrightarrow> set (om_upd k v m) = insert (k, v) (set m)"
  by (induction k v m rule: om_upd.induct) auto

lemma set_om_keys_erase [simp]: "set (om_keys (om_erase k m)) = set (om_keys m) - {k}"
  by (auto simp: om_keys_def om_erase_def)

lemma om_keys_find: "k \<in> set (om_keys m) \<longleftrightarrow> om_find m k \<noteq> None"
  by (induction m) (auto simp: om_find_def om_keys_def)

lemma om_find_eq_None_iff: "om_find m k = None \<longleftrightarrow> k \<notin> set (om_keys m)"
  by (simp add: om_keys_find)

lemma om_ok_Nil [simp]: "om_ok []"
  by (simp add: om_ok_def om_keys_def)

lemma om_ok_Cons [simp]:
  "om_ok ((a, b) # m) \<longleftrightarrow> (\<forall>k \<in> set (om_keys m). a < k) \<and> om_ok m"
  by (simp add: om_ok_def om_keys_def)

lemma om_ok_upd [simp, intro]: "om_ok m \<Longrightarrow> om_ok (om_upd k v m)"
  by (induction k v m rule: om_upd.induct) auto

lemma om_ok_filter [simp, intro]: "om_ok m \<Longrightarrow> om_ok (filter P m)"
  by (induction m) (auto simp: om_keys_def)

lemma om_ok_erase [simp, intro]: "om_ok m \<Longrightarrow> om_ok (om_erase k m)"
  by (simp add: om_erase_def)

lemma om_ok_distinct: "om_ok m \<Longrightarrow> distinct (om_keys m)"
  by (simp add: om_ok_def strict_sorted_iff)

lemma om_ok_sorted: "om_ok m \<Longrightarrow> sorted (om_keys m)"
  by (simp add: om_ok_def strict_sorted_iff)

lemma om_find_in_set: "om_find m k = Some v \<Longrightarrow> (k, v) \<in> set m"
  by (simp add: om_find_def map_of_SomeD)

lemma om_in_set_find: "om_ok m \<Longrightarrow> (k, v) \<in> set m \<Longrightarrow> om_find m k = Some v"
  using om_ok_distinct [of m] by (simp add: om_find_def om_keys_def)

lemma om_in_set_iff: "om_ok m \<Longrightarrow> (k, v) \<in> set m \<longleftrightarrow> om_find m k = Some v"
  by (metis om_find_in_set om_in_set_find)

lemma om_upd_same: "om_ok m \<Longrightarrow> om_find m k = Some v \<Longrightarrow> om_upd k v m = m"
proof (induction m)
  case (Cons p m)
  obtain a b where p: "p = (a, b)" by (cases p)
  show ?case
  proof (cases "k = a")
    case True
    with Cons.prems p show ?thesis by (simp add: om_find_Cons)
  next
    case False
    with Cons.prems p have "om_find m k = Some v" by (simp add: om_find_Cons)
    moreover from this have "k \<in> set (om_keys m)" by (simp add: om_keys_find)
    ultimately show ?thesis using Cons p False by auto
  qed
qed simp

lemma om_find_filter_key:
  "om_find (filter (\<lambda>p. P (fst p)) m) k = (if P k then om_find m k else None)"
  by (induction m) (auto simp: om_find_def)

lemma om_eqI:
  assumes "om_ok m" "om_ok n" "\<And>k. om_find m k = om_find n k"
  shows "m = n"
proof (rule map_sorted_distinct_set_unique [of fst])
  show "inj_on fst (set m \<union> set n)"
    by (rule inj_onI)
      (metis (no_types, lifting) Un_iff assms om_in_set_iff option.inject prod.collapse)
  show "sorted (map fst m)" "sorted (map fst n)" "distinct (map fst m)" "distinct (map fst n)"
    using assms(1,2) om_ok_sorted om_ok_distinct by (auto simp: om_keys_def)
  show "set m = set n"
    using assms by (auto simp: om_in_set_iff)
qed

lemma set_os_insert [simp]: "set (os_insert k s) = insert k (set s)"
  by (induction s) auto

lemma sorted_os_insert: "sorted_wrt (<) s \<Longrightarrow> sorted_wrt (<) (os_insert k s)"
  by (induction s) auto

lemma set_fold_os_insert [simp]: "set (fold os_insert xs s) = set xs \<union> set s"
  by (induction xs arbitrary: s) auto

lemma sorted_fold_os_insert: "sorted_wrt (<) s \<Longrightarrow> sorted_wrt (<) (fold os_insert xs s)"
  by (induction xs arbitrary: s) (auto simp: sorted_os_insert)


section \<open>The interface of a keyed container\<close>

text \<open>
  What the components rely on when they keep records by key: a lookup after an insertion or a
  removal, and that both keep the container well formed.  The lemmas of the locale say what a
  whole sequence of insertions and removals leaves behind: the last operation on a key decides.
\<close>

datatype ('k, 'v) store_op = Put 'k 'v | Del 'k

fun op_key :: "('k, 'v) store_op \<Rightarrow> 'k" where
  "op_key (Put k v) = k"
| "op_key (Del k) = k"

fun op_value :: "('k, 'v) store_op \<Rightarrow> 'v option" where
  "op_value (Put k v) = Some v"
| "op_value (Del k) = None"

fun last_op :: "'k \<Rightarrow> ('k, 'v) store_op list \<Rightarrow> 'v option option" where
  "last_op k [] = None"
| "last_op k (x # xs) =
     (case last_op k xs of Some r \<Rightarrow> Some r
      | None \<Rightarrow> if op_key x = k then Some (op_value x) else None)"

definition store_run ::
    "('k \<Rightarrow> 'v \<Rightarrow> 'm \<Rightarrow> 'm) \<Rightarrow> ('k \<Rightarrow> 'm \<Rightarrow> 'm) \<Rightarrow> ('k, 'v) store_op list \<Rightarrow> 'm \<Rightarrow> 'm" where
  "store_run upd erase ops m =
     fold (\<lambda>x m. case x of Put k v \<Rightarrow> upd k v m | Del k \<Rightarrow> erase k m) ops m"

locale keyed_store =
  fixes find :: "'m \<Rightarrow> 'k \<Rightarrow> 'v option"
    and upd :: "'k \<Rightarrow> 'v \<Rightarrow> 'm \<Rightarrow> 'm"
    and erase :: "'k \<Rightarrow> 'm \<Rightarrow> 'm"
    and ok :: "'m \<Rightarrow> bool"
  assumes find_upd: "find (upd k v m) j = (if j = k then Some v else find m j)"
    and find_erase: "find (erase k m) j = (if j = k then None else find m j)"
    and ok_upd: "ok m \<Longrightarrow> ok (upd k v m)"
    and ok_erase: "ok m \<Longrightarrow> ok (erase k m)"
begin

lemma run_ok: "ok m \<Longrightarrow> ok (store_run upd erase ops m)"
  by (induction ops arbitrary: m)
    (auto simp: store_run_def ok_upd ok_erase split: store_op.splits)

lemma run_find:
  "find (store_run upd erase ops m) k =
     (case last_op k ops of Some r \<Rightarrow> r | None \<Rightarrow> find m k)"
proof (induction ops arbitrary: m)
  case Nil
  then show ?case by (simp add: store_run_def)
next
  case (Cons x xs)
  let ?m = "case x of Put k v \<Rightarrow> upd k v m | Del k \<Rightarrow> erase k m"
  have "find (store_run upd erase (x # xs) m) k = find (store_run upd erase xs ?m) k"
    by (simp add: store_run_def)
  also have "\<dots> = (case last_op k xs of Some r \<Rightarrow> r | None \<Rightarrow> find ?m k)"
    by (rule Cons.IH)
  also have "\<dots> = (case last_op k (x # xs) of Some r \<Rightarrow> r | None \<Rightarrow> find m k)"
    by (cases x) (auto simp: find_upd find_erase split: option.splits)
  finally show ?case .
qed

lemma run_find_untouched:
  "k \<notin> op_key ` set ops \<Longrightarrow> find (store_run upd erase ops m) k = find m k"
proof -
  have "k \<notin> op_key ` set ops \<Longrightarrow> last_op k ops = None"
    by (induction ops) auto
  then show "k \<notin> op_key ` set ops \<Longrightarrow> ?thesis" by (simp add: run_find)
qed

end

interpretation om: keyed_store om_find om_upd om_erase om_ok
  by unfold_locales auto


section \<open>Transition systems\<close>

inductive reach :: "('s \<Rightarrow> bool) \<Rightarrow> ('s \<Rightarrow> 's \<Rightarrow> bool) \<Rightarrow> 's \<Rightarrow> bool"
  for init :: "'s \<Rightarrow> bool" and step :: "'s \<Rightarrow> 's \<Rightarrow> bool" where
  reach_init: "init s \<Longrightarrow> reach init step s"
| reach_step: "reach init step s \<Longrightarrow> step s t \<Longrightarrow> reach init step t"

locale transition_system =
  fixes init :: "'s \<Rightarrow> bool"
    and step :: "'s \<Rightarrow> 's \<Rightarrow> bool"
    and inv :: "'s \<Rightarrow> bool"
  assumes inv_init: "init s \<Longrightarrow> inv s"
    and inv_step: "inv s \<Longrightarrow> step s t \<Longrightarrow> inv t"
begin

lemma reach_inv: "reach init step s \<Longrightarrow> inv s"
  by (induction rule: reach.induct) (auto intro: inv_init inv_step)

lemma rtranclp_inv: "step\<^sup>*\<^sup>* s t \<Longrightarrow> inv s \<Longrightarrow> inv t"
  by (induction rule: rtranclp_induct) (auto intro: inv_step)

end

end
