(* ===== verification/Cdr.thy ===== *)
theory Cdr
  imports Prelude
begin

text \<open>
  The CDR byte codec: \<^verbatim>\<open>CdrWriter\<close> and \<^verbatim>\<open>CdrReader\<close> of \<^verbatim>\<open>rcllite/cdr.hpp\<close> and the sequence
  helpers of \<^verbatim>\<open>rcllite/msg_traits.hpp\<close>.

  A writer is its buffer; a reader is the triple \<^verbatim>\<open>buf_\<close>, \<^verbatim>\<open>size_\<close>, \<^verbatim>\<open>pos_\<close>.  Scalars are
  words; \<^verbatim>\<open>float\<close> and \<^verbatim>\<open>double\<close> are their IEEE bit patterns, since the codec only copies their
  object representation.  The host is little endian (\<^verbatim>\<open>write_aligned(&v, n, n)\<close> copies the
  object representation), which is what the CDR-LE header announces.

  The locale \<open>cdr_codec\<close> is the contract of a serialize/deserialize pair; scalars, strings and
  sequences of codecs implement it, and the generated message types are used through it.
\<close>

section \<open>Little-endian object representation\<close>

fun le_bytes :: "nat \<Rightarrow> nat \<Rightarrow> byte list" where
  "le_bytes 0 x = []"
| "le_bytes (Suc n) x = word_of_nat (x mod 256) # le_bytes n (x div 256)"

fun le_value :: "byte list \<Rightarrow> nat" where
  "le_value [] = 0"
| "le_value (b # bs) = unat b + 256 * le_value bs"

lemma length_le_bytes [simp]: "length (le_bytes n x) = n"
  by (induction n arbitrary: x) auto

lemma unat_byte_of_nat: "unat (word_of_nat (x mod 256) :: byte) = x mod 256"
  by (simp add: unat_of_nat)

lemma le_value_le_bytes: "le_value (le_bytes n x) = x mod 256 ^ n"
proof (induction n arbitrary: x)
  case (Suc n)
  have "le_value (le_bytes (Suc n) x) = x mod 256 + 256 * (x div 256 mod 256 ^ n)"
    by (simp only: le_bytes.simps le_value.simps Suc unat_byte_of_nat)
  also have "\<dots> = x mod (256 * 256 ^ n)"
    by (simp add: mod_mult2_eq)
  finally show ?case by simp
qed simp

definition byte_of_char :: "char \<Rightarrow> byte" where
  "byte_of_char c = word_of_nat (of_char c)"

definition char_of_byte :: "byte \<Rightarrow> char" where
  "char_of_byte b = char_of (unat b)"

lemma char_of_byte_of_char [simp]: "char_of_byte (byte_of_char c) = c"
proof -
  have "(of_char c :: nat) mod 256 = of_char c" by simp
  then show ?thesis by (simp add: char_of_byte_def byte_of_char_def unat_of_nat)
qed

lemma byte_of_char_of_byte [simp]: "byte_of_char (char_of_byte b) = b"
proof -
  have "unat b < 256" using unsigned_less [of b, where ?'a = nat] by simp
  then show ?thesis by (simp add: char_of_byte_def byte_of_char_def)
qed


section \<open>CdrWriter\<close>

record cdr_writer =
  w_buf :: "byte list"

definition cdr_writer_init :: cdr_writer where
  "cdr_writer_init = \<lparr>w_buf = [0x00, 0x01, 0x00, 0x00]\<rparr>"

definition payload :: "cdr_writer \<Rightarrow> byte list" where
  "payload w = w_buf w"

definition w_payload_offset :: "cdr_writer \<Rightarrow> nat" where
  "w_payload_offset w = length (w_buf w) - 4"

definition align_pad :: "nat \<Rightarrow> nat \<Rightarrow> nat" where
  "align_pad off n = (n - off mod n) mod n"

definition w_align_to :: "nat \<Rightarrow> cdr_writer \<Rightarrow> cdr_writer" where
  "w_align_to n w = w\<lparr>w_buf := w_buf w @ replicate (align_pad (w_payload_offset w) n) 0\<rparr>"

definition write_bytes :: "byte list \<Rightarrow> cdr_writer \<Rightarrow> cdr_writer" where
  "write_bytes data w = w\<lparr>w_buf := w_buf w @ data\<rparr>"

definition write_aligned :: "byte list \<Rightarrow> nat \<Rightarrow> cdr_writer \<Rightarrow> cdr_writer" where
  "write_aligned data alignment w = write_bytes data (w_align_to alignment w)"

definition write_bool :: "bool \<Rightarrow> cdr_writer \<Rightarrow> cdr_writer" where
  "write_bool v = write_aligned [if v then 1 else 0] 1"

definition write_uint8 :: "8 word \<Rightarrow> cdr_writer \<Rightarrow> cdr_writer" where
  "write_uint8 v = write_aligned (le_bytes 1 (unat v)) 1"

definition write_byte :: "8 word \<Rightarrow> cdr_writer \<Rightarrow> cdr_writer" where
  "write_byte v = write_aligned (le_bytes 1 (unat v)) 1"

definition write_int8 :: "8 word \<Rightarrow> cdr_writer \<Rightarrow> cdr_writer" where
  "write_int8 v = write_aligned (le_bytes 1 (unat v)) 1"

definition write_char :: "8 word \<Rightarrow> cdr_writer \<Rightarrow> cdr_writer" where
  "write_char v = write_aligned (le_bytes 1 (unat v)) 1"

definition write_uint16 :: "16 word \<Rightarrow> cdr_writer \<Rightarrow> cdr_writer" where
  "write_uint16 v = write_aligned (le_bytes 2 (unat v)) 2"

definition write_int16 :: "16 word \<Rightarrow> cdr_writer \<Rightarrow> cdr_writer" where
  "write_int16 v = write_aligned (le_bytes 2 (unat v)) 2"

definition write_uint32 :: "32 word \<Rightarrow> cdr_writer \<Rightarrow> cdr_writer" where
  "write_uint32 v = write_aligned (le_bytes 4 (unat v)) 4"

definition write_int32 :: "32 word \<Rightarrow> cdr_writer \<Rightarrow> cdr_writer" where
  "write_int32 v = write_aligned (le_bytes 4 (unat v)) 4"

definition write_float32 :: "32 word \<Rightarrow> cdr_writer \<Rightarrow> cdr_writer" where
  "write_float32 v = write_aligned (le_bytes 4 (unat v)) 4"

definition write_uint64 :: "64 word \<Rightarrow> cdr_writer \<Rightarrow> cdr_writer" where
  "write_uint64 v = write_aligned (le_bytes 8 (unat v)) 8"

definition write_int64 :: "64 word \<Rightarrow> cdr_writer \<Rightarrow> cdr_writer" where
  "write_int64 v = write_aligned (le_bytes 8 (unat v)) 8"

definition write_float64 :: "64 word \<Rightarrow> cdr_writer \<Rightarrow> cdr_writer" where
  "write_float64 v = write_aligned (le_bytes 8 (unat v)) 8"

text \<open>The length is cast to 32 bits, as \<^verbatim>\<open>static_cast<uint32_t>(s.size() + 1)\<close> does.\<close>

definition write_string :: "string \<Rightarrow> cdr_writer \<Rightarrow> cdr_writer" where
  "write_string s w =
     write_bytes (map byte_of_char s @ [0])
       (write_uint32 (word_of_nat (length s + 1)) w)"


section \<open>CdrReader\<close>

record cdr_reader =
  r_buf :: "byte list"
  r_size :: nat
  r_pos :: nat

text \<open>
  \<open>data\<close> is the memory behind the pointer; a caller that passes a \<open>sz\<close> larger than it is
  outside the contract, and the accesses past it are \<open>UndefinedBehaviour\<close>.
\<close>

definition cdr_reader_init :: "byte list \<Rightarrow> nat \<Rightarrow> cdr_reader result" where
  "cdr_reader_init data sz =
     (if sz < 4 then Inl (InvalidArguments ''CDR buffer too small for encapsulation header'')
      else (case data of
          b0 # b1 # _ \<Rightarrow>
            if (or (push_bit 8 (ucast b0)) (ucast b1) :: 16 word) \<noteq> 0x0001
            then Inl (InvalidArguments ''unsupported CDR encapsulation (expected CDR_LE)'')
            else Inr \<lparr>r_buf = data, r_size = sz, r_pos = 4\<rparr>
        | _ \<Rightarrow> Inl (UndefinedBehaviour ''encapsulation header read out of bounds'')))"

definition cdr_reader_of_vector :: "byte list \<Rightarrow> cdr_reader result" where
  "cdr_reader_of_vector p = cdr_reader_init p (length p)"

definition remaining :: "cdr_reader \<Rightarrow> nat" where
  "remaining r = r_size r - r_pos r"

definition r_payload_offset :: "cdr_reader \<Rightarrow> nat" where
  "r_payload_offset r = r_pos r - 4"

definition r_align_to :: "nat \<Rightarrow> cdr_reader \<Rightarrow> cdr_reader result" where
  "r_align_to n r =
     (let pad = align_pad (r_payload_offset r) n in
      if r_pos r + pad > r_size r
      then Inl (InvalidArguments ''CDR alignment runs past end of buffer'')
      else Inr (r\<lparr>r_pos := r_pos r + pad\<rparr>))"

text \<open>Copying \<open>n\<close> bytes at an offset of a memory block (\<^verbatim>\<open>std::memcpy\<close> from \<^verbatim>\<open>buf_ + pos_\<close>).\<close>

definition mem_read :: "byte list \<Rightarrow> nat \<Rightarrow> nat \<Rightarrow> byte list result" where
  "mem_read m off n =
     (if off + n \<le> length m then Inr (take n (drop off m))
      else Inl (UndefinedBehaviour ''read out of bounds''))"

definition read_bytes :: "nat \<Rightarrow> cdr_reader \<Rightarrow> (byte list \<times> cdr_reader) result" where
  "read_bytes n r =
     (if r_pos r + n > r_size r then Inl (InvalidArguments ''CDR read past end of buffer'')
      else rbind (mem_read (r_buf r) (r_pos r) n)
             (\<lambda>bs. Inr (bs, r\<lparr>r_pos := r_pos r + n\<rparr>)))"

text \<open>\<^verbatim>\<open>read_aligned<T>()\<close> with \<^verbatim>\<open>sizeof(T) = n\<close>; \<open>decode\<close> is the reinterpretation as \<^verbatim>\<open>T\<close>.\<close>

definition read_aligned ::
    "nat \<Rightarrow> (byte list \<Rightarrow> 'a result) \<Rightarrow> cdr_reader \<Rightarrow> ('a \<times> cdr_reader) result" where
  "read_aligned n decode r =
     rbind (r_align_to n r) (\<lambda>r.
     rbind (read_bytes n r) (\<lambda>(bs, r).
     rbind (decode bs) (\<lambda>v. Inr (v, r))))"

definition word_of_bytes :: "byte list \<Rightarrow> 'w::len word result" where
  "word_of_bytes bs = Inr (word_of_nat (le_value bs))"

text \<open>A \<^verbatim>\<open>bool\<close> object has the values 0 and 1 only; any other byte is a trap value.\<close>

definition bool_of_bytes :: "byte list \<Rightarrow> bool result" where
  "bool_of_bytes bs =
     (if bs = [0] then Inr False
      else if bs = [1] then Inr True
      else Inl (UndefinedBehaviour ''bool object with a value other than 0 and 1''))"

definition read_bool :: "cdr_reader \<Rightarrow> (bool \<times> cdr_reader) result" where
  "read_bool = read_aligned 1 bool_of_bytes"

definition read_byte :: "cdr_reader \<Rightarrow> (8 word \<times> cdr_reader) result" where
  "read_byte = read_aligned 1 word_of_bytes"

definition read_uint8 :: "cdr_reader \<Rightarrow> (8 word \<times> cdr_reader) result" where
  "read_uint8 = read_aligned 1 word_of_bytes"

definition read_int8 :: "cdr_reader \<Rightarrow> (8 word \<times> cdr_reader) result" where
  "read_int8 = read_aligned 1 word_of_bytes"

definition read_char :: "cdr_reader \<Rightarrow> (8 word \<times> cdr_reader) result" where
  "read_char = read_aligned 1 word_of_bytes"

definition read_uint16 :: "cdr_reader \<Rightarrow> (16 word \<times> cdr_reader) result" where
  "read_uint16 = read_aligned 2 word_of_bytes"

definition read_int16 :: "cdr_reader \<Rightarrow> (16 word \<times> cdr_reader) result" where
  "read_int16 = read_aligned 2 word_of_bytes"

definition read_uint32 :: "cdr_reader \<Rightarrow> (32 word \<times> cdr_reader) result" where
  "read_uint32 = read_aligned 4 word_of_bytes"

definition read_int32 :: "cdr_reader \<Rightarrow> (32 word \<times> cdr_reader) result" where
  "read_int32 = read_aligned 4 word_of_bytes"

definition read_float32 :: "cdr_reader \<Rightarrow> (32 word \<times> cdr_reader) result" where
  "read_float32 = read_aligned 4 word_of_bytes"

definition read_uint64 :: "cdr_reader \<Rightarrow> (64 word \<times> cdr_reader) result" where
  "read_uint64 = read_aligned 8 word_of_bytes"

definition read_int64 :: "cdr_reader \<Rightarrow> (64 word \<times> cdr_reader) result" where
  "read_int64 = read_aligned 8 word_of_bytes"

definition read_float64 :: "cdr_reader \<Rightarrow> (64 word \<times> cdr_reader) result" where
  "read_float64 = read_aligned 8 word_of_bytes"

definition read_string :: "cdr_reader \<Rightarrow> (string \<times> cdr_reader) result" where
  "read_string r0 =
     rbind (read_uint32 r0) (\<lambda>(len, r).
       if len = 0 \<or> r_pos r + unat len > r_size r
       then Inl (InvalidArguments ''invalid string length in CDR stream'')
       else rbind (mem_read (r_buf r) (r_pos r) (unat len - 1)) (\<lambda>bs.
              Inr (map char_of_byte bs, r\<lparr>r_pos := r_pos r + unat len\<rparr>)))"


section \<open>Sequences (msg\_traits.hpp)\<close>

type_synonym 'a serializer = "'a \<Rightarrow> cdr_writer \<Rightarrow> cdr_writer"

text \<open>A deserializer returns \<open>None\<close> for \<^verbatim>\<open>return false\<close>.\<close>

type_synonym 'a deserializer = "cdr_reader \<Rightarrow> ('a option \<times> cdr_reader) result"

definition write_sequence :: "'a serializer \<Rightarrow> 'a list serializer" where
  "write_sequence serialize_elem v w =
     fold serialize_elem v (write_uint32 (word_of_nat (length v)) (w_align_to 4 w))"

fun read_elems :: "'a deserializer \<Rightarrow> nat \<Rightarrow> 'a list \<Rightarrow> 'a list deserializer" where
  "read_elems deserialize_elem 0 v r = Inr (Some v, r)"
| "read_elems deserialize_elem (Suc n) v r =
     rbind (deserialize_elem r) (\<lambda>(e, r').
       case e of None \<Rightarrow> Inr (None, r')
       | Some x \<Rightarrow> read_elems deserialize_elem n (v @ [x]) r')"

definition read_sequence :: "'a deserializer \<Rightarrow> 'a list deserializer" where
  "read_sequence deserialize_elem r0 =
     rbind (r_align_to 4 r0) (\<lambda>r1.
     rbind (read_uint32 r1) (\<lambda>(n, r).
       if unat n > remaining r then Inr (None, r)
       else read_elems deserialize_elem (unat n) [] r))"

definition write_string_sequence :: "string list serializer" where
  "write_string_sequence = write_sequence write_string"

text \<open>An element deserializer that ends with \<^verbatim>\<open>return true\<close>.\<close>

definition then_true :: "(cdr_reader \<Rightarrow> ('a \<times> cdr_reader) result) \<Rightarrow> 'a deserializer" where
  "then_true rd r = rbind (rd r) (\<lambda>(x, r). Inr (Some x, r))"

definition read_string_sequence :: "string list deserializer" where
  "read_string_sequence = read_sequence (then_true read_string)"


section \<open>Well-formed readers and writers\<close>

definition writer_ok :: "cdr_writer \<Rightarrow> bool" where
  "writer_ok w \<longleftrightarrow> starts_with [0x00, 0x01, 0x00, 0x00] (w_buf w)"

definition reader_ok :: "cdr_reader \<Rightarrow> bool" where
  "reader_ok r \<longleftrightarrow> 4 \<le> r_pos r \<and> r_pos r \<le> r_size r \<and> r_size r \<le> length (r_buf r)"

text \<open>\<open>moved r r'\<close>: \<open>r'\<close> is \<open>r\<close> after reading, over the same buffer and not further back.\<close>

definition moved :: "cdr_reader \<Rightarrow> cdr_reader \<Rightarrow> bool" where
  "moved r r' \<longleftrightarrow>
     reader_ok r' \<and> r_buf r' = r_buf r \<and> r_size r' = r_size r \<and> r_pos r \<le> r_pos r'"

definition reader_at :: "byte list \<Rightarrow> nat \<Rightarrow> cdr_reader" where
  "reader_at b p = \<lparr>r_buf = b, r_size = length b, r_pos = p\<rparr>"

lemma reader_at_simps [simp]:
  "r_buf (reader_at b p) = b"
  "r_size (reader_at b p) = length b"
  "r_pos (reader_at b p) = p"
  "(reader_at b p)\<lparr>r_pos := q\<rparr> = reader_at b q"
  "remaining (reader_at b p) = length b - p"
  by (simp_all add: reader_at_def remaining_def)

lemma writer_ok_init [simp]: "writer_ok cdr_writer_init"
  by (simp add: writer_ok_def cdr_writer_init_def)

lemma length_cdr_writer_init [simp]: "length (w_buf cdr_writer_init) = 4"
  by (simp add: cdr_writer_init_def)

lemma writer_ok_length: "writer_ok w \<Longrightarrow> 4 \<le> length (w_buf w)"
  by (auto simp: writer_ok_def starts_with_iff)

lemma writer_ok_extend:
  "writer_ok w \<Longrightarrow> w_buf w' = w_buf w @ ext \<Longrightarrow> writer_ok w'"
  by (auto simp: writer_ok_def starts_with_iff)

lemma w_buf_align [simp]:
  "w_buf (w_align_to n w) = w_buf w @ replicate (align_pad (w_payload_offset w) n) 0"
  by (simp add: w_align_to_def)

lemma w_buf_write_bytes [simp]: "w_buf (write_bytes d w) = w_buf w @ d"
  by (simp add: write_bytes_def)

lemma w_buf_write_aligned:
  "w_buf (write_aligned d n w) =
     w_buf w @ replicate (align_pad (w_payload_offset w) n) 0 @ d"
  by (simp add: write_aligned_def)

lemma writer_ok_align [simp]: "writer_ok w \<Longrightarrow> writer_ok (w_align_to n w)"
  by (rule writer_ok_extend) simp_all

lemma writer_ok_write_aligned [simp]: "writer_ok w \<Longrightarrow> writer_ok (write_aligned d n w)"
  by (rule writer_ok_extend) (simp_all add: w_buf_write_aligned)

lemma align_pad_dvd: "0 < n \<Longrightarrow> n dvd off + align_pad off n"
proof (cases "off mod n = 0")
  case False
  assume n: "0 < n"
  with False have "align_pad off n = n - off mod n" by (simp add: align_pad_def)
  moreover from n have "off + (n - off mod n) = n * (off div n) + n"
    using mod_less_divisor [OF n, of off] mult_div_mod_eq [of n off] by linarith
  ultimately show ?thesis by simp
qed (auto simp: align_pad_def)

lemma align_pad_less: "0 < n \<Longrightarrow> align_pad off n < n"
  by (simp add: align_pad_def)

lemma align_pad_aligned: "n dvd off \<Longrightarrow> align_pad off n = 0"
  by (auto simp: align_pad_def)

lemma w_align_to_idem:
  assumes "writer_ok w" "0 < n"
  shows "w_align_to n (w_align_to n w) = w_align_to n w"
proof -
  have "w_payload_offset (w_align_to n w) = w_payload_offset w + align_pad (w_payload_offset w) n"
    using writer_ok_length [OF assms(1)] by (simp add: w_payload_offset_def)
  then have "align_pad (w_payload_offset (w_align_to n w)) n = 0"
    using align_pad_dvd [OF assms(2)] by (simp add: align_pad_aligned)
  then show ?thesis by (simp add: w_align_to_def)
qed


section \<open>Reading back one aligned object\<close>

lemma r_align_back:
  assumes "writer_ok w"
  shows "r_align_to n (reader_at (w_buf (w_align_to n w) @ rest) (length (w_buf w))) =
    Inr (reader_at (w_buf (w_align_to n w) @ rest) (length (w_buf (w_align_to n w))))"
  by (simp add: r_align_to_def r_payload_offset_def w_payload_offset_def Let_def)

lemma read_bytes_back:
  "read_bytes (length d) (reader_at (b @ d @ rest) (length b)) =
     Inr (d, reader_at (b @ d @ rest) (length b + length d))"
  by (simp add: read_bytes_def mem_read_def)

lemma read_aligned_back:
  assumes "writer_ok w" "length d = n"
  shows "read_aligned n decode
      (reader_at (w_buf (write_aligned d n w) @ rest) (length (w_buf w))) =
    rbind (decode d) (\<lambda>v.
      Inr (v, reader_at (w_buf (write_aligned d n w) @ rest) (length (w_buf (write_aligned d n w)))))"
proof -
  let ?w = "w_align_to n w"
  have buf: "w_buf (write_aligned d n w) @ rest = w_buf ?w @ d @ rest"
    by (simp add: write_aligned_def)
  show ?thesis
    unfolding read_aligned_def buf
    using r_align_back [OF assms(1), of n "d @ rest"]
      read_bytes_back [of d "w_buf ?w" rest] assms(2)
    by (simp add: w_buf_write_aligned add.assoc)
qed

lemma word_of_le_bytes:
  assumes "LENGTH('w::len) = 8 * n"
  shows "word_of_bytes (le_bytes n (unat (v :: 'w word))) = Inr v"
proof -
  have "(256 :: nat) ^ n = 2 ^ LENGTH('w)"
    by (simp add: assms power_mult)
  then have "le_value (le_bytes n (unat v)) = unat v"
    using unsigned_less [of v, where ?'a = nat] by (simp add: le_value_le_bytes)
  then show ?thesis by (simp add: word_of_bytes_def)
qed


lemma cdr_reader_of_header:
  assumes "starts_with [0x00, 0x01, 0x00, 0x00] b"
  shows "cdr_reader_of_vector b = Inr (reader_at b 4)"
proof -
  from assms obtain x where "b = [0x00, 0x01, 0x00, 0x00] @ x"
    by (auto simp: starts_with_iff)
  then show ?thesis
    by (simp add: cdr_reader_of_vector_def cdr_reader_init_def reader_at_def)
qed


section \<open>The contract of a serialize/deserialize pair\<close>

text \<open>
  Serializing appends to the buffer, and deserializing at the position where the value starts
  gives the value back and stops where it ends, whatever bytes follow.  \<open>dom\<close> holds the values
  the wire format can carry (lengths that fit 32 bits).
\<close>

locale cdr_codec =
  fixes ser :: "'a serializer"
    and deser :: "'a deserializer"
    and dom :: "'a \<Rightarrow> bool"
  assumes ser_extends: "\<exists>ext. w_buf (ser a w) = w_buf w @ ext"
    and deser_ser: "writer_ok w \<Longrightarrow> dom a \<Longrightarrow>
      deser (reader_at (w_buf (ser a w) @ rest) (length (w_buf w))) =
        Inr (Some a, reader_at (w_buf (ser a w) @ rest) (length (w_buf (ser a w))))"
begin

lemma ser_ok: "writer_ok w \<Longrightarrow> writer_ok (ser a w)"
  using ser_extends [of a w] writer_ok_extend by blast

lemma fold_extends: "\<exists>ext. w_buf (fold ser vs w) = w_buf w @ ext"
proof (induction vs arbitrary: w)
  case (Cons v vs)
  obtain e1 where "w_buf (ser v w) = w_buf w @ e1" using ser_extends by blast
  moreover obtain e2 where "w_buf (fold ser vs (ser v w)) = w_buf (ser v w) @ e2"
    using Cons by blast
  ultimately show ?case by simp
qed simp

lemma read_elems_back:
  assumes "writer_ok w" "\<forall>v \<in> set vs. dom v"
  shows "read_elems deser (length vs) acc
      (reader_at (w_buf (fold ser vs w) @ rest) (length (w_buf w))) =
    Inr (Some (acc @ vs),
      reader_at (w_buf (fold ser vs w) @ rest) (length (w_buf (fold ser vs w))))"
  using assms
proof (induction vs arbitrary: w acc)
  case (Cons v vs)
  obtain ext where ext: "w_buf (fold ser vs (ser v w)) = w_buf (ser v w) @ ext"
    using fold_extends by blast
  have "deser (reader_at (w_buf (ser v w) @ ext @ rest) (length (w_buf w))) =
      Inr (Some v, reader_at (w_buf (ser v w) @ ext @ rest) (length (w_buf (ser v w))))"
    using Cons.prems by (intro deser_ser) auto
  with Cons.IH [of "ser v w" "acc @ [v]"] Cons.prems ser_ok show ?case
    by (simp add: ext)
qed simp

lemma deser_payload:
  assumes "dom a"
  shows "rbind (cdr_reader_of_vector (payload (ser a cdr_writer_init) @ rest)) deser =
    Inr (Some a, reader_at (payload (ser a cdr_writer_init) @ rest)
      (length (payload (ser a cdr_writer_init))))"
proof -
  obtain ext where ext: "w_buf (ser a cdr_writer_init) = w_buf cdr_writer_init @ ext"
    using ser_extends by blast
  let ?p = "payload (ser a cdr_writer_init) @ rest"
  have "starts_with [0x00, 0x01, 0x00, 0x00] ?p"
    by (simp add: payload_def ext) (simp add: cdr_writer_init_def)
  then have "cdr_reader_of_vector ?p = Inr (reader_at ?p 4)"
    by (rule cdr_reader_of_header)
  moreover have "deser (reader_at ?p 4) =
      Inr (Some a, reader_at ?p (length (payload (ser a cdr_writer_init))))"
    using deser_ser [OF writer_ok_init assms, of rest]
    by (simp add: payload_def)
  ultimately show ?thesis by simp
qed

end

text \<open>A codec whose values take at least one byte: what the guard of \<open>read_sequence\<close> needs.\<close>

locale cdr_sized_codec = cdr_codec +
  assumes ser_nonempty: "length (w_buf w) < length (w_buf (ser a w))"
begin

lemma fold_length: "length (w_buf w) + length vs \<le> length (w_buf (fold ser vs w))"
proof (induction vs arbitrary: w)
  case (Cons v vs)
  have "length (w_buf (ser v w)) + length vs \<le> length (w_buf (fold ser vs (ser v w)))"
    by (rule Cons)
  with ser_nonempty [of w v] show ?case by simp
qed simp

end

lemma write_uint32_extends:
  "w_buf (write_uint32 v w) =
     w_buf w @ replicate (align_pad (w_payload_offset w) 4) 0 @ le_bytes 4 (unat v)"
  by (simp add: write_uint32_def w_buf_write_aligned)

lemma read_uint32_back:
  assumes "writer_ok w"
  shows "read_uint32 (reader_at (w_buf (write_uint32 v w) @ rest) (length (w_buf w))) =
    Inr (v, reader_at (w_buf (write_uint32 v w) @ rest) (length (w_buf (write_uint32 v w))))"
  unfolding read_uint32_def write_uint32_def
  by (simp add: read_aligned_back [OF assms] word_of_le_bytes)

lemma unat_word_of_nat_32: "n < 2 ^ 32 \<Longrightarrow> unat (word_of_nat n :: 32 word) = n"
  by (simp add: unat_of_nat)

context cdr_sized_codec
begin

lemma read_sequence_back:
  assumes ok: "writer_ok w" and len: "length vs < 2 ^ 32" and vs: "\<forall>v \<in> set vs. dom v"
  shows "read_sequence deser
      (reader_at (w_buf (write_sequence ser vs w) @ rest) (length (w_buf w))) =
    Inr (Some vs, reader_at (w_buf (write_sequence ser vs w) @ rest)
      (length (w_buf (write_sequence ser vs w))))"
proof -
  let ?wa = "w_align_to 4 w" and ?n = "word_of_nat (length vs) :: 32 word"
  let ?wn = "write_uint32 ?n ?wa"
  let ?wf = "fold ser vs ?wn"
  let ?B = "w_buf ?wf @ rest"
  have oka: "writer_ok ?wa" and okn: "writer_ok ?wn"
    using ok by (simp_all add: write_uint32_def)
  obtain ext where ext: "w_buf ?wf = w_buf ?wn @ ext" using fold_extends by blast
  obtain ext' where ext': "w_buf ?wn = w_buf ?wa @ ext'"
    using write_uint32_extends by blast
  have a: "r_align_to 4 (reader_at ?B (length (w_buf w))) = Inr (reader_at ?B (length (w_buf ?wa)))"
    using r_align_back [OF ok, of 4 "ext' @ ext @ rest"] by (simp add: ext ext')
  have n: "read_uint32 (reader_at ?B (length (w_buf ?wa))) =
      Inr (?n, reader_at ?B (length (w_buf ?wn)))"
    using read_uint32_back [OF oka, of ?n "ext @ rest"] by (simp add: ext)
  have un: "unat ?n = length vs" using len by (rule unat_word_of_nat_32)
  have "length vs \<le> length ?B - length (w_buf ?wn)"
    using fold_length [of ?wn vs] by simp
  then show ?thesis
    using read_elems_back [OF okn vs, of "[]" rest]
    by (simp add: read_sequence_def write_sequence_def a n un del: w_buf_align)
qed

lemma sequence_codec:
  "cdr_sized_codec (write_sequence ser) (read_sequence deser)
     (\<lambda>vs. length vs < 2 ^ 32 \<and> (\<forall>v \<in> set vs. dom v))"
proof unfold_locales
  fix vs :: "'a list" and w :: cdr_writer
  let ?wn = "write_uint32 (word_of_nat (length vs)) (w_align_to 4 w)"
  obtain ext where ext: "w_buf (fold ser vs ?wn) = w_buf ?wn @ ext" using fold_extends by blast
  then show "\<exists>ext. w_buf (write_sequence ser vs w) = w_buf w @ ext"
    by (simp add: write_sequence_def write_uint32_extends)
  show "length (w_buf w) < length (w_buf (write_sequence ser vs w))"
    using ext by (simp add: write_sequence_def write_uint32_extends)
qed (auto intro: read_sequence_back)

end


section \<open>Scalars and strings are codecs\<close>

lemma aligned_codec:
  assumes "\<And>v. length (enc v) = n" "0 < n" "\<And>v. decode (enc v) = Inr v"
  shows "cdr_sized_codec (\<lambda>v. write_aligned (enc v) n) (then_true (read_aligned n decode)) (\<lambda>_. True)"
proof unfold_locales
  fix w :: cdr_writer and a and rest :: "byte list"
  assume "writer_ok w"
  then show "then_true (read_aligned n decode)
      (reader_at (w_buf (write_aligned (enc a) n w) @ rest) (length (w_buf w))) =
    Inr (Some a, reader_at (w_buf (write_aligned (enc a) n w) @ rest)
      (length (w_buf (write_aligned (enc a) n w))))"
    by (simp add: then_true_def read_aligned_back assms)
qed (use assms in \<open>simp_all add: w_buf_write_aligned\<close>)

lemma word_codec:
  assumes "LENGTH('w::len) = 8 * n" "0 < n"
  shows "cdr_sized_codec (\<lambda>v :: 'w word. write_aligned (le_bytes n (unat v)) n)
    (then_true (read_aligned n word_of_bytes)) (\<lambda>_. True)"
  by (rule aligned_codec) (simp_all add: assms word_of_le_bytes)

interpretation bool_codec: cdr_sized_codec write_bool "then_true read_bool" "\<lambda>_. True"
  unfolding write_bool_def [abs_def] read_bool_def
  by (rule aligned_codec) (simp_all add: bool_of_bytes_def)

interpretation uint8_codec: cdr_sized_codec write_uint8 "then_true read_uint8" "\<lambda>_. True"
  unfolding write_uint8_def [abs_def] read_uint8_def by (rule word_codec) simp_all

interpretation byte_codec: cdr_sized_codec write_byte "then_true read_byte" "\<lambda>_. True"
  unfolding write_byte_def [abs_def] read_byte_def by (rule word_codec) simp_all

interpretation int8_codec: cdr_sized_codec write_int8 "then_true read_int8" "\<lambda>_. True"
  unfolding write_int8_def [abs_def] read_int8_def by (rule word_codec) simp_all

interpretation char_codec: cdr_sized_codec write_char "then_true read_char" "\<lambda>_. True"
  unfolding write_char_def [abs_def] read_char_def by (rule word_codec) simp_all

interpretation uint16_codec: cdr_sized_codec write_uint16 "then_true read_uint16" "\<lambda>_. True"
  unfolding write_uint16_def [abs_def] read_uint16_def by (rule word_codec) simp_all

interpretation int16_codec: cdr_sized_codec write_int16 "then_true read_int16" "\<lambda>_. True"
  unfolding write_int16_def [abs_def] read_int16_def by (rule word_codec) simp_all

interpretation uint32_codec: cdr_sized_codec write_uint32 "then_true read_uint32" "\<lambda>_. True"
  unfolding write_uint32_def [abs_def] read_uint32_def by (rule word_codec) simp_all

interpretation int32_codec: cdr_sized_codec write_int32 "then_true read_int32" "\<lambda>_. True"
  unfolding write_int32_def [abs_def] read_int32_def by (rule word_codec) simp_all

interpretation float32_codec: cdr_sized_codec write_float32 "then_true read_float32" "\<lambda>_. True"
  unfolding write_float32_def [abs_def] read_float32_def by (rule word_codec) simp_all

interpretation uint64_codec: cdr_sized_codec write_uint64 "then_true read_uint64" "\<lambda>_. True"
  unfolding write_uint64_def [abs_def] read_uint64_def by (rule word_codec) simp_all

interpretation int64_codec: cdr_sized_codec write_int64 "then_true read_int64" "\<lambda>_. True"
  unfolding write_int64_def [abs_def] read_int64_def by (rule word_codec) simp_all

interpretation float64_codec: cdr_sized_codec write_float64 "then_true read_float64" "\<lambda>_. True"
  unfolding write_float64_def [abs_def] read_float64_def by (rule word_codec) simp_all

definition string_fits :: "string \<Rightarrow> bool" where
  "string_fits s \<longleftrightarrow> length s + 1 < 2 ^ 32"

interpretation string_codec: cdr_sized_codec write_string "then_true read_string" string_fits
proof unfold_locales
  fix s and w :: cdr_writer
  show "\<exists>ext. w_buf (write_string s w) = w_buf w @ ext"
    and "length (w_buf w) < length (w_buf (write_string s w))"
    by (simp_all add: write_string_def write_uint32_extends)
next
  fix w :: cdr_writer and s :: string and rest :: "byte list"
  assume ok: "writer_ok w" and fits: "string_fits s"
  let ?n = "word_of_nat (length s + 1) :: 32 word"
  let ?d = "map byte_of_char s @ [0]"
  let ?wn = "write_uint32 ?n w"
  have un: "unat ?n = length s + 1"
    using fits unat_word_of_nat_32 [of "length s + 1"] by (simp add: string_fits_def)
  then have nz: "?n \<noteq> 0" by (metis add_is_0 one_neq_zero unat_0)
  have "read_uint32 (reader_at (w_buf ?wn @ ?d @ rest) (length (w_buf w))) =
      Inr (?n, reader_at (w_buf ?wn @ ?d @ rest) (length (w_buf ?wn)))"
    by (rule read_uint32_back [OF ok])
  then show "then_true read_string (reader_at (w_buf (write_string s w) @ rest) (length (w_buf w))) =
      Inr (Some s, reader_at (w_buf (write_string s w) @ rest) (length (w_buf (write_string s w))))"
    using nz un
    by (simp add: then_true_def read_string_def write_string_def mem_read_def comp_def)
qed

interpretation string_seq_codec: cdr_sized_codec write_string_sequence read_string_sequence
  "\<lambda>ss. length ss < 2 ^ 32 \<and> (\<forall>s \<in> set ss. string_fits s)"
  unfolding write_string_sequence_def read_string_sequence_def
  by (rule string_codec.sequence_codec)


section \<open>Streams of typed fields\<close>

text \<open>
  A message body is a sequence of scalar and string fields.  \<open>write_val\<close> and \<open>read_val\<close> name the
  writer and reader method of each field type, as the generated \<^verbatim>\<open>serialize\<close>/\<^verbatim>\<open>deserialize\<close>
  members call them.
\<close>

datatype cdr_val =
    VBool bool | VByte "8 word" | VUint8 "8 word" | VInt8 "8 word" | VChar "8 word"
  | VUint16 "16 word" | VInt16 "16 word" | VUint32 "32 word" | VInt32 "32 word"
  | VFloat32 "32 word" | VUint64 "64 word" | VInt64 "64 word" | VFloat64 "64 word"
  | VString string

datatype cdr_type =
    TBool | TByte | TUint8 | TInt8 | TChar | TUint16 | TInt16 | TUint32 | TInt32
  | TFloat32 | TUint64 | TInt64 | TFloat64 | TString

fun val_type :: "cdr_val \<Rightarrow> cdr_type" where
  "val_type (VBool _) = TBool" | "val_type (VByte _) = TByte"
| "val_type (VUint8 _) = TUint8" | "val_type (VInt8 _) = TInt8"
| "val_type (VChar _) = TChar" | "val_type (VUint16 _) = TUint16"
| "val_type (VInt16 _) = TInt16" | "val_type (VUint32 _) = TUint32"
| "val_type (VInt32 _) = TInt32" | "val_type (VFloat32 _) = TFloat32"
| "val_type (VUint64 _) = TUint64" | "val_type (VInt64 _) = TInt64"
| "val_type (VFloat64 _) = TFloat64" | "val_type (VString _) = TString"

fun write_val :: "cdr_val serializer" where
  "write_val (VBool v) = write_bool v" | "write_val (VByte v) = write_byte v"
| "write_val (VUint8 v) = write_uint8 v" | "write_val (VInt8 v) = write_int8 v"
| "write_val (VChar v) = write_char v" | "write_val (VUint16 v) = write_uint16 v"
| "write_val (VInt16 v) = write_int16 v" | "write_val (VUint32 v) = write_uint32 v"
| "write_val (VInt32 v) = write_int32 v" | "write_val (VFloat32 v) = write_float32 v"
| "write_val (VUint64 v) = write_uint64 v" | "write_val (VInt64 v) = write_int64 v"
| "write_val (VFloat64 v) = write_float64 v" | "write_val (VString v) = write_string v"

definition rmap :: "('a \<Rightarrow> 'b) \<Rightarrow> ('a \<times> cdr_reader) result \<Rightarrow> ('b \<times> cdr_reader) result" where
  "rmap f m = rbind m (\<lambda>(x, r). Inr (f x, r))"

fun read_val :: "cdr_type \<Rightarrow> cdr_reader \<Rightarrow> (cdr_val \<times> cdr_reader) result" where
  "read_val TBool r = rmap VBool (read_bool r)"
| "read_val TByte r = rmap VByte (read_byte r)"
| "read_val TUint8 r = rmap VUint8 (read_uint8 r)"
| "read_val TInt8 r = rmap VInt8 (read_int8 r)"
| "read_val TChar r = rmap VChar (read_char r)"
| "read_val TUint16 r = rmap VUint16 (read_uint16 r)"
| "read_val TInt16 r = rmap VInt16 (read_int16 r)"
| "read_val TUint32 r = rmap VUint32 (read_uint32 r)"
| "read_val TInt32 r = rmap VInt32 (read_int32 r)"
| "read_val TFloat32 r = rmap VFloat32 (read_float32 r)"
| "read_val TUint64 r = rmap VUint64 (read_uint64 r)"
| "read_val TInt64 r = rmap VInt64 (read_int64 r)"
| "read_val TFloat64 r = rmap VFloat64 (read_float64 r)"
| "read_val TString r = rmap VString (read_string r)"

fun read_vals :: "cdr_type list \<Rightarrow> cdr_reader \<Rightarrow> (cdr_val list \<times> cdr_reader) result" where
  "read_vals [] r = Inr ([], r)"
| "read_vals (t # ts) r =
     rbind (read_val t r) (\<lambda>(v, r). rbind (read_vals ts r) (\<lambda>(vs, r). Inr (v # vs, r)))"

fun val_fits :: "cdr_val \<Rightarrow> bool" where
  "val_fits (VString s) = string_fits s"
| "val_fits _ = True"

lemma then_true_eqD: "then_true rd r = Inr (Some v, r') \<Longrightarrow> rd r = Inr (v, r')"
  by (auto simp: then_true_def rbind_eq_Inr_iff)

lemmas scalar_reads_back =
  bool_codec.deser_ser [THEN then_true_eqD] byte_codec.deser_ser [THEN then_true_eqD]
  uint8_codec.deser_ser [THEN then_true_eqD] int8_codec.deser_ser [THEN then_true_eqD]
  char_codec.deser_ser [THEN then_true_eqD] uint16_codec.deser_ser [THEN then_true_eqD]
  int16_codec.deser_ser [THEN then_true_eqD] uint32_codec.deser_ser [THEN then_true_eqD]
  int32_codec.deser_ser [THEN then_true_eqD] float32_codec.deser_ser [THEN then_true_eqD]
  uint64_codec.deser_ser [THEN then_true_eqD] int64_codec.deser_ser [THEN then_true_eqD]
  float64_codec.deser_ser [THEN then_true_eqD] string_codec.deser_ser [THEN then_true_eqD]

lemmas scalar_writes_extend =
  bool_codec.ser_extends byte_codec.ser_extends uint8_codec.ser_extends int8_codec.ser_extends
  char_codec.ser_extends uint16_codec.ser_extends int16_codec.ser_extends
  uint32_codec.ser_extends int32_codec.ser_extends float32_codec.ser_extends
  uint64_codec.ser_extends int64_codec.ser_extends float64_codec.ser_extends
  string_codec.ser_extends

lemma write_val_extends: "\<exists>ext. w_buf (write_val v w) = w_buf w @ ext"
  by (cases v) (simp_all add: scalar_writes_extend)

lemma read_val_back:
  assumes "writer_ok w" "val_fits v"
  shows "read_val (val_type v) (reader_at (w_buf (write_val v w) @ rest) (length (w_buf w))) =
    Inr (v, reader_at (w_buf (write_val v w) @ rest) (length (w_buf (write_val v w))))"
  using assms by (cases v) (simp_all add: rmap_def scalar_reads_back)

lemma write_vals_extend: "\<exists>ext. w_buf (fold write_val vs w) = w_buf w @ ext"
proof (induction vs arbitrary: w)
  case (Cons v vs)
  obtain e1 where "w_buf (write_val v w) = w_buf w @ e1" using write_val_extends by blast
  moreover obtain e2 where "w_buf (fold write_val vs (write_val v w)) = w_buf (write_val v w) @ e2"
    using Cons by blast
  ultimately show ?case by simp
qed simp

lemma read_vals_back:
  assumes "writer_ok w" "\<forall>v \<in> set vs. val_fits v"
  shows "read_vals (map val_type vs)
      (reader_at (w_buf (fold write_val vs w) @ rest) (length (w_buf w))) =
    Inr (vs, reader_at (w_buf (fold write_val vs w) @ rest)
      (length (w_buf (fold write_val vs w))))"
  using assms
proof (induction vs arbitrary: w)
  case (Cons v vs)
  obtain ext where ext: "w_buf (fold write_val vs (write_val v w)) = w_buf (write_val v w) @ ext"
    using write_vals_extend by blast
  have ok: "writer_ok (write_val v w)"
    using Cons.prems(1) write_val_extends [of v w] writer_ok_extend by blast
  show ?case
    using read_val_back [of w v "ext @ rest"] Cons.IH [OF ok] Cons.prems
    by (simp add: ext)
qed simp


section \<open>Every read stays inside the buffer\<close>

lemma r_align_to_moved:
  "reader_ok r \<Longrightarrow> r_align_to n r = Inr r' \<Longrightarrow> moved r r'"
  by (auto simp: r_align_to_def moved_def reader_ok_def Let_def split: if_splits)

lemma read_bytes_moved:
  "reader_ok r \<Longrightarrow> read_bytes n r = Inr (bs, r') \<Longrightarrow> moved r r' \<and> r_pos r' = r_pos r + n"
  by (auto simp: read_bytes_def mem_read_def moved_def reader_ok_def rbind_eq_Inr_iff
      split: if_splits)

lemma read_bytes_no_ub: "reader_ok r \<Longrightarrow> read_bytes n r = Inl e \<Longrightarrow> \<not> is_ub e"
  by (auto simp: read_bytes_def mem_read_def reader_ok_def split: if_splits)

lemma r_align_to_no_ub: "r_align_to n r = Inl e \<Longrightarrow> \<not> is_ub e"
  by (auto simp: r_align_to_def Let_def split: if_splits)

lemma moved_trans: "moved r r' \<Longrightarrow> moved r' r'' \<Longrightarrow> moved r r''"
  by (auto simp: moved_def)

lemma moved_ok: "moved r r' \<Longrightarrow> reader_ok r'"
  by (simp add: moved_def)

lemma read_aligned_moved:
  assumes "reader_ok r" "read_aligned n decode r = Inr (v, r')"
  shows "moved r r' \<and> r_pos r + n \<le> r_pos r'"
proof -
  from assms(2) obtain r1 bs where 1: "r_align_to n r = Inr r1" "read_bytes n r1 = Inr (bs, r')"
    by (auto simp: read_aligned_def rbind_eq_Inr_iff)
  with assms(1) have "moved r r1" by (blast intro: r_align_to_moved)
  with 1 show ?thesis
    using read_bytes_moved [of r1 n bs r'] by (auto simp: moved_def)
qed

lemma read_aligned_no_ub:
  assumes "reader_ok r" "read_aligned n decode r = Inl e" "\<And>bs e. decode bs = Inl e \<Longrightarrow> \<not> is_ub e"
  shows "\<not> is_ub e"
proof -
  consider (align) "r_align_to n r = Inl e"
    | (bytes) r1 where "r_align_to n r = Inr r1" "read_bytes n r1 = Inl e"
    | (decode) bs where "decode bs = Inl e"
    using assms(2) by (auto simp: read_aligned_def rbind_eq_Inl_iff)
  then show ?thesis
  proof cases
    case align
    then show ?thesis by (rule r_align_to_no_ub)
  next
    case bytes
    with assms(1) have "reader_ok r1" by (blast dest: r_align_to_moved moved_ok)
    then show ?thesis using bytes(2) by (rule read_bytes_no_ub)
  qed (rule assms(3))
qed

lemma word_of_bytes_total [simp]: "word_of_bytes bs \<noteq> Inl e"
  by (simp add: word_of_bytes_def)

lemmas scalar_read_defs =
  read_bool_def read_byte_def read_uint8_def read_int8_def read_char_def read_uint16_def
  read_int16_def read_uint32_def read_int32_def read_float32_def read_uint64_def
  read_int64_def read_float64_def

lemma read_string_moved:
  assumes "reader_ok r" "read_string r = Inr (s, r')"
  shows "moved r r' \<and> r_pos r < r_pos r'"
proof -
  from assms(2) obtain len r1 where 1: "read_uint32 r = Inr (len, r1)"
      "r' = r1\<lparr>r_pos := r_pos r1 + unat len\<rparr>" "r_pos r1 + unat len \<le> r_size r1"
    by (auto simp: read_string_def rbind_eq_Inr_iff split: if_splits)
  have "moved r r1 \<and> r_pos r + 4 \<le> r_pos r1"
    using assms(1) 1(1) by (auto simp: read_uint32_def dest: read_aligned_moved)
  with 1 show ?thesis by (auto simp: moved_def reader_ok_def)
qed

lemma read_string_no_ub:
  assumes "reader_ok r" "read_string r = Inl e"
  shows "\<not> is_ub e"
proof -
  have ok: "moved r r1" if "read_uint32 r = Inr (len, r1)" for len r1
    using assms(1) that by (auto simp: read_uint32_def dest: read_aligned_moved)
  have ub: "\<not> is_ub e'" if "read_uint32 r = Inl e'" for e'
    using assms(1) that by (auto simp: read_uint32_def dest: read_aligned_no_ub)
  show ?thesis
    using assms(2) ub
    by (auto simp: read_string_def rbind_eq_Inl_iff mem_read_def moved_def reader_ok_def
        split: if_splits dest!: ok)
qed

lemma rmap_eq_Inr_iff: "rmap f m = Inr (y, r) \<longleftrightarrow> (\<exists>x. m = Inr (x, r) \<and> y = f x)"
  by (auto simp: rmap_def rbind_eq_Inr_iff)

lemma rmap_eq_Inl_iff: "rmap f m = Inl e \<longleftrightarrow> m = Inl e"
  by (auto simp: rmap_def rbind_eq_Inl_iff)

lemma read_val_moved:
  assumes "reader_ok r" "read_val t r = Inr (v, r')"
  shows "moved r r' \<and> r_pos r < r_pos r' \<and> val_type v = t"
  using assms
  by (cases t)
    (auto simp: rmap_eq_Inr_iff scalar_read_defs
      dest!: read_aligned_moved [OF assms(1)] read_string_moved [OF assms(1)])

lemma read_val_no_ub:
  assumes "reader_ok r" "read_val t r = Inl e" "t \<noteq> TBool"
  shows "\<not> is_ub e"
  using assms
  by (cases t) (auto simp: rmap_eq_Inl_iff scalar_read_defs
      dest!: read_aligned_no_ub [OF assms(1)] read_string_no_ub [OF assms(1)])

section \<open>Properties\<close>

text \<open>C4: whatever sequence of scalar and string fields is written, a reader over the payload
  (also when padding bytes follow, as the transport appends them) returns exactly the same
  values in the same order and stops at the end of the message.\<close>

theorem cdr_stream_roundtrip:
  assumes "\<forall>v \<in> set vs. val_fits v"
  shows "\<exists>r. rbind (cdr_reader_of_vector (payload (fold write_val vs cdr_writer_init) @ pad))
      (read_vals (map val_type vs)) = Inr (vs, r) \<and> remaining r = length pad"
proof -
  let ?b = "payload (fold write_val vs cdr_writer_init)"
  obtain ext where ext: "?b = w_buf cdr_writer_init @ ext"
    unfolding payload_def using write_vals_extend by blast
  have "starts_with [0x00, 0x01, 0x00, 0x00] (?b @ pad)"
    unfolding ext by (simp add: cdr_writer_init_def)
  then have "cdr_reader_of_vector (?b @ pad) = Inr (reader_at (?b @ pad) 4)"
    by (rule cdr_reader_of_header)
  moreover have "read_vals (map val_type vs) (reader_at (?b @ pad) 4) =
      Inr (vs, reader_at (?b @ pad) (length ?b))"
    using read_vals_back [OF writer_ok_init assms, of pad] by (simp add: payload_def)
  ultimately show ?thesis by simp
qed

theorem cdr_stream_roundtrip_witness:
  "\<exists>r. rbind (cdr_reader_of_vector
        (payload (fold write_val [VUint8 7, VUint32 258, VString ''ab'', VInt64 (- 1)]
          cdr_writer_init) @ [0, 0]))
      (read_vals [TUint8, TUint32, TString, TInt64]) =
        Inr ([VUint8 7, VUint32 258, VString ''ab'', VInt64 (- 1)], r) \<and> remaining r = 2"
proof -
  have "\<forall>v \<in> set [VUint8 7, VUint32 258, VString ''ab'', VInt64 (- 1)]. val_fits v"
    by (simp add: string_fits_def)
  from cdr_stream_roundtrip [OF this, of "[0, 0]"] show ?thesis
    by (simp only: list.map val_type.simps) (simp add: numeral_2_eq_2)
qed

text \<open>C3: on every well-formed reader, whatever the bytes are, reading a field either moves the
  reader forward inside its buffer or throws; no access leaves the buffer.  The only undefined
  behaviour is the one of \<open>read_bool\<close> on a byte that is not 0 or 1.\<close>

theorem cdr_reader_safe:
  assumes "reader_ok r"
  shows "case read_val t r of
      Inr (v, r') \<Rightarrow> moved r r' \<and> r_pos r < r_pos r' \<and> val_type v = t
    | Inl e \<Rightarrow> is_ub e \<longrightarrow> t = TBool"
  by (auto split: sum.split prod.split
      dest: read_val_moved [OF assms] read_val_no_ub [OF assms])

theorem cdr_reader_safe_witness:
  "reader_ok (reader_at [0, 1, 0, 0, 9, 0, 0, 0, 65] 4) \<and>
   (case read_val TString (reader_at [0, 1, 0, 0, 9, 0, 0, 0, 65] 4) of
      Inr (v, r') \<Rightarrow> moved (reader_at [0, 1, 0, 0, 9, 0, 0, 0, 65] 4) r' \<and> 4 < r_pos r' \<and>
        val_type v = TString
    | Inl e \<Rightarrow> is_ub e \<longrightarrow> TString = TBool)"
proof -
  have ok: "reader_ok (reader_at [0, 1, 0, 0, 9, 0, 0, 0, 65] 4)"
    by (simp add: reader_ok_def)
  with cdr_reader_safe [OF ok, of TString] show ?thesis by (simp only: reader_at_simps)
qed

text \<open>\<open>read_bool\<close> on a well-formed reader: at the end of the buffer it throws, on the bytes 0
  and 1 it returns the value, and on every other byte the resulting \<^verbatim>\<open>bool\<close> object has no valid
  value (undefined behaviour reachable from the wire).\<close>

theorem read_bool_behaviour:
  assumes "reader_ok r"
  shows "read_bool r =
    (if r_pos r = r_size r then Inl (InvalidArguments ''CDR read past end of buffer'')
     else if r_buf r ! r_pos r = 0 then Inr (False, r\<lparr>r_pos := r_pos r + 1\<rparr>)
     else if r_buf r ! r_pos r = 1 then Inr (True, r\<lparr>r_pos := r_pos r + 1\<rparr>)
     else Inl (UndefinedBehaviour ''bool object with a value other than 0 and 1''))"
proof -
  have al: "r_align_to 1 r = Inr r"
    using assms by (simp add: r_align_to_def align_pad_def reader_ok_def)
  show ?thesis
  proof (cases "r_pos r = r_size r")
    case True
    then show ?thesis using al by (simp add: read_bool_def read_aligned_def read_bytes_def)
  next
    case False
    with assms have "r_pos r < r_size r" "r_pos r < length (r_buf r)" by (auto simp: reader_ok_def)
    then have "read_bytes 1 r = Inr ([r_buf r ! r_pos r], r\<lparr>r_pos := r_pos r + 1\<rparr>)"
      by (simp add: read_bytes_def mem_read_def take_Suc hd_drop_conv_nth)
    with al False show ?thesis
      by (simp add: read_bool_def read_aligned_def bool_of_bytes_def)
  qed
qed

theorem read_bool_behaviour_witness:
  "read_bool (reader_at [0, 1, 0, 0, 2] 4) =
     Inl (UndefinedBehaviour ''bool object with a value other than 0 and 1'')"
proof -
  have ok: "reader_ok (reader_at [0, 1, 0, 0, 2] 4)" by (simp add: reader_ok_def)
  show ?thesis using read_bool_behaviour [OF ok] by simp
qed

text \<open>A string sequence written by \<open>write_string_sequence\<close> is read back unchanged, and the
  reader stops at its end, whatever bytes follow.\<close>

theorem string_sequence_roundtrip:
  assumes "length ss < 2 ^ 32" and "\<forall>s \<in> set ss. string_fits s"
  shows "rbind (cdr_reader_of_vector (payload (write_string_sequence ss cdr_writer_init) @ rest))
      read_string_sequence =
    Inr (Some ss, reader_at (payload (write_string_sequence ss cdr_writer_init) @ rest)
      (length (payload (write_string_sequence ss cdr_writer_init))))"
  using assms by (intro string_seq_codec.deser_payload) auto

theorem string_sequence_roundtrip_witness:
  "rbind (cdr_reader_of_vector
      (payload (write_string_sequence [''a'', '''', ''bc''] cdr_writer_init) @ []))
      read_string_sequence =
    Inr (Some [''a'', '''', ''bc''],
      reader_at (payload (write_string_sequence [''a'', '''', ''bc''] cdr_writer_init) @ [])
      (length (payload (write_string_sequence [''a'', '''', ''bc''] cdr_writer_init))))"
  by (rule string_sequence_roundtrip) (simp_all add: string_fits_def)

lemma read_elems_length:
  "read_elems d n v r = Inr (Some v', r') \<Longrightarrow> length v' = length v + n"
proof (induction d n v r rule: read_elems.induct)
  case (2 d n v r)
  then show ?case by (auto simp: rbind_eq_Inr_iff split: option.splits)
qed simp



text \<open>Every scalar is stored at an offset, counted from the first byte after the
  encapsulation header, that is a multiple of its size, after fewer than that many zero bytes.\<close>

theorem write_aligned_placement:
  assumes "writer_ok w" and "0 < n"
  shows "\<exists>k. w_buf (write_aligned d n w) = w_buf w @ replicate k 0 @ d \<and> k < n \<and>
    n dvd length (w_buf w @ replicate k (0 :: byte)) - 4"
proof -
  let ?k = "align_pad (w_payload_offset w) n"
  have "n dvd w_payload_offset w + ?k" using assms(2) by (rule align_pad_dvd)
  moreover have "length (w_buf w @ replicate ?k (0 :: byte)) - 4 = w_payload_offset w + ?k"
    using writer_ok_length [OF assms(1)] by (simp add: w_payload_offset_def)
  ultimately show ?thesis
    using align_pad_less [OF assms(2)] w_buf_write_aligned by metis
qed

theorem write_aligned_placement_witness:
  "\<exists>k. w_buf (write_aligned (le_bytes 8 5) 8 (write_uint8 1 cdr_writer_init)) =
      w_buf (write_uint8 1 cdr_writer_init) @ replicate k 0 @ le_bytes 8 5 \<and> k < 8 \<and>
    8 dvd length (w_buf (write_uint8 1 cdr_writer_init) @ replicate k (0 :: byte)) - 4"
  by (rule write_aligned_placement) (simp_all add: write_uint8_def)

end
