(* ===== verification/Raw_Serdata.thy ===== *)
theory Raw_Serdata
  imports Cdr
begin

text \<open>
  The opaque-CDR serdata hooks of \<^verbatim>\<open>dds/raw_serdata.cpp\<close>: how a payload enters a \<^verbatim>\<open>RawSerdata\<close> (from
  a local blob, from an iovec, from a chain of received network fragments), and how it leaves it.

  A \<^verbatim>\<open>RawSerdata\<close> is its payload vector; the \<^verbatim>\<open>ddsi_serdata\<close> base object belongs to CycloneDDS.
  \<open>alloc\<close> says whether the allocation of the object succeeded (\<^verbatim>\<open>new (std::nothrow)\<close> and the
  resize); \<open>None\<close> is the null pointer.  A \<^verbatim>\<open>memcpy\<close> outside its source or target block is
  \<open>UndefinedBehaviour\<close>.
\<close>

section \<open>Payload buffers\<close>

definition mem_write :: "byte list \<Rightarrow> nat \<Rightarrow> byte list \<Rightarrow> byte list result" where
  "mem_write m off bs =
     (if off + length bs \<le> length m then Inr (take off m @ bs @ drop (off + length bs) m)
      else Inl (UndefinedBehaviour ''write out of bounds''))"

text \<open>\<^verbatim>\<open>(0u - static_cast<unsigned int>(requested)) % 4u\<close>, in 32-bit unsigned arithmetic.\<close>

definition raw_pad :: "nat \<Rightarrow> nat" where
  "raw_pad requested = unat ((0 - word_of_nat requested :: 32 word) mod 4)"

definition padded :: "byte list \<Rightarrow> byte list" where
  "padded pl = pl @ replicate (raw_pad (length pl)) 0"

definition raw_resize :: "nat \<Rightarrow> byte list" where
  "raw_resize requested = replicate (requested + raw_pad requested) 0"

record fragment =
  f_min :: "32 word"
  f_maxp1 :: "32 word"
  f_payload :: "byte list"

fun from_ser_loop :: "fragment list \<Rightarrow> 32 word \<Rightarrow> nat \<Rightarrow> byte list \<Rightarrow> byte list result" where
  "from_ser_loop [] off cursor d = Inr d"
| "from_ser_loop (f # fs) off cursor d =
     (if f_maxp1 f > off then
        (if unat off < unat (f_min f) then Inl (UndefinedBehaviour ''read before the fragment'')
         else
           let n_bytes = unat (f_maxp1 f - off) in
           rbind (mem_read (f_payload f) (unat off - unat (f_min f)) n_bytes) (\<lambda>src.
           rbind (mem_write d cursor src) (\<lambda>d'.
             from_ser_loop fs (f_maxp1 f) (cursor + n_bytes) d')))
      else from_ser_loop fs off cursor d)"

definition raw_from_ser :: "bool \<Rightarrow> fragment list \<Rightarrow> nat \<Rightarrow> byte list option result" where
  "raw_from_ser alloc fragchain sz =
     (if \<not> alloc then Inr None
      else rbind (from_ser_loop fragchain 0 0 (raw_resize sz)) (\<lambda>d. Inr (Some d)))"

fun from_iov_loop :: "byte list list \<Rightarrow> nat \<Rightarrow> byte list \<Rightarrow> byte list result" where
  "from_iov_loop [] cursor d = Inr d"
| "from_iov_loop (v # vs) cursor d =
     rbind (mem_write d cursor v) (\<lambda>d'. from_iov_loop vs (cursor + length v) d')"

definition raw_from_ser_iov :: "bool \<Rightarrow> byte list list \<Rightarrow> nat \<Rightarrow> byte list option result" where
  "raw_from_ser_iov alloc iov sz =
     (if \<not> alloc then Inr None
      else rbind (from_iov_loop iov 0 (raw_resize sz)) (\<lambda>d. Inr (Some d)))"

text \<open>\<open>iov_len_cast\<close> is the conversion to \<^verbatim>\<open>ddsrt_iov_len_t\<close>, a type of CycloneDDS.\<close>

definition raw_serdata_from_blob ::
    "(nat \<Rightarrow> nat) \<Rightarrow> bool \<Rightarrow> byte list \<Rightarrow> nat \<Rightarrow> byte list option result" where
  "raw_serdata_from_blob iov_len_cast alloc blob sz =
     (if iov_len_cast sz \<noteq> sz then Inr None
      else rbind (mem_read blob 0 sz) (\<lambda>bs. raw_from_ser_iov alloc [bs] sz))"

definition raw_size :: "byte list \<Rightarrow> 32 word" where
  "raw_size d = word_of_nat (length d)"

definition raw_to_ser :: "byte list \<Rightarrow> nat \<Rightarrow> nat \<Rightarrow> byte list result" where
  "raw_to_ser d off sz = mem_read d off sz"

definition raw_eqkey :: "byte list \<Rightarrow> byte list \<Rightarrow> bool" where
  "raw_eqkey a b = True"

definition raw_print :: "byte list \<Rightarrow> nat \<Rightarrow> string \<times> nat" where
  "raw_print d sz =
     (let txt = ''[opq '' @ show_nat (length d) @ '' b]''; n = length txt
      in (take (sz - 1) txt, if n < sz then n else sz))"

definition raw_serdata_payload :: "byte list \<Rightarrow> byte list" where
  "raw_serdata_payload d = d"

definition raw_serdata_payload_size :: "byte list \<Rightarrow> nat" where
  "raw_serdata_payload_size d = length d"

definition sertype_raw_equal :: "string \<Rightarrow> string \<Rightarrow> bool" where
  "sertype_raw_equal a b \<longleftrightarrow> a = b"

text \<open>The low half of \<^verbatim>\<open>std::hash\<close>, a parameter.\<close>

definition sertype_raw_hash :: "(string \<Rightarrow> 64 word) \<Rightarrow> string \<Rightarrow> 32 word" where
  "sertype_raw_hash std_hash name = ucast (std_hash name)"

text \<open>Samples of these types have no key and are never handled in deserialized form.\<close>

definition raw_get_keyhash :: "byte list \<Rightarrow> byte list" where
  "raw_get_keyhash d = replicate 16 0"

definition raw_from_keyhash :: "byte list \<Rightarrow> byte list option" where
  "raw_from_keyhash keyhash = None"

definition raw_from_sample :: "'a \<Rightarrow> byte list option" where
  "raw_from_sample x = None"

definition raw_to_sample :: "byte list \<Rightarrow> 'a \<Rightarrow> bool \<times> 'a" where
  "raw_to_sample d x = (False, x)"

definition raw_untyped_to_sample :: "byte list \<Rightarrow> 'a \<Rightarrow> bool \<times> 'a" where
  "raw_untyped_to_sample d x = (False, x)"

definition sertype_raw_get_serialized_size :: "'a \<Rightarrow> nat" where
  "sertype_raw_get_serialized_size x = 0"

definition sertype_raw_serialize_into :: "'a \<Rightarrow> 'b \<Rightarrow> bool \<times> 'b" where
  "sertype_raw_serialize_into x buf = (False, buf)"


section \<open>Serdata objects\<close>

datatype serdata_kind = SDK_KEY | SDK_DATA

record raw_serdata =
  sd_type :: "string option"
  sd_kind :: serdata_kind
  sd_payload :: "byte list"

text \<open>The objects in memory by address; a freed one is \<open>None\<close>.  Counting the references, and calling
  \<^verbatim>\<open>raw_free\<close> when the last one goes, is the business of CycloneDDS: \<open>ref\<close> and \<open>unref\<close> are parameters.\<close>

type_synonym serdata_heap = "raw_serdata option list"

record iovec =
  iv_object :: nat
  iv_offset :: nat
  iv_len :: nat

definition raw_to_ser_ref :: "(nat \<Rightarrow> nat) \<Rightarrow> (nat \<Rightarrow> 's \<Rightarrow> 's) \<Rightarrow> nat \<Rightarrow> nat \<Rightarrow> nat \<Rightarrow> 's \<Rightarrow> iovec \<times> 's" where
  "raw_to_ser_ref iov_len_cast ref a off sz s =
     (\<lparr>iv_object = a, iv_offset = off, iv_len = iov_len_cast sz\<rparr>, ref a s)"

definition raw_to_ser_unref :: "(nat \<Rightarrow> 's \<Rightarrow> 's) \<Rightarrow> iovec \<Rightarrow> 's \<Rightarrow> 's" where
  "raw_to_ser_unref unref iov s = unref (iv_object iov) s"

definition raw_free :: "nat \<Rightarrow> serdata_heap \<Rightarrow> serdata_heap" where
  "raw_free a m = m[a := None]"

text \<open>A key-only copy without a type and without payload; \<open>None\<close> when out of memory.\<close>

definition raw_to_untyped :: "bool \<Rightarrow> serdata_heap \<Rightarrow> (nat option \<times> serdata_heap)" where
  "raw_to_untyped alloc m =
     (if \<not> alloc then (None, m)
      else (Some (length m), m @ [Some \<lparr>sd_type = None, sd_kind = SDK_KEY, sd_payload = []\<rparr>]))"

text \<open>What the network code reads through the vector.\<close>

definition iov_read :: "serdata_heap \<Rightarrow> iovec \<Rightarrow> byte list result" where
  "iov_read m iov =
     (if iv_object iov < length m then
        (case m ! iv_object iov of
           None \<Rightarrow> Inl (UndefinedBehaviour ''read of a freed serdata'')
         | Some d \<Rightarrow> mem_read (sd_payload d) (iv_offset iov) (iv_len iov))
      else Inl (UndefinedBehaviour ''read outside the heap''))"

record sertype =
  st_type_name :: string
  st_no_key :: bool
  st_xcdr1_only :: bool

definition create_raw_sertype :: "bool \<Rightarrow> string \<Rightarrow> sertype option" where
  "create_raw_sertype alloc type_name =
     (if \<not> alloc then None
      else Some \<lparr>st_type_name = type_name, st_no_key = True, st_xcdr1_only = True\<rparr>)"


section \<open>Padding\<close>

lemma int_raw_pad: "int (raw_pad n) = (- int n) mod 4"
proof -
  have "int (raw_pad n) = uint ((0 - word_of_nat n :: 32 word) mod 4)"
    by (simp add: raw_pad_def)
  also have "\<dots> = uint (0 - word_of_nat n :: 32 word) mod 4" by (simp add: uint_mod)
  also have "uint (0 - word_of_nat n :: 32 word) = (- int n) mod 2 ^ 32"
    by (simp add: uint_word_ariths unsigned_of_nat take_bit_eq_mod mod_minus_eq zmod_int)
  also have "(- int n) mod 2 ^ 32 mod 4 = (- int n) mod 4"
    by (simp add: mod_mod_cancel)
  finally show ?thesis .
qed

lemma raw_pad_less: "raw_pad n < 4"
proof -
  have "int (raw_pad n) < 4" unfolding int_raw_pad by simp
  then show ?thesis by linarith
qed

lemma raw_pad_dvd: "4 dvd n + raw_pad n"
proof -
  have "(int n + int (raw_pad n)) mod 4 = 0"
    unfolding int_raw_pad by (simp add: mod_simps)
  then have "int 4 dvd int (n + raw_pad n)" by (simp add: mod_0_imp_dvd)
  then show ?thesis by (simp only: int_dvd_int_iff)
qed


section \<open>Filling the buffer\<close>

lemma mem_write_at:
  "mem_write (a @ b @ c) (length a) bs = Inr (a @ bs @ c)" if "length bs = length b"
  using that by (simp add: mem_write_def)

lemma mem_write_zeros:
  assumes "length bs \<le> k"
  shows "mem_write (a @ replicate k 0) (length a) bs =
    Inr ((a @ bs) @ replicate (k - length bs) 0)"
  using assms by (simp add: mem_write_def)

lemma from_iov_loop_back:
  assumes "length (concat vs) \<le> k"
  shows "from_iov_loop vs (length a) (a @ replicate k 0) =
    Inr (a @ concat vs @ replicate (k - length (concat vs)) 0)"
  using assms
proof (induction vs arbitrary: a k)
  case (Cons v vs)
  from Cons.prems have v: "length v \<le> k" and vs: "length (concat vs) \<le> k - length v" by simp_all
  show ?case
    using mem_write_zeros [OF v, of a] Cons.IH [OF vs, of "a @ v"] by (simp add: add.commute)
qed simp

lemma raw_from_ser_iov_eq:
  assumes "length (concat vs) = n"
  shows "raw_from_ser_iov True vs n = Inr (Some (concat vs @ replicate (raw_pad n) 0))"
  using from_iov_loop_back [of vs "n + raw_pad n" "[]"] assms
  by (simp add: raw_from_ser_iov_def raw_resize_def)

text \<open>
  \<open>chain_of data off fs\<close>: the fragments \<open>fs\<close> carry the bytes of \<open>data\<close> from \<open>off\<close> to its end, each
  covering \<open>[min, maxp1)\<close>, without a gap (they may overlap).  This is what CycloneDDS' reassembly
  hands to \<^verbatim>\<open>from_ser\<close>.
\<close>

fun chain_of :: "byte list \<Rightarrow> nat \<Rightarrow> fragment list \<Rightarrow> bool" where
  "chain_of data off [] \<longleftrightarrow> off = length data"
| "chain_of data off (f # fs) \<longleftrightarrow>
     unat (f_min f) \<le> off \<and> unat (f_min f) \<le> unat (f_maxp1 f) \<and>
     unat (f_maxp1 f) \<le> length data \<and>
     f_payload f = take (unat (f_maxp1 f) - unat (f_min f)) (drop (unat (f_min f)) data) \<and>
     chain_of data (max off (unat (f_maxp1 f))) fs"

lemma unat_diff_word: "(b :: 32 word) < a \<Longrightarrow> unat (a - b) = unat a - unat b"
  by (rule unat_sub) simp

lemma fragment_bytes:
  assumes "m \<le> off" "off \<le> e" "e \<le> length data"
  shows "mem_read (take (e - m) (drop m data)) (off - m) (e - off) = Inr (take (e - off) (drop off data))"
proof -
  have len: "length (take (e - m) (drop m data)) = e - m" using assms by simp
  have "take (e - off) (drop (off - m) (take (e - m) (drop m data))) = take (e - off) (drop off data)"
    using assms by (simp add: drop_take min_def)
  then show ?thesis using assms len by (simp add: mem_read_def)
qed

lemma from_ser_loop_back:
  assumes "chain_of data (unat off) fs" "unat off \<le> length data"
  shows "from_ser_loop fs off (unat off)
      (take (unat off) data @ replicate (length data - unat off + p) 0) =
    Inr (data @ replicate p 0)"
  using assms
proof (induction fs arbitrary: off)
  case (Cons f fs)
  let ?o = "unat off" and ?m = "unat (f_min f)" and ?e = "unat (f_maxp1 f)"
  show ?case
  proof (cases "f_maxp1 f > off")
    case False
    then have "max ?o ?e = ?o" by (simp add: word_less_nat_alt not_less max_def)
    with False Cons show ?thesis by simp
  next
    case True
    then have oe: "?o < ?e" by (simp add: word_less_nat_alt)
    then have mx: "max ?o ?e = ?e" by simp
    have n: "unat (f_maxp1 f - off) = ?e - ?o" using True by (rule unat_diff_word)
    from Cons.prems have f: "?m \<le> ?o" "?e \<le> length data"
        "f_payload f = take (?e - ?m) (drop ?m data)" "chain_of data ?e fs"
      using mx by simp_all
    let ?src = "take (?e - ?o) (drop ?o data)"
    have rd: "mem_read (f_payload f) (?o - ?m) (?e - ?o) = Inr ?src"
      unfolding f(3) using f(1,2) oe by (intro fragment_bytes) simp_all
    have tk: "take ?o data @ ?src = take ?e data"
      using oe by (metis le_add_diff_inverse less_imp_le take_add)
    have ln: "length ?src = ?e - ?o" using f(2) by simp
    have "mem_write (take ?o data @ replicate (length data - ?o + p) 0) (length (take ?o data)) ?src =
        Inr ((take ?o data @ ?src) @ replicate (length data - ?o + p - length ?src) 0)"
      using f(2) oe by (intro mem_write_zeros) simp
    then have wr: "mem_write (take ?o data @ replicate (length data - ?o + p) 0) ?o ?src =
        Inr (take ?e data @ replicate (length data - ?e + p) 0)"
      unfolding tk ln using Cons.prems(2) f(2) oe by simp
    from Cons.IH [OF f(4) f(2)] show ?thesis
      using True f(1) oe by (simp add: n rd wr Let_def)
  qed
qed simp

lemma raw_from_ser_eq:
  assumes "chain_of data 0 fs"
  shows "raw_from_ser True fs (length data) = Inr (Some (data @ replicate (raw_pad (length data)) 0))"
  using from_ser_loop_back [of data 0 fs "raw_pad (length data)"] assms
  by (simp add: raw_from_ser_def raw_resize_def)


section \<open>Properties\<close>

text \<open>A payload wrapped by \<open>raw_serdata_from_blob\<close> is stored unchanged, followed by fewer than
  four zero bytes that make the size a multiple of four, and \<open>raw_to_ser\<close> returns it; no copy
  leaves its block.\<close>

theorem raw_blob_roundtrip:
  assumes "iov_len_cast (length blob) = length blob"
  shows "\<exists>d. raw_serdata_from_blob iov_len_cast True blob (length blob) = Inr (Some d) \<and>
    d = blob @ replicate (raw_pad (length blob)) 0 \<and> raw_pad (length blob) < 4 \<and>
    4 dvd raw_serdata_payload_size d \<and> raw_to_ser d 0 (length blob) = Inr blob"
proof -
  let ?d = "blob @ replicate (raw_pad (length blob)) 0"
  have "raw_serdata_from_blob iov_len_cast True blob (length blob) = Inr (Some ?d)"
    using raw_from_ser_iov_eq [of "[blob]"] assms
    by (simp add: raw_serdata_from_blob_def mem_read_def)
  moreover have "4 dvd raw_serdata_payload_size ?d"
    using raw_pad_dvd by (simp add: raw_serdata_payload_size_def)
  moreover have "raw_to_ser ?d 0 (length blob) = Inr blob"
    by (simp add: raw_to_ser_def mem_read_def)
  ultimately show ?thesis using raw_pad_less by blast
qed

theorem raw_blob_roundtrip_witness:
  "\<exists>d. raw_serdata_from_blob id True [0, 1, 0, 0, 7] (length [0, 1, 0, 0, 7 :: byte]) = Inr (Some d) \<and>
    d = [0, 1, 0, 0, 7] @ replicate (raw_pad (length [0, 1, 0, 0, 7 :: byte])) 0 \<and>
    raw_pad (length [0, 1, 0, 0, 7 :: byte]) < 4 \<and>
    4 dvd raw_serdata_payload_size d \<and>
    raw_to_ser d 0 (length [0, 1, 0, 0, 7 :: byte]) = Inr [0, 1, 0, 0, 7]"
  by (rule raw_blob_roundtrip) simp

text \<open>The zero-copy path equals the copying one: a vector made by \<open>raw_to_ser_ref\<close> yields the bytes that
  \<open>raw_to_ser\<close> copies, whatever other objects are created or freed meanwhile, until the object itself is
  freed; types that compare equal have equal hashes, and so have the keys.\<close>

theorem raw_zero_copy:
  assumes "iov_len_cast sz = sz" "a < length m" "m ! a = Some d" "b \<noteq> a"
  shows "iov_read (snd (raw_to_untyped alloc (raw_free b m))) (fst (raw_to_ser_ref iov_len_cast ref a off sz s)) =
      raw_to_ser (sd_payload d) off sz \<and>
    is_ub (projl (iov_read (raw_free a m) (fst (raw_to_ser_ref iov_len_cast ref a off sz s)))) \<and>
    (sertype_raw_equal n n' \<longrightarrow> sertype_raw_hash h n = sertype_raw_hash h n') \<and>
    (raw_eqkey x y \<longleftrightarrow> raw_get_keyhash x = raw_get_keyhash y)"
  using assms
  by (simp add: iov_read_def raw_to_ser_ref_def raw_to_untyped_def raw_free_def raw_to_ser_def nth_append
      sertype_raw_equal_def raw_eqkey_def raw_get_keyhash_def)


definition sample_chain :: "fragment list" where
  "sample_chain =
     [\<lparr>f_min = 0, f_maxp1 = 4, f_payload = [0, 1, 0, 0]\<rparr>,
      \<lparr>f_min = 2, f_maxp1 = 6, f_payload = [0, 0, 8, 9]\<rparr>]"


end
