(* ===== verification/Qos.thy ===== *)
theory Qos
  imports Prelude
begin

text \<open>
  Quality of service: the \<^verbatim>\<open>QoS\<close> struct with its setters and presets (\<^verbatim>\<open>rcllite/qos.hpp\<close>), its
  translation to CycloneDDS (\<^verbatim>\<open>make_dds_qos\<close> of \<^verbatim>\<open>dds/entities.cpp\<close>) and the FFI constructor
  \<^verbatim>\<open>qos_from_args\<close>.  \<^verbatim>\<open>depth\<close> is a 64-bit \<^verbatim>\<open>size_t\<close>; the translation casts it to \<^verbatim>\<open>int32_t\<close>.
  A \<^verbatim>\<open>dds_qos_t\<close> is the record of the settings applied to it by the \<^verbatim>\<open>dds_qset_*\<close> calls.
\<close>

datatype reliability = BestEffort | Reliable
datatype durability = Volatile | TransientLocal
datatype history = KeepLast | KeepAll

record qos =
  q_reliability :: reliability
  q_durability :: durability
  q_history :: history
  q_depth :: "64 word"

definition qos_init :: qos where
  "qos_init = \<lparr>q_reliability = Reliable, q_durability = Volatile, q_history = KeepLast, q_depth = 10\<rparr>"

definition set_best_effort :: "qos \<Rightarrow> qos" where
  "set_best_effort q = q\<lparr>q_reliability := BestEffort\<rparr>"

definition set_transient_local :: "qos \<Rightarrow> qos" where
  "set_transient_local q = q\<lparr>q_durability := TransientLocal\<rparr>"

definition keep_last :: "64 word \<Rightarrow> qos \<Rightarrow> qos" where
  "keep_last d q = q\<lparr>q_history := KeepLast, q_depth := d\<rparr>"

definition qos_Default :: qos where "qos_Default = qos_init"

definition qos_SensorData :: qos where
  "qos_SensorData = keep_last 5 (set_best_effort qos_init)"

definition qos_Parameters :: qos where
  "qos_Parameters = keep_last 10 qos_init"

definition qos_ParameterEvents :: qos where
  "qos_ParameterEvents = keep_last 1000 (set_transient_local qos_init)"

definition qos_Services :: qos where
  "qos_Services = keep_last 10 qos_init"


section \<open>Translation to CycloneDDS\<close>

datatype dds_history = DDS_HISTORY_KEEP_LAST | DDS_HISTORY_KEEP_ALL
datatype dds_reliability = DDS_RELIABILITY_BEST_EFFORT | DDS_RELIABILITY_RELIABLE
datatype dds_durability = DDS_DURABILITY_VOLATILE | DDS_DURABILITY_TRANSIENT_LOCAL
datatype dds_duration = DDS_INFINITY | Nanoseconds int

record dds_qos =
  dq_history :: "dds_history \<times> 32 word"
  dq_reliability :: "dds_reliability \<times> dds_duration"
  dq_durability :: dds_durability
  dq_deadline :: dds_duration

text \<open>\<open>created\<close>: whether \<^verbatim>\<open>dds_create_qos\<close> returned an object.\<close>

definition base_dds_qos :: "bool \<Rightarrow> unit result" where
  "base_dds_qos created = (if \<not> created then Inl (InternalError ''dds_create_qos failed'') else Inr ())"

definition make_dds_qos :: "bool \<Rightarrow> qos \<Rightarrow> dds_qos result" where
  "make_dds_qos created q =
     rbind (base_dds_qos created) (\<lambda>_.
       Inr \<lparr>dq_history =
              (if q_history q = KeepAll then DDS_HISTORY_KEEP_ALL else DDS_HISTORY_KEEP_LAST,
               ucast (q_depth q)),
            dq_reliability =
              (if q_reliability q = Reliable then DDS_RELIABILITY_RELIABLE
               else DDS_RELIABILITY_BEST_EFFORT, DDS_INFINITY),
            dq_durability =
              (if q_durability q = TransientLocal then DDS_DURABILITY_TRANSIENT_LOCAL
               else DDS_DURABILITY_VOLATILE),
            dq_deadline = DDS_INFINITY\<rparr>)"

text \<open>\<^verbatim>\<open>qos_from_args\<close> of the FFI: the signed 64-bit depth is cast to \<^verbatim>\<open>size_t\<close>.\<close>

definition qos_from_args :: "64 word \<Rightarrow> bool \<Rightarrow> bool \<Rightarrow> qos" where
  "qos_from_args depth reliable transient_local =
     (let q = keep_last depth qos_init;
          q = (if \<not> reliable then set_best_effort q else q)
      in if transient_local then set_transient_local q else q)"

lemmas qos_defs =
  qos_init_def set_best_effort_def set_transient_local_def keep_last_def qos_Default_def
  qos_SensorData_def qos_Parameters_def qos_ParameterEvents_def qos_Services_def


section \<open>Properties\<close>

lemma sint_ucast_32:
  fixes d :: "64 word"
  shows "sint (ucast d :: 32 word) = signed_take_bit 31 (uint d)"
  by (simp add: signed_ucast_eq)

lemma depth_exact_iff:
  fixes d :: "64 word"
  shows "sint (ucast d :: 32 word) = uint d \<longleftrightarrow> unat d < 2 ^ 31"
proof -
  have "signed_take_bit 31 (uint d) = uint d \<longleftrightarrow> uint d < 2 ^ 31"
    unfolding signed_take_bit_int_eq_self_iff using uint_ge_0 [of d] by linarith
  also have "\<dots> \<longleftrightarrow> unat d < 2 ^ 31"
  proof -
    have "unat d < 2 ^ 31 \<longleftrightarrow> int (unat d) < int (2 ^ 31)" by (simp only: of_nat_less_iff)
    also have "int (unat d) < int (2 ^ 31) \<longleftrightarrow> uint d < 2 ^ 31" by simp
    finally show ?thesis by simp
  qed
  finally show ?thesis by (simp add: sint_ucast_32)
qed

text \<open>The translation never confuses two profiles (with equal DDS settings the reliability,
  durability and history agree), and the depth that reaches DDS is the requested one exactly when
  it is below 2^31; above that the cast to \<^verbatim>\<open>int32_t\<close> changes it.\<close>

theorem make_dds_qos_faithful:
  assumes "make_dds_qos created q = Inr d"
  shows "(\<forall>q'. make_dds_qos created q' = Inr d \<longrightarrow>
      q_reliability q' = q_reliability q \<and> q_durability q' = q_durability q \<and>
      q_history q' = q_history q) \<and>
    (sint (snd (dq_history d)) = uint (q_depth q) \<longleftrightarrow> unat (q_depth q) < 2 ^ 31)"
proof (intro conjI allI impI)
  fix q'
  assume eq: "make_dds_qos created q' = Inr d"
  show "q_reliability q' = q_reliability q" "q_durability q' = q_durability q"
      "q_history q' = q_history q"
    using assms eq
    by (cases "q_reliability q"; cases "q_reliability q'"; cases "q_durability q";
        cases "q_durability q'"; cases "q_history q"; cases "q_history q'";
        auto simp: make_dds_qos_def base_dds_qos_def split: if_splits)+
next
  have "snd (dq_history d) = ucast (q_depth q)"
    using assms by (auto simp: make_dds_qos_def base_dds_qos_def split: if_splits)
  then show "sint (snd (dq_history d)) = uint (q_depth q) \<longleftrightarrow> unat (q_depth q) < 2 ^ 31"
    by (simp only: depth_exact_iff)
qed

theorem make_dds_qos_faithful_witness:
  "\<exists>d. make_dds_qos True (keep_last 4294967296 qos_init) = Inr d \<and>
     sint (snd (dq_history d)) \<noteq> uint (q_depth (keep_last 4294967296 qos_init))"
proof -
  obtain d where d: "make_dds_qos True (keep_last 4294967296 qos_init) = Inr d"
    by (simp add: make_dds_qos_def base_dds_qos_def)
  have "\<not> unat (q_depth (keep_last 4294967296 qos_init)) < 2 ^ 31" by (simp add: qos_defs)
  with make_dds_qos_faithful [OF d] d show ?thesis by blast
qed

end
