(* ===== verification/Dds_Entities.thy ===== *)
theory Dds_Entities
  imports Raw_Serdata Qos
begin

text \<open>
  The DDS abstraction layer, \<^verbatim>\<open>dds/entities.hpp\<close> and \<^verbatim>\<open>dds/entities.cpp\<close>: the process-wide context
  and its configuration, the CycloneDDS configuration documents, the RAII wrappers
  \<^verbatim>\<open>Participant\<close>, \<^verbatim>\<open>Writer\<close>, \<^verbatim>\<open>Reader\<close> and \<^verbatim>\<open>GuardCondition\<close>, and the take loop every dispatch uses.

  CycloneDDS itself is a parameter: the return values of its calls are arguments, and the wrappers
  record the entity handles they create and delete.  \<^verbatim>\<open>dds_takecdr\<close> is a function argument.
\<close>

section \<open>Environment\<close>

type_synonym env = "string \<Rightarrow> string option"

definition is_space :: "char \<Rightarrow> bool" where
  "is_space c \<longleftrightarrow> c \<in> {CHR '' '', CHR 0x09, CHR 0x0A, CHR 0x0B, CHR 0x0C, CHR 0x0D}"

definition is_digit :: "char \<Rightarrow> bool" where
  "is_digit c \<longleftrightarrow> 48 \<le> (of_char c :: nat) \<and> (of_char c :: nat) \<le> 57"

text \<open>\<^verbatim>\<open>std::strtol(s, nullptr, 10)\<close> with a 64-bit \<^verbatim>\<open>long\<close>: 0 when there are no digits, saturating.\<close>

definition strtol10 :: "string \<Rightarrow> int" where
  "strtol10 s =
     (let s1 = dropWhile is_space s;
          neg = (s1 \<noteq> [] \<and> hd s1 = CHR ''-'');
          s2 = (if s1 \<noteq> [] \<and> (hd s1 = CHR ''-'' \<or> hd s1 = CHR ''+'') then tl s1 else s1);
          v = int (read_nat (takeWhile is_digit s2));
          r = (if neg then - v else v)
      in max (- (2 ^ 63)) (min (2 ^ 63 - 1) r))"

definition env_domain_id :: "env \<Rightarrow> 32 word" where
  "env_domain_id env =
     (case env ''ROS_DOMAIN_ID'' of
        None \<Rightarrow> 0
      | Some s \<Rightarrow>
          if s = [] then 0
          else let v = strtol10 s in if v < 0 \<or> v > 232 then 0 else word_of_int v)"

definition env_localhost_only :: "env \<Rightarrow> bool" where
  "env_localhost_only env =
     (case env ''ROS_LOCALHOST_ONLY'' of
        None \<Rightarrow> False
      | Some s \<Rightarrow> s = ''1'' \<or> s = ''true'')"


section \<open>Context\<close>

record dds_context =
  c_domain_id :: "32 word"
  c_localhost_only :: bool
  c_config_xml :: string

record dds_config_overrides =
  o_domain_id :: "32 word option"
  o_config_xml :: string

record ctx_globals =
  g_ctx :: "dds_context option"
  g_cfg :: "dds_config_overrides option"

definition ctx_globals_init :: ctx_globals where
  "ctx_globals_init = \<lparr>g_ctx = None, g_cfg = None\<rparr>"

definition context_ctor :: "env \<Rightarrow> dds_config_overrides option \<Rightarrow> dds_context" where
  "context_ctor env cfg =
     (let c = \<lparr>c_domain_id = env_domain_id env, c_localhost_only = env_localhost_only env,
               c_config_xml = []\<rparr>
      in case cfg of
           None \<Rightarrow> c
         | Some o1 \<Rightarrow>
             (case o_domain_id o1 of None \<Rightarrow> c | Some d \<Rightarrow> c\<lparr>c_domain_id := d\<rparr>)
               \<lparr>c_config_xml := o_config_xml o1\<rparr>)"

text \<open>\<^verbatim>\<open>std::call_once\<close>: the context is built by the first call only.\<close>

definition context_instance :: "env \<Rightarrow> ctx_globals \<Rightarrow> dds_context \<times> ctx_globals" where
  "context_instance env g =
     (case g_ctx g of
        Some c \<Rightarrow> (c, g)
      | None \<Rightarrow> let c = context_ctor env (g_cfg g) in (c, g\<lparr>g_ctx := Some c\<rparr>))"

definition context_configure :: "32 word option \<Rightarrow> string \<Rightarrow> (ctx_globals, unit) eff" where
  "context_configure domain_id config_xml g =
     (if g_ctx g \<noteq> None then
        (Inl (InvalidArguments
          ''Context::configure must run before the first node creates the context''), g)
      else (Inr (), g\<lparr>g_cfg := Some \<lparr>o_domain_id = domain_id, o_config_xml = config_xml\<rparr>\<rparr>))"


section \<open>Configuration documents\<close>

definition quoted :: "string \<Rightarrow> string" where
  "quoted s = [CHR 0x22] @ s @ [CHR 0x22]"

definition default_config_xml :: "env \<Rightarrow> bool \<Rightarrow> string" where
  "default_config_xml env localhost_only =
     (if env ''CYCLONEDDS_URI'' \<noteq> None then []
      else if \<not> localhost_only then []
      else ''<CycloneDDS><Domain>'' @
           ''<General><AllowMulticast>false</AllowMulticast></General>'' @
           ''<Discovery>'' @
           ''<ParticipantIndex>auto</ParticipantIndex>'' @
           ''<MaxAutoParticipantIndex>32</MaxAutoParticipantIndex>'' @
           ''<Peers><Peer address='' @ quoted ''localhost'' @ ''/></Peers>'' @
           ''</Discovery></Domain></CycloneDDS>'')"

definition tcp_peer :: "string \<Rightarrow> string" where
  "tcp_peer peer = ''<Peer Address='' @ quoted peer @ ''/>''"

definition tcp_peer_list :: "16 word \<Rightarrow> string list \<Rightarrow> string \<Rightarrow> string list" where
  "tcp_peer_list port peers iface =
     (if peers = [] then
        [(if iface = [] then ''127.0.0.1'' else iface) @ '':'' @ show_nat (unat port)]
      else peers)"

definition tcp_config_xml :: "16 word \<Rightarrow> string list \<Rightarrow> string \<Rightarrow> string" where
  "tcp_config_xml port peers iface =
     ''<CycloneDDS xmlns='' @ quoted ''https://cdds.io/config'' @ ''><Domain>'' @
     ''<General><Transport>tcp</Transport><AllowMulticast>false</AllowMulticast>'' @
     (if iface \<noteq> [] then
        ''<Interfaces><NetworkInterface address='' @ quoted iface @ ''/></Interfaces>'' else []) @
     ''</General>'' @
     ''<Discovery><ParticipantIndex>auto</ParticipantIndex><Peers>'' @
     concat (map tcp_peer (tcp_peer_list port peers iface)) @
     ''</Peers></Discovery>'' @
     ''<TCP><Port>'' @ show_nat (unat port) @ ''</Port><NoDelay>true</NoDelay>'' @
     ''<AlwaysUsePeeraddrForUnicast>true</AlwaysUsePeeraddrForUnicast></TCP>'' @
     ''</Domain></CycloneDDS>''"

text \<open>The document \<^verbatim>\<open>Participant::Participant\<close> passes to \<^verbatim>\<open>dds_create_domain\<close> (empty: null pointer).\<close>

definition participant_config :: "env \<Rightarrow> dds_context \<Rightarrow> string" where
  "participant_config env ctx =
     (let cfg0 = default_config_xml env (c_localhost_only ctx);
          extra = c_config_xml ctx;
          cfg1 = (if extra \<noteq> [] then (if cfg0 \<noteq> [] then cfg0 @ '','' else cfg0) @ extra else cfg0)
      in case env ''CYCLONEDDS_URI'' of
           None \<Rightarrow> cfg1
         | Some uri \<Rightarrow> (if cfg1 \<noteq> [] then cfg1 @ '','' else cfg1) @ uri)"


section \<open>Entity wrappers\<close>

type_synonym dds_entity = int

text \<open>The handles a wrapper obtains from and returns to CycloneDDS, in call order.\<close>

datatype dds_call = Created dds_entity | Deleted dds_entity

type_synonym 'a dds = "(dds_call list, 'a) eff"

definition created :: "dds_entity \<Rightarrow> unit dds" where
  "created h = emodify (\<lambda>tr. tr @ [Created h])"

definition deleted :: "dds_entity \<Rightarrow> unit dds" where
  "deleted h = emodify (\<lambda>tr. tr @ [Deleted h])"

definition require :: "bool \<Rightarrow> rcl_error \<Rightarrow> unit dds" where
  "require b e = (if b then ereturn () else ethrow e)"

record participant =
  pp_handle :: dds_entity
  pub_handle :: dds_entity
  sub_handle :: dds_entity

text \<open>What the DDS calls of the constructor return; \<open>precondition_not_met\<close> is the return code
  \<^verbatim>\<open>DDS_RETCODE_PRECONDITION_NOT_MET\<close> (the domain exists already).\<close>

record participant_calls =
  pc_domain :: int
  pc_qos :: bool
  pc_participant :: dds_entity
  pc_publisher :: dds_entity
  pc_subscriber :: dds_entity

definition note_created :: "dds_entity \<Rightarrow> unit dds" where
  "note_created h = (if h < 0 then ereturn () else created h)"

definition participant_ctor :: "int \<Rightarrow> participant_calls \<Rightarrow> participant dds" where
  "participant_ctor precondition_not_met pc =
     ebind (require (\<not> (pc_domain pc < 0 \<and> pc_domain pc \<noteq> precondition_not_met))
              (InternalError (''dds_create_domain failed: '' @ show_int (pc_domain pc)))) (\<lambda>_.
     ebind (elift (base_dds_qos (pc_qos pc))) (\<lambda>_.
     ebind (note_created (pc_participant pc)) (\<lambda>_.
     ebind (require (pc_participant pc \<ge> 0)
              (InternalError (''dds_create_participant failed: '' @ show_int (pc_participant pc)))) (\<lambda>_.
     ebind (note_created (pc_publisher pc)) (\<lambda>_.
     ebind (note_created (pc_subscriber pc)) (\<lambda>_.
     ebind (require (pc_publisher pc \<ge> 0 \<and> pc_subscriber pc \<ge> 0)
              (InternalError ''failed to create pub/sub entities'')) (\<lambda>_.
     ereturn \<lparr>pp_handle = pc_participant pc, pub_handle = pc_publisher pc, sub_handle = pc_subscriber pc\<rparr>)))))))"

definition participant_user_data :: "string \<Rightarrow> string" where
  "participant_user_data enclave = ''enclave='' @ enclave @ '';''"

definition participant_dtor :: "participant \<Rightarrow> unit dds" where
  "participant_dtor p = (if pp_handle p \<ge> 0 then deleted (pp_handle p) else ereturn ())"

record writer =
  wr_handle :: dds_entity

record writer_calls =
  wc_sertype :: bool
  wc_qos :: bool
  wc_topic :: dds_entity
  wc_writer :: dds_entity

definition writer_ctor :: "string \<Rightarrow> string \<Rightarrow> qos \<Rightarrow> writer_calls \<Rightarrow> writer dds" where
  "writer_ctor topic type_name q wc =
     ebind (require (wc_sertype wc) (InternalError (''failed to create sertype for '' @ type_name))) (\<lambda>_.
     ebind (elift (make_dds_qos (wc_qos wc) q)) (\<lambda>_.
     ebind (note_created (wc_topic wc)) (\<lambda>_.
     ebind (require (wc_topic wc \<ge> 0)
              (InternalError (''dds_create_topic_sertype failed for '' @ topic))) (\<lambda>_.
     ebind (note_created (wc_writer wc)) (\<lambda>_.
     ebind (require (wc_writer wc \<ge> 0) (InternalError (''dds_create_writer failed for '' @ topic))) (\<lambda>_.
     ereturn \<lparr>wr_handle = wc_writer wc\<rparr>))))))"

definition writer_dtor :: "writer \<Rightarrow> unit dds" where
  "writer_dtor w = (if wr_handle w \<ge> 0 then deleted (wr_handle w) else ereturn ())"

text \<open>
  What \<^verbatim>\<open>Writer::write\<close> relies on of its surroundings: the conversion to \<^verbatim>\<open>ddsrt_iov_len_t\<close>, whether
  the allocation of the serdata succeeds, and whether \<^verbatim>\<open>dds_writecdr\<close> returns \<^verbatim>\<open>DDS_RETCODE_OK\<close> for
  it.  The state is the sequence of serdata the writer has accepted.
\<close>

record dds_writer_env =
  we_iov_len :: "nat \<Rightarrow> nat"
  we_alloc :: bool
  we_accept :: "byte list \<Rightarrow> bool"

type_synonym wire = "byte list list"

definition writer_write :: "dds_writer_env \<Rightarrow> byte list \<Rightarrow> (wire, bool) eff" where
  "writer_write we pl =
     ebind (elift (raw_serdata_from_blob (we_iov_len we) (we_alloc we) pl (length pl))) (\<lambda>d.
       case d of
         None \<Rightarrow> ereturn False
       | Some b \<Rightarrow>
           if we_accept we b then ebind (emodify (\<lambda>ws. ws @ [b])) (\<lambda>_. ereturn True)
           else ereturn False)"

text \<open>Matched-endpoint counts; \<open>rc\<close> is the return code of the status call.\<close>

definition reader_count :: "int \<Rightarrow> nat \<Rightarrow> nat" where
  "reader_count rc current_count = (if rc < 0 then 0 else current_count)"

definition writer_count :: "int \<Rightarrow> nat \<Rightarrow> nat" where
  "writer_count rc current_count = (if rc < 0 then 0 else current_count)"

record reader =
  rd_handle :: dds_entity
  rc_handle :: dds_entity

record reader_calls =
  rdc_sertype :: bool
  rdc_qos :: bool
  rdc_topic :: dds_entity
  rdc_reader :: dds_entity
  rdc_condition :: dds_entity

definition reader_ctor :: "string \<Rightarrow> string \<Rightarrow> qos \<Rightarrow> reader_calls \<Rightarrow> reader dds" where
  "reader_ctor topic type_name q rc =
     ebind (require (rdc_sertype rc) (InternalError (''failed to create sertype for '' @ type_name))) (\<lambda>_.
     ebind (elift (make_dds_qos (rdc_qos rc) q)) (\<lambda>_.
     ebind (note_created (rdc_topic rc)) (\<lambda>_.
     ebind (require (rdc_topic rc \<ge> 0)
              (InternalError (''dds_create_topic_sertype failed for '' @ topic))) (\<lambda>_.
     ebind (note_created (rdc_reader rc)) (\<lambda>_.
     ebind (require (rdc_reader rc \<ge> 0) (InternalError (''dds_create_reader failed for '' @ topic))) (\<lambda>_.
     ebind (note_created (rdc_condition rc)) (\<lambda>_.
     ebind (require (rdc_condition rc \<ge> 0)
              (InternalError (''dds_create_readcondition failed for '' @ topic))) (\<lambda>_.
     ereturn \<lparr>rd_handle = rdc_reader rc, rc_handle = rdc_condition rc\<rparr>))))))))"

definition reader_dtor :: "reader \<Rightarrow> unit dds" where
  "reader_dtor r =
     ebind (if rc_handle r \<ge> 0 then deleted (rc_handle r) else ereturn ()) (\<lambda>_.
       if rd_handle r \<ge> 0 then deleted (rd_handle r) else ereturn ())"

definition guard_ctor :: "dds_entity \<Rightarrow> dds_entity dds" where
  "guard_ctor gcond =
     ebind (note_created gcond) (\<lambda>_.
     ebind (require (gcond \<ge> 0) (InternalError ''dds_create_guardcondition failed'')) (\<lambda>_.
     ereturn gcond))"

definition guard_dtor :: "dds_entity \<Rightarrow> unit dds" where
  "guard_dtor gcond = (if gcond \<ge> 0 then deleted gcond else ereturn ())"

text \<open>A guard condition is a latch: \<^verbatim>\<open>trigger\<close> sets it, \<^verbatim>\<open>take\<close> reads and clears it.\<close>

definition guard_trigger :: "bool \<Rightarrow> bool" where
  "guard_trigger g = True"

definition guard_take :: "bool \<Rightarrow> bool \<times> bool" where
  "guard_take g = (g, False)"

section \<open>The take loop\<close>

record sample =
  s_valid :: bool
  s_payload :: "byte list"

text \<open>
  The state of a take: the DDS queue \<open>t_queue\<close>, the number of serdata references given back, and
  the state \<open>t_user\<close> of the callback.  \<open>tk\<close> is \<^verbatim>\<open>dds_takecdr\<close>: a negative return code, or the
  samples written to the arrays.
\<close>

record ('q, 'c) take_state =
  t_queue :: 'q
  t_unref :: nat
  t_user :: 'c

type_synonym 'q takecdr = "'q \<Rightarrow> (int + sample list) \<times> 'q"

definition on_user :: "('c, 'a) eff \<Rightarrow> (('q, 'c) take_state, 'a) eff" where
  "on_user f st = (case f (t_user st) of (r, c) \<Rightarrow> (r, st\<lparr>t_user := c\<rparr>))"

definition take_sample ::
    "(byte list \<Rightarrow> ('c, unit) eff) \<Rightarrow> sample \<Rightarrow> (('q, 'c) take_state, unit) eff" where
  "take_sample fn s =
     ebind (if s_valid s then on_user (fn (raw_serdata_payload (s_payload s))) else ereturn ()) (\<lambda>_.
       emodify (\<lambda>st. st\<lparr>t_unref := t_unref st + 1\<rparr>))"

partial_function (option) take_loop ::
    "'q takecdr \<Rightarrow> (byte list \<Rightarrow> ('c, unit) eff) \<Rightarrow> nat \<Rightarrow> ('q, 'c) take_state \<Rightarrow>
     (nat result \<times> ('q, 'c) take_state) option" where
  "take_loop tk fn taken_total st =
     (case tk (t_queue st) of
        (Inl n, q) \<Rightarrow>
          Some (Inl (InternalError (''dds_takecdr failed: '' @ show_int n)), st\<lparr>t_queue := q\<rparr>)
      | (Inr batch, q) \<Rightarrow>
          if length batch > 16 then
            Some (Inl (UndefinedBehaviour ''take arrays overrun''), st\<lparr>t_queue := q\<rparr>)
          else
            (case efor (take_sample fn) batch (st\<lparr>t_queue := q\<rparr>) of
               (Inl e, st') \<Rightarrow> Some (Inl e, st')
             | (Inr _, st') \<Rightarrow>
                 if length batch < 16 then Some (Inr (taken_total + length batch), st')
                 else take_loop tk fn (taken_total + length batch) st'))"

declare take_loop.simps [code]

definition reader_take ::
    "'q takecdr \<Rightarrow> (byte list \<Rightarrow> ('c, unit) eff) \<Rightarrow> 'q \<Rightarrow> 'c \<Rightarrow> (nat result \<times> ('q, 'c) take_state) option" where
  "reader_take tk fn q c = take_loop tk fn 0 \<lparr>t_queue = q, t_unref = 0, t_user = c\<rparr>"

text \<open>
  What \<^verbatim>\<open>dds_takecdr\<close> documents for a reader nobody else takes from: it removes the oldest samples,
  at most as many as the arrays hold.  \<open>qs\<close> reads the samples out of the queue state.
\<close>

definition takes_fifo :: "'q takecdr \<Rightarrow> ('q \<Rightarrow> sample list) \<Rightarrow> bool" where
  "takes_fifo tk qs \<longleftrightarrow>
     (\<forall>q. \<exists>q'. tk q = (Inr (take 16 (qs q)), q') \<and> qs q' = drop 16 (qs q))"

definition valid_payloads :: "sample list \<Rightarrow> byte list list" where
  "valid_payloads xs = map s_payload (filter s_valid xs)"

lemma valid_payloads_simps [simp]:
  "valid_payloads [] = []"
  "valid_payloads (x # xs) =
     (if s_valid x then s_payload x # valid_payloads xs else valid_payloads xs)"
  "valid_payloads (xs @ ys) = valid_payloads xs @ valid_payloads ys"
  by (simp_all add: valid_payloads_def)

lemma take_samples_user:
  "efor (take_sample fn) xs st =
     (case efor fn (valid_payloads xs) (t_user st) of
        (Inr _, c) \<Rightarrow> (Inr (), st\<lparr>t_user := c, t_unref := t_unref st + length xs\<rparr>)
      | (Inl e, c) \<Rightarrow> (Inl e, snd (efor (take_sample fn) xs st)))"
proof (induction xs arbitrary: st)
  case (Cons x xs)
  show ?case
  proof (cases "s_valid x")
    case True
    obtain r c where r: "fn (s_payload x) (t_user st) = (r, c)" by fastforce
    show ?thesis
      using Cons.IH [of "st\<lparr>t_user := c, t_unref := Suc (t_unref st)\<rparr>"] True r
      by (cases r)
        (auto simp: take_sample_def ebind_def on_user_def raw_serdata_payload_def
          split: prod.splits sum.splits)
  next
    case False
    then show ?thesis
      using Cons.IH [of "st\<lparr>t_unref := Suc (t_unref st)\<rparr>"]
      by (auto simp: take_sample_def ebind_def split: prod.splits sum.splits)
  qed
qed simp

lemma take_loop_drains:
  assumes fifo: "takes_fifo tk qs"
    and ok: "efor fn (valid_payloads (qs (t_queue st))) (t_user st) = (Inr (), c)"
  shows "\<exists>q. qs q = [] \<and>
    take_loop tk fn n st =
      Some (Inr (n + length (qs (t_queue st))),
        \<lparr>t_queue = q, t_unref = t_unref st + length (qs (t_queue st)), t_user = c\<rparr>)"
  using ok
proof (induction "length (qs (t_queue st))" arbitrary: st n rule: less_induct)
  case less
  let ?xs = "qs (t_queue st)"
  obtain q' where tk: "tk (t_queue st) = (Inr (take 16 ?xs), q')" and q': "qs q' = drop 16 ?xs"
    using fifo unfolding takes_fifo_def by blast
  have split: "valid_payloads ?xs = valid_payloads (take 16 ?xs) @ valid_payloads (drop 16 ?xs)"
    by (metis append_take_drop_id valid_payloads_simps(3))
  obtain c1 where c1: "efor fn (valid_payloads (take 16 ?xs)) (t_user st) = (Inr (), c1)"
    and c2: "efor fn (valid_payloads (drop 16 ?xs)) c1 = (Inr (), c)"
    using less.prems unfolding split efor_append ebind_eq_Inr_iff by (auto simp: unit_eq)
  let ?st = "\<lparr>t_queue = q', t_unref = t_unref st + length (take 16 ?xs), t_user = c1\<rparr>"
  have batch: "efor (take_sample fn) (take 16 ?xs) (st\<lparr>t_queue := q'\<rparr>) = (Inr (), ?st)"
    by (subst take_samples_user) (simp add: c1)
  show ?case
  proof (cases "length ?xs < 16")
    case True
    then have "qs q' = []" "c = c1" and all: "take 16 ?xs = ?xs" using q' c2 by simp_all
    with True show ?thesis
      by (intro exI [of _ q'])
        (subst take_loop.simps, simp add: tk all batch [unfolded all])
  next
    case False
    then have t16: "length (take 16 ?xs) = 16" by simp
    let ?st = "\<lparr>t_queue = q', t_unref = t_unref st + 16, t_user = c1\<rparr>"
    have len: "length (qs (t_queue ?st)) = length ?xs - 16" using q' by simp
    have smaller: "length (qs (t_queue ?st)) < length ?xs" using len False by linarith
    have "efor fn (valid_payloads (qs (t_queue ?st))) (t_user ?st) = (Inr (), c)"
      using q' c2 by simp
    from less.hyps [OF smaller this, of "n + 16"] obtain q where q: "qs q = []"
      "take_loop tk fn (n + 16) ?st =
         Some (Inr (n + length ?xs),
           \<lparr>t_queue = q, t_unref = t_unref st + length ?xs, t_user = c\<rparr>)"
      unfolding len using False by auto
    have "take_loop tk fn n st = take_loop tk fn (n + 16) ?st"
      by (subst take_loop.simps) (simp only: tk t16 batch prod.case sum.case, simp)
    with q show ?thesis by auto
  qed
qed


definition list_takecdr :: "sample list takecdr" where
  "list_takecdr xs = (Inr (take 16 xs), drop 16 xs)"

definition three_samples :: "sample list" where
  "three_samples =
     [\<lparr>s_valid = True, s_payload = [1, 2]\<rparr>, \<lparr>s_valid = False, s_payload = [9]\<rparr>,
      \<lparr>s_valid = True, s_payload = [3]\<rparr>]"


lemma take_samples_throw:
  assumes "efor fn (valid_payloads ys) (t_user st) = (Inr (), c1)"
    and "s_valid x" "fn (s_payload x) c1 = (Inl e, c2)"
  shows "efor (take_sample fn) (ys @ x # zs) st =
    (Inl e, st\<lparr>t_user := c2, t_unref := t_unref st + length ys\<rparr>)"
proof -
  have "efor (take_sample fn) ys st =
      (Inr (), st\<lparr>t_user := c1, t_unref := t_unref st + length ys\<rparr>)"
    by (subst take_samples_user) (simp add: assms(1))
  then show ?thesis
    using assms(2,3)
    by (simp add: efor_append ebind_def take_sample_def on_user_def raw_serdata_payload_def)
qed

text \<open>A callback that throws aborts the take: the exception propagates, the samples after the
  offending one are neither processed nor put back (the batch has left the queue), and none of
  the references from the offending sample on is released.\<close>

theorem reader_take_throw_drops_batch:
  assumes "tk q = (Inr (ys @ x # zs), q')" "length (ys @ x # zs) \<le> 16"
    and "efor fn (valid_payloads ys) c = (Inr (), c1)"
    and "s_valid x" "fn (s_payload x) c1 = (Inl e, c2)"
  shows "reader_take tk fn q c =
    Some (Inl e, \<lparr>t_queue = q', t_unref = length ys, t_user = c2\<rparr>)"
proof -
  let ?st = "\<lparr>t_queue = q', t_unref = 0, t_user = c\<rparr>"
  have "efor (take_sample fn) (ys @ x # zs) ?st =
      (Inl e, \<lparr>t_queue = q', t_unref = length ys, t_user = c2\<rparr>)"
    using take_samples_throw [of fn ys ?st c1 x e c2 zs] assms(3-5) by simp
  then show ?thesis
    unfolding reader_take_def
    by (subst take_loop.simps) (use assms(1,2) in simp)
qed

theorem reader_take_throw_drops_batch_witness:
  "reader_take list_takecdr (\<lambda>p c. if p = [3] then (Inl (InternalError ''bad''), c) else (Inr (), c @ [p]))
     (three_samples @ three_samples) [] =
     Some (Inl (InternalError ''bad''), \<lparr>t_queue = [], t_unref = 2, t_user = [[1, 2]]\<rparr>)"
  using reader_take_throw_drops_batch
    [of list_takecdr "three_samples @ three_samples" "take 2 three_samples" "three_samples ! 2"
      three_samples "[]"
      "\<lambda>p c. if p = [3] then (Inl (InternalError ''bad''), c) else (Inr (), c @ [p])"
      "[]" "[[1, 2]]" "InternalError ''bad''" "[[1, 2]]"]
  by (simp add: list_takecdr_def three_samples_def ebind_def eval_nat_numeral)


section \<open>Configuration happens before the first context\<close>

inductive ctx_step :: "ctx_globals \<Rightarrow> ctx_globals \<Rightarrow> bool" where
  configure: "context_configure d x g = (r, g') \<Longrightarrow> ctx_step g g'"
| instance_call: "context_instance env g = (c, g') \<Longrightarrow> ctx_step g g'"

inductive_cases ctx_stepE: "ctx_step g g'"

interpretation ctx: transition_system "\<lambda>g. g_ctx g = Some c" ctx_step "\<lambda>g. g_ctx g = Some c" for c
  by unfold_locales
    (auto elim!: ctx_stepE simp: context_configure_def context_instance_def split: if_splits)

lemma env_domain_id_range: "env_domain_id env \<le> 232"
proof -
  have "word_of_int v \<le> (232 :: 32 word)" if "0 \<le> v" "v \<le> 232" for v
    using that by (simp add: word_le_def uint_word_of_int)
  then show ?thesis
    by (auto simp: env_domain_id_def Let_def not_less split: option.splits)
qed

text \<open>The context is configured once: the overrides of the last \<^verbatim>\<open>Context::configure\<close> before the
  first \<^verbatim>\<open>Context::instance\<close> decide the domain and the configuration fragment, a domain taken from
  the environment is at most 232, and afterwards no sequence of calls changes the context and
  every \<^verbatim>\<open>configure\<close> is rejected without an effect.\<close>

theorem context_configured_once:
  assumes "g_ctx g = None" "context_configure d x g = (r, g1)" "context_instance env g1 = (c, g2)"
    and "ctx_step\<^sup>*\<^sup>* g2 g3"
  shows "r = Inr () \<and> c_config_xml c = x \<and>
    c_domain_id c = (case d of Some i \<Rightarrow> i | None \<Rightarrow> env_domain_id env) \<and>
    (d = None \<longrightarrow> c_domain_id c \<le> 232) \<and>
    context_instance env' g3 = (c, g3) \<and>
    context_configure d' x' g3 =
      (Inl (InvalidArguments ''Context::configure must run before the first node creates the context''), g3)"
proof -
  have "g_ctx g2 = Some c"
    using assms by (auto simp: context_instance_def context_configure_def Let_def split: option.splits)
  then have "g_ctx g3 = Some c" using assms(4) by (rule ctx.rtranclp_inv [rotated])
  then show ?thesis
    using assms env_domain_id_range [of env]
    by (auto simp: context_instance_def context_configure_def context_ctor_def Let_def
        split: option.splits)
qed

theorem context_configured_once_witness:
  "fst (context_instance (\<lambda>_. None) (snd (context_configure (Some 7) ''cfg'' ctx_globals_init))) =
     \<lparr>c_domain_id = 7, c_localhost_only = False, c_config_xml = ''cfg''\<rparr> \<and>
   context_configure None [] (snd (context_instance (\<lambda>_. None)
       (snd (context_configure (Some 7) ''cfg'' ctx_globals_init)))) \<noteq>
     (Inr (), ctx_globals_init)"
proof -
  let ?g1 = "snd (context_configure (Some 7) ''cfg'' ctx_globals_init)"
  let ?g2 = "snd (context_instance (\<lambda>_. None) ?g1)"
  have step: "context_configure (Some 7) ''cfg'' ctx_globals_init = (Inr (), ?g1)"
    "context_instance (\<lambda>_. None) ?g1 =
       (\<lparr>c_domain_id = 7, c_localhost_only = False, c_config_xml = ''cfg''\<rparr>, ?g2)"
    by (simp_all add: context_configure_def ctx_globals_init_def context_instance_def
        context_ctor_def env_localhost_only_def Let_def)
  have "g_ctx ctx_globals_init = None" by (simp add: ctx_globals_init_def)
  from context_configured_once [OF this step rtranclp.rtrancl_refl] show ?thesis
    using step by (metis Inl_Inr_False fst_conv)
qed


section \<open>Ownership of the handles\<close>

definition unreleased :: "dds_call list \<Rightarrow> dds_entity list" where
  "unreleased tr =
     [h. Created h \<leftarrow> tr, Deleted h \<notin> set tr]"

lemmas entity_simps =
  created_def deleted_def note_created_def require_def ebind_def base_dds_qos_def make_dds_qos_def

text \<open>\<^verbatim>\<open>Reader\<close> and \<^verbatim>\<open>Writer\<close> give back the condition and the endpoint they created: after the
  destructor only the topic, a child of the participant, is left.\<close>

theorem endpoint_handles_released:
  assumes "reader_ctor tp ty q rc [] = (Inr r, tr)" "distinct [rdc_topic rc, rdc_reader rc, rdc_condition rc]"
    and "writer_ctor tp ty q wc [] = (Inr w, tr')" "wc_topic wc \<noteq> wc_writer wc"
  shows "unreleased (snd (reader_dtor r tr)) = [rdc_topic rc] \<and>
    unreleased (snd (writer_dtor w tr')) = [wc_topic wc]"
  using assms
  by (auto simp: reader_ctor_def reader_dtor_def writer_ctor_def writer_dtor_def unreleased_def
      entity_simps split: if_splits)

theorem endpoint_handles_released_witness:
  "unreleased (snd (reader_dtor \<lparr>rd_handle = 11, rc_handle = 12\<rparr> [Created 10, Created 11, Created 12])) = [10] \<and>
   unreleased (snd (writer_dtor \<lparr>wr_handle = 21\<rparr> [Created 20, Created 21])) = [20]"
proof -
  have r: "reader_ctor ''t'' ''T'' qos_init
      \<lparr>rdc_sertype = True, rdc_qos = True, rdc_topic = 10, rdc_reader = 11, rdc_condition = 12\<rparr> [] =
      (Inr \<lparr>rd_handle = 11, rc_handle = 12\<rparr>, [Created 10, Created 11, Created 12])"
    by (simp add: reader_ctor_def entity_simps)
  have w: "writer_ctor ''t'' ''T'' qos_init
      \<lparr>wc_sertype = True, wc_qos = True, wc_topic = 20, wc_writer = 21\<rparr> [] =
      (Inr \<lparr>wr_handle = 21\<rparr>, [Created 20, Created 21])"
    by (simp add: writer_ctor_def entity_simps)
  show ?thesis using endpoint_handles_released [OF r _ w] by simp
qed

text \<open>When \<^verbatim>\<open>dds_create_publisher\<close> or \<^verbatim>\<open>dds_create_subscriber\<close> fails, the constructor of
  \<^verbatim>\<open>Participant\<close> throws with the participant handle still open: no destructor runs and nothing
  deletes it.\<close>

theorem participant_ctor_leak:
  assumes "pc_domain pc \<ge> 0" "pc_qos pc" "pc_participant pc \<ge> 0"
    and "pc_publisher pc < 0 \<or> pc_subscriber pc < 0"
  shows "\<exists>tr. participant_ctor pnm pc [] =
      (Inl (InternalError ''failed to create pub/sub entities''), tr) \<and>
    pc_participant pc \<in> set (unreleased tr)"
  using assms
  by (auto simp: participant_ctor_def unreleased_def entity_simps)

theorem participant_ctor_leak_witness:
  "\<exists>tr. participant_ctor (- 4)
      \<lparr>pc_domain = 1, pc_qos = True, pc_participant = 2, pc_publisher = 3, pc_subscriber = - 1\<rparr> [] =
      (Inl (InternalError ''failed to create pub/sub entities''), tr) \<and> 2 \<in> set (unreleased tr)"
  using participant_ctor_leak
    [of "\<lparr>pc_domain = 1, pc_qos = True, pc_participant = 2, pc_publisher = 3, pc_subscriber = - 1\<rparr>" "- 4"]
  by simp

section \<open>Writing\<close>

definition write_ready :: "dds_writer_env \<Rightarrow> byte list \<Rightarrow> bool" where
  "write_ready we pl \<longleftrightarrow>
     we_iov_len we (length pl) = length pl \<and> we_alloc we \<and>
     we_accept we (pl @ replicate (raw_pad (length pl)) 0)"

lemma writer_write_ready:
  assumes "write_ready we pl"
  shows "writer_write we pl ws = (Inr True, ws @ [pl @ replicate (raw_pad (length pl)) 0])"
  using assms raw_from_ser_iov_eq [of "[pl]" "length pl"]
  by (simp add: write_ready_def writer_write_def raw_serdata_from_blob_def mem_read_def ebind_def)

lemma raw_from_ser_iov_total: "\<exists>d. raw_from_ser_iov al [pl] (length pl) = Inr d"
  using raw_from_ser_iov_eq [of "[pl]" "length pl"] by (cases al) (auto simp: raw_from_ser_iov_def)

text \<open>\<^verbatim>\<open>Writer::write\<close> never throws, and only a write that returns true reaches the wire.\<close>

lemma writer_write_cases:
  "writer_write we pl ws = (Inr False, ws) \<or> (\<exists>b. writer_write we pl ws = (Inr True, ws @ [b]))"
  using raw_from_ser_iov_total [of "we_alloc we" pl]
  by (auto simp: writer_write_def raw_serdata_from_blob_def mem_read_def ebind_def
      split: option.splits)

end
