(* ===== verification/Names.thy ===== *)
theory Names
  imports Prelude
begin

text \<open>
  ROS 2 name handling, \<^verbatim>\<open>rcllite/names.cpp\<close>: validation of fully qualified names, the mapping of
  ROS topic and service names to DDS topic names, node and topic name expansion and the
  normalisation of message type names.  Every function returns the string it computes or the
  error it throws, with the message \<^verbatim>\<open>fmt\<close> produces.

  The locale \<open>name_mangling\<close> is what the three ROS-to-DDS functions have in common: validate, then
  wrap the name between a fixed prefix and a fixed suffix.
\<close>

section \<open>The functions of names.cpp\<close>

definition slash :: char where "slash = CHR ''/''"

definition validate_fqn :: "string \<Rightarrow> unit result" where
  "validate_fqn fqn =
     (if fqn = [] \<or> hd fqn \<noteq> slash then
        Inl (InvalidArguments (''fully qualified name must start with '' @ [CHR 0x27, slash, CHR 0x27] @ '': '' @ fqn))
      else if length fqn > 1 \<and> last fqn = slash then
        Inl (InvalidArguments (''fully qualified name must not end with '' @ [CHR 0x27, slash, CHR 0x27] @ '': '' @ fqn))
      else if str_find ''//'' fqn \<noteq> None then
        Inl (InvalidArguments (''fully qualified name contains empty token: '' @ fqn))
      else Inr ())"

definition ros_to_dds_topic_name :: "string \<Rightarrow> string result" where
  "ros_to_dds_topic_name ros_fqn = rbind (validate_fqn ros_fqn) (\<lambda>_. Inr (''rt'' @ ros_fqn))"

definition ros_to_dds_request_topic_name :: "string \<Rightarrow> string result" where
  "ros_to_dds_request_topic_name ros_fqn =
     rbind (validate_fqn ros_fqn) (\<lambda>_. Inr (''rq'' @ ros_fqn @ ''Request''))"

definition ros_to_dds_reply_topic_name :: "string \<Rightarrow> string result" where
  "ros_to_dds_reply_topic_name ros_fqn =
     rbind (validate_fqn ros_fqn) (\<lambda>_. Inr (''rr'' @ ros_fqn @ ''Reply''))"

definition make_fq_node_name :: "string \<Rightarrow> string \<Rightarrow> string result" where
  "make_fq_node_name ns name =
     (if name = [] \<or> str_find [slash] name \<noteq> None then
        Inl (InvalidArguments (''invalid node name: '' @ name))
      else if ns = [] \<or> hd ns \<noteq> slash \<or> (length ns > 1 \<and> last ns = slash) then
        Inl (InvalidArguments (''invalid namespace: '' @ ns))
      else if ns = ''/'' then Inr (''/'' @ name)
      else Inr (ns @ ''/'' @ name))"

definition dds_type_name :: "string \<Rightarrow> string result" where
  "dds_type_name type =
     (if str_find ''::'' type \<noteq> None then Inr type
      else (case str_rfind slash type of
          None \<Rightarrow> Inl (InvalidArguments (''type must be '' @ [CHR 0x27] @ ''pkg/pkg/Name'' @ [CHR 0x27]
                    @ '' or a full DDS name, got '' @ [CHR 0x27] @ type @ [CHR 0x27]))
        | Some cut_pos \<Rightarrow>
            (let ns0 = substr type 0 cut_pos;
                 dds_ns = (case str_find [slash] ns0 of
                     None \<Rightarrow> ns0
                   | Some i \<Rightarrow> take i ns0 @ ''::'' @ drop (i + 1) ns0)
             in Inr (dds_ns @ ''::dds_::'' @ substr_from type (cut_pos + 1) @ ''_''))))"

definition expand_topic_name :: "string \<Rightarrow> string \<Rightarrow> string result" where
  "expand_topic_name topic ns =
     (if topic = [] then Inl (InvalidArguments ''topic name must not be empty'')
      else if hd topic = slash then Inr topic
      else if str_find [slash] topic \<noteq> None then
        Inl (InvalidArguments (''relative topic with sub-namespace is not supported: '' @ topic))
      else if ns = ''/'' \<or> ns = [] then Inr (''/'' @ topic)
      else Inr (ns @ ''/'' @ topic))"


section \<open>Valid names\<close>

text \<open>A name that passes \<open>validate_fqn\<close>: absolute, and no empty token between slashes.\<close>

definition valid_fqn :: "string \<Rightarrow> bool" where
  "valid_fqn s \<longleftrightarrow> validate_fqn s = Inr ()"

definition no_double_slash :: "string \<Rightarrow> bool" where
  "no_double_slash s \<longleftrightarrow> (\<forall>a b. s \<noteq> a @ ''//'' @ b)"

lemma valid_fqn_iff:
  "valid_fqn s \<longleftrightarrow> s \<noteq> [] \<and> hd s = slash \<and> (s = ''/'' \<or> last s \<noteq> slash) \<and> no_double_slash s"
proof -
  have "length s > 1 \<and> last s = slash \<longleftrightarrow> s \<noteq> ''/'' \<and> last s = slash"
    if "s \<noteq> []" "hd s = slash"
    using that by (cases s; cases "tl s") (auto simp: slash_def)
  then show ?thesis
    by (auto simp: valid_fqn_def validate_fqn_def no_double_slash_def str_find_None_iff)
qed

lemma validate_fqn_cases: "validate_fqn s = Inr () \<or> (\<exists>m. validate_fqn s = Inl (InvalidArguments m))"
  by (simp add: validate_fqn_def)

lemma no_double_slash_Cons:
  "no_double_slash (c # s) \<longleftrightarrow> \<not> (c = slash \<and> s \<noteq> [] \<and> hd s = slash) \<and> no_double_slash s"
proof -
  have "(\<exists>a b. c # s = a @ ''//'' @ b) \<longleftrightarrow> (\<exists>b. c # s = ''//'' @ b) \<or> (\<exists>a b. s = a @ ''//'' @ b)"
  proof
    assume "\<exists>a b. c # s = a @ ''//'' @ b"
    then obtain a b where "c # s = a @ ''//'' @ b" by blast
    then show "(\<exists>b. c # s = ''//'' @ b) \<or> (\<exists>a b. s = a @ ''//'' @ b)" by (cases a) auto
  next
    assume "(\<exists>b. c # s = ''//'' @ b) \<or> (\<exists>a b. s = a @ ''//'' @ b)"
    then show "\<exists>a b. c # s = a @ ''//'' @ b"
    proof
      assume "\<exists>b. c # s = ''//'' @ b"
      then show ?thesis by (metis append_Nil)
    next
      assume "\<exists>a b. s = a @ ''//'' @ b"
      then show ?thesis by (metis append_Cons)
    qed
  qed
  moreover have "(\<exists>b. c # s = ''//'' @ b) \<longleftrightarrow> c = slash \<and> s \<noteq> [] \<and> hd s = slash"
    by (cases s) (auto simp: slash_def)
  ultimately show ?thesis unfolding no_double_slash_def by blast
qed

lemma no_double_slash_Nil [simp]: "no_double_slash []"
  by (simp add: no_double_slash_def)

lemma no_double_slash_append:
  "no_double_slash (a @ b) \<longleftrightarrow>
     no_double_slash a \<and> no_double_slash b \<and>
     \<not> (a \<noteq> [] \<and> b \<noteq> [] \<and> last a = slash \<and> hd b = slash)"
  by (induction a) (auto simp: no_double_slash_Cons)

lemma no_double_slash_token: "slash \<notin> set s \<Longrightarrow> no_double_slash s"
  by (induction s) (auto simp: no_double_slash_Cons)


section \<open>Name mangling\<close>

locale name_mangling =
  fixes mangle :: "string \<Rightarrow> string result"
    and pre :: string
    and post :: string
  assumes mangle_eq: "mangle s = rbind (validate_fqn s) (\<lambda>_. Inr (pre @ s @ post))"
begin

lemma mangle_defined_iff: "(\<exists>t. mangle s = Inr t) \<longleftrightarrow> valid_fqn s"
  by (auto simp: mangle_eq rbind_eq_Inr_iff valid_fqn_def)

lemma mangle_SomeD: "mangle s = Inr t \<Longrightarrow> t = pre @ s @ post \<and> valid_fqn s"
  by (auto simp: mangle_eq rbind_eq_Inr_iff valid_fqn_def)

lemma mangle_inj: "mangle s = Inr t \<Longrightarrow> mangle s' = Inr t \<Longrightarrow> s = s'"
  by (auto dest!: mangle_SomeD)

lemma demangle:
  "mangle s = Inr t \<Longrightarrow>
     slash # substr t (length pre + 1) (length t - (length pre + 1) - length post) = s"
  by (cases s) (auto dest!: mangle_SomeD simp: valid_fqn_iff substr_def)

lemma mangle_prefix: "mangle s = Inr t \<Longrightarrow> starts_with (pre @ [slash]) t"
  by (cases s) (auto dest!: mangle_SomeD simp: valid_fqn_iff starts_with_def)

end

lemma manglings_disjoint:
  assumes "name_mangling m p q" "name_mangling m' p' q'" "length p = length p'" "p \<noteq> p'"
    and "m s = Inr t"
  shows "m' s' \<noteq> Inr t"
  using assms(3-5)
  by (auto dest!: name_mangling.mangle_SomeD [OF assms(1)] name_mangling.mangle_SomeD [OF assms(2)])

interpretation topic_name: name_mangling ros_to_dds_topic_name "''rt''" "[]"
  by unfold_locales (simp add: ros_to_dds_topic_name_def)

interpretation request_name: name_mangling ros_to_dds_request_topic_name "''rq''" "''Request''"
  by unfold_locales (simp add: ros_to_dds_request_topic_name_def)

interpretation reply_name: name_mangling ros_to_dds_reply_topic_name "''rr''" "''Reply''"
  by unfold_locales (simp add: ros_to_dds_reply_topic_name_def)


lemma dds_topic_kinds_disjoint:
  "ros_to_dds_topic_name s = Inr t \<Longrightarrow> ros_to_dds_request_topic_name s' \<noteq> Inr t"
  "ros_to_dds_topic_name s = Inr t \<Longrightarrow> ros_to_dds_reply_topic_name s' \<noteq> Inr t"
  "ros_to_dds_request_topic_name s = Inr t \<Longrightarrow> ros_to_dds_reply_topic_name s' \<noteq> Inr t"
  by (erule manglings_disjoint [rotated -1], unfold_locales, simp_all)+


section \<open>Node names\<close>

lemma make_fq_node_name_Inr_iff:
  "make_fq_node_name ns name = Inr fq \<longleftrightarrow>
     name \<noteq> [] \<and> slash \<notin> set name \<and> ns \<noteq> [] \<and> hd ns = slash \<and> (ns = ''/'' \<or> last ns \<noteq> slash) \<and>
     fq = (if ns = ''/'' then ''/'' @ name else ns @ ''/'' @ name)"
proof -
  have "length ns > 1 \<and> last ns = slash \<longleftrightarrow> ns \<noteq> ''/'' \<and> last ns = slash"
    if "ns \<noteq> []" "hd ns = slash"
    using that by (cases ns; cases "tl ns") (auto simp: slash_def)
  then show ?thesis
    by (auto simp: make_fq_node_name_def str_find_char_None_iff)
qed

lemma append_last_token_inject:
  assumes "slash \<notin> set n" "slash \<notin> set m" "a @ slash # n = b @ slash # m"
  shows "a = b \<and> n = m"
proof -
  have "str_rfind slash (a @ slash # n) = Some (length a)" using assms(1) by (rule str_rfind_eqI)
  moreover have "str_rfind slash (a @ slash # n) = Some (length b)"
    unfolding assms(3) using assms(2) by (rule str_rfind_eqI)
  ultimately show ?thesis using assms(3) by simp
qed

lemma make_fq_node_name_split:
  assumes "make_fq_node_name ns name = Inr fq"
  shows "\<exists>p. fq = p @ slash # name \<and> slash \<notin> set name \<and> ns = (if p = [] then ''/'' else p)"
  using assms
  by (cases "ns = ''/''") (auto simp: make_fq_node_name_Inr_iff slash_def)


section \<open>Properties\<close>



text \<open>A fully qualified node name determines the namespace and the name it was built from,
  and it passes \<open>validate_fqn\<close> whenever the namespace has no empty token (which
  \<open>make_fq_node_name\<close> itself does not check).\<close>

theorem node_name_unique_and_valid:
  assumes "make_fq_node_name ns name = Inr fq"
  shows "(\<forall>ns' name'. make_fq_node_name ns' name' = Inr fq \<longrightarrow> ns' = ns \<and> name' = name) \<and>
    (valid_fqn fq \<longleftrightarrow> no_double_slash ns)"
proof (intro conjI allI impI)
  obtain p where p: "fq = p @ slash # name" "slash \<notin> set name" "ns = (if p = [] then ''/'' else p)"
    using make_fq_node_name_split [OF assms] by blast
  fix ns' name'
  assume "make_fq_node_name ns' name' = Inr fq"
  then obtain p' where p': "fq = p' @ slash # name'" "slash \<notin> set name'"
      "ns' = (if p' = [] then ''/'' else p')"
    using make_fq_node_name_split by blast
  have "p' = p \<and> name' = name"
    using p p' by (intro append_last_token_inject) auto
  with p p' show "ns' = ns" "name' = name" by auto
next
  from assms have n: "name \<noteq> []" "slash \<notin> set name" "ns \<noteq> []" "hd ns = slash"
      "ns = ''/'' \<or> last ns \<noteq> slash" "fq = (if ns = ''/'' then ''/'' @ name else ns @ ''/'' @ name)"
    by (simp_all add: make_fq_node_name_Inr_iff)
  then have "last name \<noteq> slash" "hd name \<noteq> slash" by (metis last_in_set, metis hd_in_set)
  then show "valid_fqn fq \<longleftrightarrow> no_double_slash ns"
    using n no_double_slash_token [OF n(2)]
    by (auto simp: valid_fqn_iff no_double_slash_append no_double_slash_Cons slash_def)
qed

theorem node_name_unique_and_valid_witness:
  "make_fq_node_name ''/ns'' ''talker'' = Inr ''/ns/talker'' \<and>
   make_fq_node_name ''/'' ''talker'' \<noteq> Inr ''/ns/talker'' \<and>
   (valid_fqn ''/ns/talker'' \<longleftrightarrow> no_double_slash ''/ns'')"
proof -
  have mk: "make_fq_node_name ''/ns'' ''talker'' = Inr ''/ns/talker''" by code_simp
  have "''/'' \<noteq> ''/ns''" by simp
  with mk node_name_unique_and_valid [OF mk] show ?thesis by blast
qed

text \<open>An expanded topic name is absolute; with a namespace a node accepts it is moreover
  injective on relative names, and it is a name the topic mapping accepts when the namespace has
  no empty token.\<close>

theorem expand_topic_name_absolute:
  assumes "expand_topic_name topic ns = Inr fq" and "topic = [] \<or> hd topic \<noteq> slash"
    and "ns \<noteq> []" and "hd ns = slash" and "ns = ''/'' \<or> last ns \<noteq> slash"
  shows "hd fq = slash \<and> (valid_fqn fq \<longleftrightarrow> no_double_slash ns) \<and>
    (\<forall>topic'. expand_topic_name topic' ns = Inr fq \<and> (topic' = [] \<or> hd topic' \<noteq> slash)
       \<longrightarrow> topic' = topic)"
proof -
  from assms(1,2) have t: "topic \<noteq> []" "slash \<notin> set topic"
      "fq = (if ns = ''/'' then ''/'' @ topic else ns @ ''/'' @ topic)"
    using assms(3)
    by (auto simp: expand_topic_name_def str_find_char_None_iff split: if_splits)
  have mk: "make_fq_node_name ns topic = Inr fq"
    using t assms(3-5) by (simp add: make_fq_node_name_Inr_iff)
  have uniq: "topic' = topic" if "expand_topic_name topic' ns = Inr fq" "topic' = [] \<or> hd topic' \<noteq> slash"
    for topic'
  proof -
    from that have "topic' \<noteq> []" "slash \<notin> set topic'"
        "fq = (if ns = ''/'' then ''/'' @ topic' else ns @ ''/'' @ topic')"
      using assms(3)
      by (auto simp: expand_topic_name_def str_find_char_None_iff split: if_splits)
    with t(3) show ?thesis by (auto split: if_splits)
  qed
  have "last topic \<noteq> slash" "hd topic \<noteq> slash" using t by (metis last_in_set, metis hd_in_set)
  then have "valid_fqn fq \<longleftrightarrow> no_double_slash ns"
    using t assms(3-5) no_double_slash_token [OF t(2)]
    by (auto simp: valid_fqn_iff no_double_slash_append no_double_slash_Cons slash_def)
  moreover have "hd fq = slash" using t assms(3,4) by (auto simp: slash_def)
  ultimately show ?thesis using uniq by blast
qed

theorem expand_topic_name_absolute_witness:
  "expand_topic_name ''chatter'' ''/ns'' = Inr ''/ns/chatter'' \<and>
   hd ''/ns/chatter'' = slash \<and> (valid_fqn ''/ns/chatter'' \<longleftrightarrow> no_double_slash ''/ns'')"
proof -
  have "expand_topic_name ''chatter'' ''/ns'' = Inr ''/ns/chatter''" by code_simp
  with expand_topic_name_absolute [OF this] show ?thesis by (simp add: slash_def)
qed

section \<open>Type names\<close>

lemma str_find_append_left:
  "str_find p (a @ p @ b) \<noteq> None"
  by (simp add: str_find_None_iff) blast

lemma str_find_token_append:
  "c \<notin> set a \<Longrightarrow> str_find [c] (a @ c # b) = Some (length a)"
  by (induction a) auto

lemma dds_type_name_has_colons:
  "dds_type_name t = Inr u \<Longrightarrow> str_find ''::'' u \<noteq> None"
proof -
  assume u: "dds_type_name t = Inr u"
  show ?thesis
  proof (cases "str_find ''::'' t")
    case (Some i)
    with u show ?thesis by (simp add: dds_type_name_def)
  next
    case None
    with u obtain a b where "u = a @ ''::'' @ b"
      by (auto simp: dds_type_name_def Let_def split: option.splits)
    then show ?thesis using str_find_append_left by blast
  qed
qed

text \<open>The friendly form \<^verbatim>\<open>pkg/kind/Name\<close> becomes \<^verbatim>\<open>pkg::kind::dds_::Name_\<close>, a full DDS name
  stays as it is, and normalising twice is normalising once.\<close>

theorem dds_type_name_normalises:
  "(slash \<notin> set pkg \<and> slash \<notin> set kind \<and> slash \<notin> set name \<and>
      (\<forall>a b. pkg @ ''/'' @ kind @ ''/'' @ name \<noteq> a @ ''::'' @ b) \<longrightarrow>
      dds_type_name (pkg @ ''/'' @ kind @ ''/'' @ name) =
        Inr (pkg @ ''::'' @ kind @ ''::dds_::'' @ name @ ''_'')) \<and>
   (dds_type_name (a @ ''::'' @ b) = Inr (a @ ''::'' @ b)) \<and>
   (dds_type_name t = Inr u \<longrightarrow> dds_type_name u = Inr u)"
proof (intro conjI impI)
  assume p: "slash \<notin> set pkg \<and> slash \<notin> set kind \<and> slash \<notin> set name \<and>
      (\<forall>a b. pkg @ ''/'' @ kind @ ''/'' @ name \<noteq> a @ ''::'' @ b)"
  let ?t = "pkg @ ''/'' @ kind @ ''/'' @ name"
  have no: "str_find ''::'' ?t = None" using p by (simp only: str_find_None_iff) blast
  have cut: "str_rfind slash ?t = Some (length (pkg @ ''/'' @ kind))"
    using p str_rfind_eqI [of slash name "pkg @ ''/'' @ kind"] by (simp add: slash_def)
  have "str_find [slash] (pkg @ ''/'' @ kind) = Some (length pkg)"
    using p str_find_token_append [of slash pkg kind] by (simp add: slash_def)
  with no cut show "dds_type_name ?t = Inr (pkg @ ''::'' @ kind @ ''::dds_::'' @ name @ ''_'')"
    by (simp add: dds_type_name_def substr_def substr_from_def)
next
  show "dds_type_name (a @ ''::'' @ b) = Inr (a @ ''::'' @ b)"
    using str_find_append_left [of "''::''" a b] by (simp add: dds_type_name_def)
next
  assume "dds_type_name t = Inr u"
  then have "str_find ''::'' u \<noteq> None" by (rule dds_type_name_has_colons)
  then show "dds_type_name u = Inr u" by (simp add: dds_type_name_def)
qed

theorem dds_type_name_normalises_witness:
  "dds_type_name ''std_msgs/msg/String'' = Inr ''std_msgs::msg::dds_::String_'' \<and>
   dds_type_name ''std_msgs::msg::dds_::String_'' = Inr ''std_msgs::msg::dds_::String_''"
proof -
  have "dds_type_name ''std_msgs/msg/String'' = Inr ''std_msgs::msg::dds_::String_''"
    by code_simp
  with dds_type_name_normalises [of _ _ _ _ _ "''std_msgs/msg/String''"] show ?thesis by blast
qed

end
