(* ===== verification/Pubsub.thy ===== *)
theory Pubsub
  imports Dds_Entities Names
begin

text \<open>
  Topics: \<^verbatim>\<open>Publisher\<close> (\<^verbatim>\<open>publisher.hpp\<close>) and \<^verbatim>\<open>Subscription\<close> (\<^verbatim>\<open>subscription.hpp\<close>).

  The message type is a parameter: its \<^verbatim>\<open>serialize\<close> and \<^verbatim>\<open>deserialize\<close> (generated code) are the
  arguments \<open>ser\<close> and \<open>deser\<close>, and what the library relies on is the contract \<open>cdr_codec\<close>.  The
  user callback is a computation on its own state.  Log lines are recorded as the logged errors.
\<close>

section \<open>Publisher\<close>

record publisher =
  p_ros_topic :: string
  p_writer :: writer

definition publisher_ctor ::
    "string \<Rightarrow> qos \<Rightarrow> bool \<Rightarrow> string \<Rightarrow> writer_calls \<Rightarrow> publisher dds" where
  "publisher_ctor ros_topic q raw_dds_topic dds_name wc =
     ebind (elift (if raw_dds_topic then Inr ros_topic else ros_to_dds_topic_name ros_topic)) (\<lambda>topic.
     ebind (writer_ctor topic dds_name q wc) (\<lambda>w.
     ereturn \<lparr>p_ros_topic = ros_topic, p_writer = w\<rparr>))"

definition publish ::
    "'m serializer \<Rightarrow> dds_writer_env \<Rightarrow> publisher \<Rightarrow> 'm \<Rightarrow> (wire, unit) eff" where
  "publish ser we p msg =
     ebind (writer_write we (payload (ser msg cdr_writer_init))) (\<lambda>ok.
       if ok then ereturn ()
       else ethrow (InternalError (''publish failed on '' @ p_ros_topic p)))"


section \<open>Waiting for a peer\<close>

text \<open>
  \<^verbatim>\<open>wait_for_subscribers\<close> and \<^verbatim>\<open>Client::wait_for_service\<close> poll a counter against a deadline.  The
  counter, \<^verbatim>\<open>steady_clock::now\<close> and \<^verbatim>\<open>sleep_for\<close> (nanoseconds) act on the state of the outside
  world; the deadline is computed in 64-bit signed nanoseconds, whose overflow is undefined.
\<close>

record 's poll_env =
  pe_count :: "'s \<Rightarrow> nat \<times> 's"
  pe_now :: "'s \<Rightarrow> int \<times> 's"
  pe_sleep :: "int \<Rightarrow> 's \<Rightarrow> 's"

definition in_int64 :: "int \<Rightarrow> bool" where
  "in_int64 t \<longleftrightarrow> - (2 ^ 63) \<le> t \<and> t < 2 ^ 63"

partial_function (option) poll_until :: "'s poll_env \<Rightarrow> int \<Rightarrow> 's \<Rightarrow> (bool \<times> 's) option" where
  "poll_until pe deadline s =
     (case pe_count pe s of (n, s1) \<Rightarrow>
        if n > 0 then Some (True, s1)
        else case pe_now pe s1 of (t, s2) \<Rightarrow>
          if t \<ge> deadline then Some (False, s2)
          else poll_until pe deadline (pe_sleep pe 10000000 s2))"

declare poll_until.simps [code]

definition wait_for_subscribers :: "'s poll_env \<Rightarrow> int \<Rightarrow> 's \<Rightarrow> (bool result \<times> 's) option" where
  "wait_for_subscribers pe timeout s =
     (case pe_now pe s of (t, s1) \<Rightarrow>
        if \<not> in_int64 (t + timeout) then Some (Inl (UndefinedBehaviour ''deadline overflow''), s1)
        else map_option (\<lambda>(b, s'). (Inr b, s')) (poll_until pe (t + timeout) s1))"

text \<open>The backpressure overload \<^verbatim>\<open>publish(msg, timeout)\<close>.\<close>

definition publish_wait ::
    "'m serializer \<Rightarrow> dds_writer_env \<Rightarrow> publisher \<Rightarrow> 's poll_env \<Rightarrow> 'm \<Rightarrow> int \<Rightarrow> 's \<times> wire \<Rightarrow>
     (bool result \<times> 's \<times> wire) option" where
  "publish_wait ser we p pe msg timeout st =
     (case st of (s, ws) \<Rightarrow>
        (case wait_for_subscribers pe timeout s of
           None \<Rightarrow> None
         | Some (Inl e, s') \<Rightarrow> Some (Inl e, s', ws)
         | Some (Inr False, s') \<Rightarrow> Some (Inr False, s', ws)
         | Some (Inr True, s') \<Rightarrow>
             (case publish ser we p msg ws of
                (Inl e, ws') \<Rightarrow> Some (Inl e, s', ws')
              | (Inr _, ws') \<Rightarrow> Some (Inr True, s', ws'))))"


section \<open>Subscription\<close>

record subscription =
  su_ros_topic :: string
  su_reader :: reader

definition subscription_ctor :: "string \<Rightarrow> qos \<Rightarrow> string \<Rightarrow> reader_calls \<Rightarrow> subscription dds" where
  "subscription_ctor ros_topic q dds_name rc =
     ebind (elift (ros_to_dds_topic_name ros_topic)) (\<lambda>topic.
     ebind (reader_ctor topic dds_name q rc) (\<lambda>r.
     ereturn \<lparr>su_ros_topic = ros_topic, su_reader = r\<rparr>))"

definition subscription_condition :: "subscription \<Rightarrow> dds_entity" where
  "subscription_condition s = rc_handle (su_reader s)"

text \<open>The state of a dispatch: the user's state and the logged errors.\<close>

type_synonym 'c cb_state = "'c \<times> rcl_error list"

definition run_callback :: "('c, 'a) eff \<Rightarrow> ('c cb_state, 'a) eff" where
  "run_callback f st = (case f (fst st) of (r, c) \<Rightarrow> (r, c, snd st))"

definition log_error :: "rcl_error \<Rightarrow> ('c cb_state, unit) eff" where
  "log_error e = emodify (\<lambda>st. (fst st, snd st @ [e]))"

definition subscription_sample ::
    "'m deserializer \<Rightarrow> ('m \<Rightarrow> ('c, unit) eff) \<Rightarrow> byte list \<Rightarrow> ('c cb_state, unit) eff" where
  "subscription_sample deser cb pl =
     ecatch
       (ebind (elift (cdr_reader_init pl (length pl))) (\<lambda>r.
        ebind (elift (deser r)) (\<lambda>(m, _).
          case m of Some msg \<Rightarrow> run_callback (cb msg) | None \<Rightarrow> ereturn ())))
       log_error"

definition subscription_dispatch ::
    "'q takecdr \<Rightarrow> 'm deserializer \<Rightarrow> ('m \<Rightarrow> ('c, unit) eff) \<Rightarrow> 'q \<Rightarrow> 'c cb_state \<Rightarrow>
     (nat result \<times> ('q, 'c cb_state) take_state) option" where
  "subscription_dispatch tk deser cb q st = reader_take tk (subscription_sample deser cb) q st"

section \<open>Polling ends\<close>

text \<open>
  What the loops rely on of the clock: \<open>tm\<close> is the reading of \<^verbatim>\<open>steady_clock\<close>, it never goes back,
  and \<^verbatim>\<open>sleep_for(d)\<close> returns no earlier than \<open>d\<close> later.
\<close>

definition steady :: "'s poll_env \<Rightarrow> ('s \<Rightarrow> int) \<Rightarrow> bool" where
  "steady pe tm \<longleftrightarrow>
     (\<forall>s. tm s \<le> tm (snd (pe_count pe s))) \<and>
     (\<forall>s. fst (pe_now pe s) = tm s \<and> tm s \<le> tm (snd (pe_now pe s))) \<and>
     (\<forall>s d. 0 \<le> d \<longrightarrow> tm s + d \<le> tm (pe_sleep pe d s))"

lemma poll_until_returns:
  assumes "steady pe tm"
  shows "\<exists>b s'. poll_until pe dl s = Some (b, s') \<and>
    (if b then \<exists>s0. fst (pe_count pe s0) > 0 \<and> s' = snd (pe_count pe s0) else tm s' \<ge> dl)"
proof (induction "nat (dl - tm s)" arbitrary: s rule: less_induct)
  case less
  obtain n s1 where c: "pe_count pe s = (n, s1)" by fastforce
  obtain t s2 where t: "pe_now pe s1 = (t, s2)" by fastforce
  let ?s3 = "pe_sleep pe 10000000 s2"
  have "\<forall>s. tm s \<le> tm (snd (pe_count pe s))"
    "\<forall>s. fst (pe_now pe s) = tm s \<and> tm s \<le> tm (snd (pe_now pe s))"
    "\<forall>s d. 0 \<le> d \<longrightarrow> tm s + d \<le> tm (pe_sleep pe d s)"
    using assms unfolding steady_def by blast+
  from this(1) [rule_format, of s] this(2) [rule_format, of s1] this(3) [rule_format, of 10000000 s2]
  have mono: "tm s \<le> tm s1" "t = tm s1" "tm s1 \<le> tm s2" "tm s2 + 10000000 \<le> tm ?s3"
    using c t by simp_all
  show ?case
  proof (cases "n > 0 \<or> t \<ge> dl")
    case True
    show ?thesis
    proof (cases "n > 0")
      case True
      then have "poll_until pe dl s = Some (True, s1)"
        by (subst poll_until.simps) (simp add: c)
      moreover have "fst (pe_count pe s) > 0 \<and> s1 = snd (pe_count pe s)"
        using True c by simp
      ultimately show ?thesis by (metis (full_types))
    next
      case False
      with True have "poll_until pe dl s = Some (False, s2)"
        by (subst poll_until.simps) (simp add: c t)
      with mono True False show ?thesis by auto
    qed
  next
    case False
    then have "poll_until pe dl s = poll_until pe dl ?s3"
      by (subst poll_until.simps) (simp add: c t)
    moreover have "nat (dl - tm ?s3) < nat (dl - tm s)" using mono False by linarith
    ultimately show ?thesis using less by simp
  qed
qed

lemma publish_cases:
  "publish ser we p msg ws = (Inl (InternalError (''publish failed on '' @ p_ros_topic p)), ws) \<or>
   (\<exists>b. publish ser we p msg ws = (Inr (), ws @ [b]))"
  using writer_write_cases [of we "payload (ser msg cdr_writer_init)" ws]
  by (auto simp: publish_def ebind_def)


text \<open>A world with one clock tick per reading and a subscriber that appears after 25 milliseconds.\<close>

definition demo_poll_env :: "int poll_env" where
  "demo_poll_env = \<lparr>pe_count = (\<lambda>s. (if s \<ge> 25000000 then 1 else 0, s)), pe_now = (\<lambda>s. (s, s + 1)),
     pe_sleep = (\<lambda>d s. s + d)\<rparr>"

lemma demo_poll_env_steady: "steady demo_poll_env (\<lambda>s. s)"
  by (simp add: steady_def demo_poll_env_def)

definition demo_writer_env :: dds_writer_env where
  "demo_writer_env = \<lparr>we_iov_len = (\<lambda>n. n), we_alloc = True, we_accept = (\<lambda>_. True)\<rparr>"

lemma demo_writer_ready [simp]: "write_ready demo_writer_env pl"
  by (simp add: write_ready_def demo_writer_env_def)



section \<open>From \<^verbatim>\<open>publish\<close> to the callback\<close>

definition wire_of :: "'m serializer \<Rightarrow> 'm \<Rightarrow> byte list" where
  "wire_of ser m =
     (let pl = payload (ser m cdr_writer_init) in pl @ replicate (raw_pad (length pl)) 0)"

lemma efor_publish:
  assumes "\<forall>m \<in> set msgs. write_ready we (payload (ser m cdr_writer_init))"
  shows "efor (publish ser we p) msgs ws = (Inr (), ws @ map (wire_of ser) msgs)"
  using assms
  by (induction msgs arbitrary: ws)
    (simp_all add: publish_def ebind_def writer_write_ready wire_of_def Let_def)

lemma deser_wire:
  assumes "cdr_codec ser deser fits" "fits m"
  shows "\<exists>r r'. cdr_reader_init (wire_of ser m) (length (wire_of ser m)) = Inr r \<and>
    deser r = Inr (Some m, r')"
  using cdr_codec.deser_payload
    [OF assms, of "replicate (raw_pad (length (payload (ser m cdr_writer_init)))) 0"]
  by (auto simp: wire_of_def Let_def cdr_reader_of_vector_def rbind_eq_Inr_iff)

lemma subscription_sample_wire:
  assumes "cdr_codec ser deser fits" "fits m"
  shows "subscription_sample deser cb (wire_of ser m) = ecatch (run_callback (cb m)) log_error"
proof -
  obtain r r' where "cdr_reader_init (wire_of ser m) (length (wire_of ser m)) = Inr r"
    "deser r = Inr (Some m, r')"
    using deser_wire [OF assms] by blast
  then show ?thesis by (simp add: subscription_sample_def fun_eq_iff ebind_def ecatch_def)
qed

lemma efor_subscription_wire:
  assumes "cdr_codec ser deser fits" "\<forall>m \<in> set msgs. fits m" "efor cb msgs c = (Inr (), c')"
  shows "efor (subscription_sample deser cb) (map (wire_of ser) msgs) (c, lg) = (Inr (), c', lg)"
  using assms(2,3)
proof (induction msgs arbitrary: c)
  case (Cons m msgs)
  then obtain u c1 where "cb m c = (Inr u, c1)" "efor cb msgs c1 = (Inr (), c')"
    by (auto simp: ebind_eq_Inr_iff)
  then show ?case
    using Cons subscription_sample_wire [OF assms(1), of m cb]
    by (simp add: ebind_def ecatch_def run_callback_def)
qed simp

definition delivered :: "wire \<Rightarrow> sample list" where
  "delivered ws = map (\<lambda>b. \<lparr>s_valid = True, s_payload = b\<rparr>) ws"

lemma valid_payloads_delivered [simp]: "valid_payloads (delivered ws) = ws"
  by (induction ws) (simp_all add: delivered_def)

lemma length_delivered [simp]: "length (delivered ws) = length ws"
  by (simp add: delivered_def)

lemma dispatch_drains:
  assumes "takes_fifo tk qs" "efor fn (valid_payloads (qs q)) c = (Inr (), c')"
  shows "\<exists>q'. qs q' = [] \<and>
    reader_take tk fn q c =
      Some (Inr (length (qs q)), \<lparr>t_queue = q', t_unref = length (qs q), t_user = c'\<rparr>)"
  using take_loop_drains [OF assms(1), of fn "\<lparr>t_queue = q, t_unref = 0, t_user = c\<rparr>" c' 0] assms(2)
  by (simp add: reader_take_def)

text \<open>C18: End to end on a topic: messages published in order arrive, after the padding of the serdata,
  in a dispatch that invokes the callback on exactly those messages in that order, logs nothing
  and leaves the reader empty.\<close>

theorem publish_dispatch_roundtrip:
  assumes "cdr_codec ser deser fits" "\<forall>m \<in> set msgs. fits m"
    and "\<forall>m \<in> set msgs. write_ready we (payload (ser m cdr_writer_init))"
    and "efor (publish ser we p) msgs [] = (r, ws)"
    and "takes_fifo tk qs" "qs q = delivered ws"
    and "efor cb msgs c = (Inr (), c')"
  shows "r = Inr () \<and> (\<exists>q'. qs q' = [] \<and>
    subscription_dispatch tk deser cb q (c, []) =
      Some (Inr (length msgs), \<lparr>t_queue = q', t_unref = length msgs, t_user = (c', [])\<rparr>))"
proof -
  from assms(3,4) have ws: "ws = map (wire_of ser) msgs" and r: "r = Inr ()"
    by (simp_all add: efor_publish)
  have "efor (subscription_sample deser cb) (valid_payloads (qs q)) (c, []) = (Inr (), c', [])"
    using efor_subscription_wire [OF assms(1,2,7)] by (simp add: assms(6) ws)
  from dispatch_drains [OF assms(5) this] r show ?thesis
    by (simp add: subscription_dispatch_def assms(6) ws)
qed

theorem publish_dispatch_roundtrip_witness:
  "snd (efor (publish write_string demo_writer_env \<lparr>p_ros_topic = ''/t'', p_writer = \<lparr>wr_handle = 1\<rparr>\<rparr>)
       [''hi'', ''there''] []) = map (wire_of write_string) [''hi'', ''there''] \<and>
   (\<exists>q'. subscription_dispatch list_takecdr (then_true read_string) (\<lambda>m c. (Inr (), c @ [m]))
       (delivered (map (wire_of write_string) [''hi'', ''there''])) ([], []) =
     Some (Inr 2, \<lparr>t_queue = q', t_unref = 2, t_user = ([''hi'', ''there''], [])\<rparr>))"
proof -
  let ?p = "\<lparr>p_ros_topic = ''/t'', p_writer = \<lparr>wr_handle = 1\<rparr>\<rparr>"
  let ?m = "[''hi'', ''there'']"
  have pub: "efor (publish write_string demo_writer_env ?p) ?m [] =
      (Inr (), map (wire_of write_string) ?m)"
    using efor_publish [of ?m demo_writer_env write_string ?p "[]"] by simp
  have fifo: "takes_fifo list_takecdr (\<lambda>q. q)"
    by (simp add: takes_fifo_def list_takecdr_def)
  show ?thesis
    using publish_dispatch_roundtrip
      [OF string_codec.cdr_codec_axioms _ _ pub fifo refl,
        of "\<lambda>m c. (Inr (), c @ [m])" "[]" "?m"] pub
    by (simp add: string_fits_def ebind_def)
qed

text \<open>C26: A malformed sample or a failing callback cannot stop a subscription: unless user code runs
  into undefined behaviour, the dispatch returns, every sample is released, and the handler has
  run on every valid payload in order, whatever the handlers before it did.\<close>

theorem subscription_dispatch_isolates:
  assumes "takes_fifo tk qs"
    and "\<forall>r e. reader_ok r \<longrightarrow> deser r = Inl e \<longrightarrow> \<not> is_ub e"
    and "\<forall>m c e c'. cb m c = (Inl e, c') \<longrightarrow> \<not> is_ub e"
  shows "\<exists>q'. qs q' = [] \<and>
    subscription_dispatch tk deser cb q st =
      Some (Inr (length (qs q)), \<lparr>t_queue = q', t_unref = length (qs q),
        t_user = fold (\<lambda>pl st. snd (subscription_sample deser cb pl st)) (valid_payloads (qs q)) st\<rparr>)"
proof -
  have init: "\<not> is_ub e" if "cdr_reader_init pl (length pl) = Inl e" for pl e
    using that by (auto simp: cdr_reader_init_def split: if_splits list.splits)
  have ok: "reader_ok r" if "cdr_reader_init pl (length pl) = Inr r" for pl r
    using that by (auto simp: cdr_reader_init_def reader_ok_def split: if_splits list.splits)
  have "fst (subscription_sample deser cb pl st) = Inr ()" for pl st
    using assms(2,3) init ok
    by (auto simp: subscription_sample_def ecatch_def ebind_def run_callback_def log_error_def
        split: sum.splits prod.splits option.splits) fastforce+
  then have "\<forall>pl \<in> set (valid_payloads (qs q)). \<forall>st.
      subscription_sample deser cb pl st = (Inr (), snd (subscription_sample deser cb pl st))"
    by (metis prod.collapse)
  from efor_total [OF this] show ?thesis
    unfolding subscription_dispatch_def by (rule dispatch_drains [OF assms(1)])
qed

theorem subscription_dispatch_isolates_witness:
  "\<exists>q'. q' = [] \<and>
    subscription_dispatch list_takecdr (then_true read_string) (\<lambda>m c. (Inr (), c @ [m])) three_samples ([], []) =
      Some (Inr (length three_samples), \<lparr>t_queue = q', t_unref = length three_samples,
        t_user = fold (\<lambda>pl st. snd (subscription_sample (then_true read_string) (\<lambda>m c. (Inr (), c @ [m])) pl st))
          (valid_payloads three_samples) ([], [])\<rparr>)"
proof (rule subscription_dispatch_isolates)
  show "takes_fifo list_takecdr (\<lambda>q. q)" by (simp add: takes_fifo_def list_takecdr_def)
  show "\<forall>r e. reader_ok r \<longrightarrow> then_true read_string r = Inl e \<longrightarrow> \<not> is_ub e"
    using read_string_no_ub by (auto simp: then_true_def rbind_eq_Inl_iff)
qed simp

end
