(* ===== verification/Service.thy ===== *)
theory Service
  imports Pubsub
begin

text \<open>
  Services (\<^verbatim>\<open>service.hpp\<close>): the request/reply header, the server's dispatch, and the client with its
  table of pending requests, its asynchronous and synchronous calls and its dispatch.

  Sequence numbers are the 64 bits of the \<^verbatim>\<open>std::atomic<int64_t>\<close> counter (its increment wraps).  A
  \<^verbatim>\<open>std::promise\<close> lives on the stack of the thread in \<^verbatim>\<open>call\<close>; the table \<open>cl_promises\<close> holds the live
  ones by address, so that a use after its lifetime is a branch of the model.
\<close>

section \<open>Header\<close>

record service_header =
  h_client_id :: "64 word"
  h_sequence :: "64 word"

definition write_service_header :: "service_header serializer" where
  "write_service_header h w = write_int64 (h_sequence h) (write_uint64 (h_client_id h) w)"

definition read_service_header :: "cdr_reader \<Rightarrow> (service_header \<times> cdr_reader) result" where
  "read_service_header r =
     rbind (read_uint64 r) (\<lambda>(cid, r1).
     rbind (read_int64 r1) (\<lambda>(sq, r2).
     Inr (\<lparr>h_client_id = cid, h_sequence = sq\<rparr>, r2)))"


section \<open>Server\<close>

record service =
  sv_ros_service :: string
  sv_request_reader :: reader
  sv_reply_writer :: writer

definition service_ctor ::
    "string \<Rightarrow> qos \<Rightarrow> string \<Rightarrow> string \<Rightarrow> reader_calls \<Rightarrow> writer_calls \<Rightarrow> service dds" where
  "service_ctor ros_service q request_name response_name rc wc =
     ebind (elift (ros_to_dds_request_topic_name ros_service)) (\<lambda>request_topic.
     ebind (reader_ctor request_topic request_name q rc) (\<lambda>rd.
     ebind (ecatch (ebind (elift (ros_to_dds_reply_topic_name ros_service)) (\<lambda>reply_topic.
                      writer_ctor reply_topic response_name q wc))
              (\<lambda>e. ebind (reader_dtor rd) (\<lambda>_. ethrow e))) (\<lambda>wr.
     ereturn \<lparr>sv_ros_service = ros_service, sv_request_reader = rd, sv_reply_writer = wr\<rparr>)))"

record 'u service_state =
  sv_user :: 'u
  sv_replies :: wire
  sv_log :: "rcl_error list"

definition sv_run :: "('u, 'a) eff \<Rightarrow> ('u service_state, 'a) eff" where
  "sv_run f st = (case f (sv_user st) of (r, u) \<Rightarrow> (r, st\<lparr>sv_user := u\<rparr>))"

definition sv_reply :: "(wire, 'a) eff \<Rightarrow> ('u service_state, 'a) eff" where
  "sv_reply f st = (case f (sv_replies st) of (r, ws) \<Rightarrow> (r, st\<lparr>sv_replies := ws\<rparr>))"

definition service_request ::
    "'q deserializer \<Rightarrow> ('q \<Rightarrow> ('u, 'r) eff) \<Rightarrow> 'r serializer \<Rightarrow> dds_writer_env \<Rightarrow> byte list \<Rightarrow>
     ('u service_state, unit) eff" where
  "service_request deser cb ser we pl =
     ecatch
       (ebind (elift (cdr_reader_init pl (length pl))) (\<lambda>r.
        ebind (elift (read_service_header r)) (\<lambda>(h, r1).
        ebind (elift (deser r1)) (\<lambda>(req, _).
          case req of
            None \<Rightarrow> ereturn ()
          | Some q \<Rightarrow>
              ebind (sv_run (cb q)) (\<lambda>resp.
              ebind (sv_reply (writer_write we (payload (ser resp (write_service_header h cdr_writer_init))))) (\<lambda>_.
              ereturn ()))))))
       (\<lambda>e. emodify (\<lambda>st. st\<lparr>sv_log := sv_log st @ [e]\<rparr>))"

definition service_dispatch ::
    "'t takecdr \<Rightarrow> 'q deserializer \<Rightarrow> ('q \<Rightarrow> ('u, 'r) eff) \<Rightarrow> 'r serializer \<Rightarrow> dds_writer_env \<Rightarrow>
     't \<Rightarrow> 'u service_state \<Rightarrow> (nat result \<times> ('t, 'u service_state) take_state) option" where
  "service_dispatch tk deser cb ser we q st = reader_take tk (service_request deser cb ser we) q st"


section \<open>Client\<close>

record ('r, 'u) pending =
  pd_on_response :: "('r \<Rightarrow> ('u, unit) eff) option"
  pd_sync_promise :: "nat option"

record ('r, 'u) client =
  cl_ros_service :: string
  cl_client_id :: "64 word"
  cl_next_sequence :: "64 word"
  cl_pending :: "(64 word, ('r, 'u) pending) omap"
  cl_requests :: wire
  cl_promises :: "(nat, 'r option) omap"
  cl_user :: 'u
  cl_log :: "rcl_error list"

text \<open>The two draws of \<^verbatim>\<open>std::random_device\<close> (32 bits each) make the identifier.\<close>

definition client_id_of :: "32 word \<Rightarrow> 32 word \<Rightarrow> 64 word" where
  "client_id_of hi lo = or (push_bit 32 (ucast hi)) (ucast lo)"

definition client_init :: "string \<Rightarrow> 32 word \<Rightarrow> 32 word \<Rightarrow> 'u \<Rightarrow> ('r, 'u) client" where
  "client_init ros_service hi lo u =
     \<lparr>cl_ros_service = ros_service, cl_client_id = client_id_of hi lo, cl_next_sequence = 0,
      cl_pending = [], cl_requests = [], cl_promises = [], cl_user = u, cl_log = []\<rparr>"

definition client_ctor ::
    "string \<Rightarrow> qos \<Rightarrow> string \<Rightarrow> string \<Rightarrow> writer_calls \<Rightarrow> reader_calls \<Rightarrow> (writer \<times> reader) dds" where
  "client_ctor ros_service q request_name response_name wc rc =
     ebind (elift (ros_to_dds_request_topic_name ros_service)) (\<lambda>request_topic.
     ebind (writer_ctor request_topic request_name q wc) (\<lambda>wr.
     ebind (ecatch (ebind (elift (ros_to_dds_reply_topic_name ros_service)) (\<lambda>reply_topic.
                      reader_ctor reply_topic response_name q rc))
              (\<lambda>e. ebind (writer_dtor wr) (\<lambda>_. ethrow e))) (\<lambda>rd.
     ereturn (wr, rd))))"

definition service_is_ready :: "int \<Rightarrow> nat \<Rightarrow> bool" where
  "service_is_ready rc current_count = (writer_count rc current_count > 0)"

definition wait_for_service :: "'s poll_env \<Rightarrow> int \<Rightarrow> 's \<Rightarrow> (bool result \<times> 's) option" where
  "wait_for_service pe timeout s =
     (case pe_now pe s of (t, s1) \<Rightarrow>
        if \<not> in_int64 (t + timeout) then Some (Inl (UndefinedBehaviour ''deadline overflow''), s1)
        else map_option (\<lambda>(b, s'). (Inr b, s')) (poll_until pe (t + timeout) s1))"

definition cl_write :: "(wire, 'a) eff \<Rightarrow> (('r, 'u) client, 'a) eff" where
  "cl_write f c = (case f (cl_requests c) of (r, ws) \<Rightarrow> (r, c\<lparr>cl_requests := ws\<rparr>))"

definition erase_pending :: "64 word \<Rightarrow> ('r, 'u) client \<Rightarrow> ('r, 'u) client" where
  "erase_pending sq c = c\<lparr>cl_pending := om_erase sq (cl_pending c)\<rparr>"

definition send_request ::
    "'q serializer \<Rightarrow> dds_writer_env \<Rightarrow> 'q \<Rightarrow> ('r \<Rightarrow> ('u, unit) eff) option \<Rightarrow> nat option \<Rightarrow>
     (('r, 'u) client, 64 word) eff" where
  "send_request ser we request on_response sync_promise c =
     (let sq = cl_next_sequence c + 1;
          c1 = c\<lparr>cl_next_sequence := sq,
                 cl_pending := om_upd sq \<lparr>pd_on_response = on_response, pd_sync_promise = sync_promise\<rparr>
                                 (cl_pending c)\<rparr>;
          h = \<lparr>h_client_id = cl_client_id c, h_sequence = sq\<rparr>
      in ebind (cl_write (writer_write we (payload (ser request (write_service_header h cdr_writer_init))))) (\<lambda>ok.
           if ok then ereturn sq
           else ebind (emodify (erase_pending sq)) (\<lambda>_.
             ethrow (InternalError (''failed to send request on '' @ cl_ros_service c)))) c1)"

definition async_send_request ::
    "'q serializer \<Rightarrow> dds_writer_env \<Rightarrow> 'q \<Rightarrow> ('r \<Rightarrow> ('u, unit) eff) option \<Rightarrow>
     (('r, 'u) client, 64 word) eff" where
  "async_send_request ser we request on_response = send_request ser we request on_response None"

text \<open>\<^verbatim>\<open>std::promise::set_value\<close> through the raw pointer kept in the table.\<close>

definition promise_set_value :: "nat \<Rightarrow> 'r \<Rightarrow> (('r, 'u) client, unit) eff" where
  "promise_set_value p v c =
     (case om_find (cl_promises c) p of
        None \<Rightarrow> (Inl (UndefinedBehaviour ''set_value on a destroyed promise''), c)
      | Some (Some _) \<Rightarrow> (Inl (OtherException ''Promise already satisfied''), c)
      | Some None \<Rightarrow> (Inr (), c\<lparr>cl_promises := om_upd p (Some v) (cl_promises c)\<rparr>))"

definition promise_create :: "nat \<Rightarrow> ('r, 'u) client \<Rightarrow> ('r, 'u) client" where
  "promise_create p c = c\<lparr>cl_promises := om_upd p None (cl_promises c)\<rparr>"

definition promise_destroy :: "nat \<Rightarrow> ('r, 'u) client \<Rightarrow> ('r, 'u) client" where
  "promise_destroy p c = c\<lparr>cl_promises := om_erase p (cl_promises c)\<rparr>"

definition cl_run :: "('u, 'a) eff \<Rightarrow> (('r, 'u) client, 'a) eff" where
  "cl_run f c = (case f (cl_user c) of (r, u) \<Rightarrow> (r, c\<lparr>cl_user := u\<rparr>))"

text \<open>The part of \<^verbatim>\<open>dispatch\<close> up to the end of the critical section: decode the reply and move the
  matching entry out of the table.\<close>

definition client_receive ::
    "'r deserializer \<Rightarrow> byte list \<Rightarrow> (('r, 'u) client, (('r, 'u) pending \<times> 'r) option) eff" where
  "client_receive deser pl c =
     ebind (elift (cdr_reader_init pl (length pl))) (\<lambda>r.
     ebind (elift (read_service_header r)) (\<lambda>(h, r1).
       if h_client_id h \<noteq> cl_client_id c then ereturn None
       else ebind (elift (deser r1)) (\<lambda>(resp, _).
         case resp of
           None \<Rightarrow> ereturn None
         | Some v \<Rightarrow>
             (case om_find (cl_pending c) (h_sequence h) of
                None \<Rightarrow> ereturn None
              | Some p \<Rightarrow>
                  ebind (emodify (erase_pending (h_sequence h))) (\<lambda>_. ereturn (Some (p, v))))))) c"

text \<open>The part after it: complete the promise and run the callback.\<close>

definition client_complete :: "('r, 'u) pending \<Rightarrow> 'r \<Rightarrow> (('r, 'u) client, unit) eff" where
  "client_complete p v =
     ebind (case pd_sync_promise p of Some a \<Rightarrow> promise_set_value a v | None \<Rightarrow> ereturn ()) (\<lambda>_.
       case pd_on_response p of Some f \<Rightarrow> cl_run (f v) | None \<Rightarrow> ereturn ())"

definition cl_log_error :: "rcl_error \<Rightarrow> (('r, 'u) client, unit) eff" where
  "cl_log_error e = emodify (\<lambda>c. c\<lparr>cl_log := cl_log c @ [e]\<rparr>)"

definition client_response :: "'r deserializer \<Rightarrow> byte list \<Rightarrow> (('r, 'u) client, unit) eff" where
  "client_response deser pl =
     ecatch
       (ebind (client_receive deser pl) (\<lambda>x.
          case x of None \<Rightarrow> ereturn () | Some (p, v) \<Rightarrow> client_complete p v))
       cl_log_error"

definition client_dispatch ::
    "'t takecdr \<Rightarrow> 'r deserializer \<Rightarrow> 't \<Rightarrow> ('r, 'u) client \<Rightarrow>
     (nat result \<times> ('t, ('r, 'u) client) take_state) option" where
  "client_dispatch tk deser q c = reader_take tk (client_response deser) q c"

text \<open>
  \<^verbatim>\<open>Client::call\<close>.  \<open>p\<close> is the address of the promise on the caller's stack, \<open>wait\<close> what the other
  threads do to the client while the caller sits in \<^verbatim>\<open>future.wait_for(timeout)\<close>.
\<close>

definition call_timeout :: "nat \<Rightarrow> 64 word \<Rightarrow> (('r, 'u) client, 'r) eff" where
  "call_timeout p sq c =
     (Inl (WaitTimeout (''timeout waiting for response from '' @ cl_ros_service c)),
      promise_destroy p (erase_pending sq c))"

definition client_call ::
    "'q serializer \<Rightarrow> dds_writer_env \<Rightarrow> nat \<Rightarrow> (('r, 'u) client \<Rightarrow> ('r, 'u) client) \<Rightarrow> 'q \<Rightarrow>
     (('r, 'u) client, 'r) eff" where
  "client_call ser we p wait request c =
     (case send_request ser we request None (Some p) (promise_create p c) of
        (Inl e, c1) \<Rightarrow> (Inl e, promise_destroy p c1)
      | (Inr sq, c1) \<Rightarrow>
          let c2 = wait c1 in
          (case om_find (cl_promises c2) p of
             Some (Some v) \<Rightarrow> (Inr v, promise_destroy p c2)
           | _ \<Rightarrow> call_timeout p sq c2))"

section \<open>The header as a codec\<close>

text \<open>Two codecs in a row: the second continues where the first one stopped.\<close>

definition ser_pair :: "'a serializer \<Rightarrow> 'b serializer \<Rightarrow> ('a \<times> 'b) serializer" where
  "ser_pair s1 s2 = (\<lambda>(a, b) w. s2 b (s1 a w))"

definition deser_pair :: "'a deserializer \<Rightarrow> 'b deserializer \<Rightarrow> ('a \<times> 'b) deserializer" where
  "deser_pair d1 d2 r =
     rbind (d1 r) (\<lambda>(x, r1). case x of
         None \<Rightarrow> Inr (None, r1)
       | Some a \<Rightarrow> rbind (d2 r1) (\<lambda>(y, r2). Inr (map_option (Pair a) y, r2)))"

lemma pair_codec:
  assumes "cdr_codec s1 d1 f1" "cdr_codec s2 d2 f2"
  shows "cdr_codec (ser_pair s1 s2) (deser_pair d1 d2) (\<lambda>(a, b). f1 a \<and> f2 b)"
proof
  fix p :: "'a \<times> 'b" and w :: cdr_writer and rest :: "byte list"
  obtain a b where p: "p = (a, b)" by (cases p)
  obtain e1 where e1: "w_buf (s1 a w) = w_buf w @ e1"
    using cdr_codec.ser_extends [OF assms(1)] by blast
  obtain e2 where e2: "w_buf (s2 b (s1 a w)) = w_buf (s1 a w) @ e2"
    using cdr_codec.ser_extends [OF assms(2)] by blast
  show "\<exists>ext. w_buf (ser_pair s1 s2 p w) = w_buf w @ ext"
    using e1 e2 by (simp add: ser_pair_def p)
  assume w: "writer_ok w" and "case p of (a, b) \<Rightarrow> f1 a \<and> f2 b"
  then have fits: "f1 a" "f2 b" by (simp_all add: p)
  have "d1 (reader_at (w_buf (s1 a w) @ e2 @ rest) (length (w_buf w))) =
      Inr (Some a, reader_at (w_buf (s1 a w) @ e2 @ rest) (length (w_buf (s1 a w))))"
    by (rule cdr_codec.deser_ser [OF assms(1) w fits(1)])
  moreover have "d2 (reader_at (w_buf (s2 b (s1 a w)) @ rest) (length (w_buf (s1 a w)))) =
      Inr (Some b, reader_at (w_buf (s2 b (s1 a w)) @ rest) (length (w_buf (s2 b (s1 a w)))))"
    by (rule cdr_codec.deser_ser [OF assms(2) cdr_codec.ser_ok [OF assms(1) w] fits(2)])
  ultimately show "deser_pair d1 d2 (reader_at (w_buf (ser_pair s1 s2 p w) @ rest) (length (w_buf w))) =
      Inr (Some p, reader_at (w_buf (ser_pair s1 s2 p w) @ rest) (length (w_buf (ser_pair s1 s2 p w))))"
    by (simp add: p ser_pair_def deser_pair_def e2)
qed

lemmas u64_pair_codec =
  pair_codec [OF uint64_codec.cdr_codec_axioms int64_codec.cdr_codec_axioms]

lemma write_service_header_pair:
  "write_service_header h = ser_pair write_uint64 write_int64 (h_client_id h, h_sequence h)"
  by (simp add: write_service_header_def ser_pair_def fun_eq_iff)

lemma read_service_header_pair:
  assumes "deser_pair (then_true read_uint64) (then_true read_int64) r = Inr (Some (cid, sq), r')"
  shows "read_service_header r = Inr (\<lparr>h_client_id = cid, h_sequence = sq\<rparr>, r')"
  using assms
  by (auto simp: deser_pair_def then_true_def read_service_header_def rbind_eq_Inr_iff)

interpretation service_header_codec:
  cdr_codec write_service_header "then_true read_service_header" "\<lambda>_. True"
proof
  fix h :: service_header and w :: cdr_writer and rest :: "byte list"
  show "\<exists>ext. w_buf (write_service_header h w) = w_buf w @ ext"
    unfolding write_service_header_pair by (rule cdr_codec.ser_extends [OF u64_pair_codec])
  assume "writer_ok w"
  from read_service_header_pair [OF cdr_codec.deser_ser [OF u64_pair_codec this, of "(h_client_id h, h_sequence h)" rest]]
  show "then_true read_service_header (reader_at (w_buf (write_service_header h w) @ rest) (length (w_buf w))) =
      Inr (Some h, reader_at (w_buf (write_service_header h w) @ rest)
        (length (w_buf (write_service_header h w))))"
    unfolding write_service_header_pair by (simp add: then_true_def)
qed

text \<open>A framed message as it travels: header, body, padding.\<close>

definition frame :: "'m serializer \<Rightarrow> service_header \<Rightarrow> 'm \<Rightarrow> byte list" where
  "frame ser h m = payload (ser m (write_service_header h cdr_writer_init))"

definition frame_wire :: "'m serializer \<Rightarrow> service_header \<Rightarrow> 'm \<Rightarrow> byte list" where
  "frame_wire ser h m = frame ser h m @ replicate (raw_pad (length (frame ser h m))) 0"

lemma frame_wire_read:
  assumes "cdr_codec ser deser fits" "fits m"
  shows "\<exists>r r1 r2. cdr_reader_init (frame_wire ser h m) (length (frame_wire ser h m)) = Inr r \<and>
    read_service_header r = Inr (h, r1) \<and> deser r1 = Inr (Some m, r2)"
proof -
  note codec = pair_codec [OF service_header_codec.cdr_codec_axioms assms(1)]
  have "rbind (cdr_reader_of_vector (frame_wire ser h m))
      (deser_pair (then_true read_service_header) deser) =
      Inr (Some (h, m), reader_at (frame_wire ser h m) (length (frame ser h m)))"
    using cdr_codec.deser_payload [OF codec, of "(h, m)" "replicate (raw_pad (length (frame ser h m))) 0"]
      assms(2)
    by (simp add: ser_pair_def frame_wire_def frame_def)
  then show ?thesis
    by (auto simp: rbind_eq_Inr_iff cdr_reader_of_vector_def deser_pair_def then_true_def
        split: option.splits)
qed

lemma writer_write_frame:
  "write_ready we (frame ser h m) \<Longrightarrow>
   writer_write we (payload (ser m (write_service_header h cdr_writer_init))) ws =
     (Inr True, ws @ [frame_wire ser h m])"
  using writer_write_ready [of we "frame ser h m" ws] by (simp add: frame_wire_def frame_def)


section \<open>One call\<close>

lemma send_request_ok:
  assumes "write_ready we (frame ser \<lparr>h_client_id = cl_client_id c, h_sequence = cl_next_sequence c + 1\<rparr> req)"
  shows "send_request ser we req f p c =
    (Inr (cl_next_sequence c + 1),
     c\<lparr>cl_next_sequence := cl_next_sequence c + 1,
       cl_pending := om_upd (cl_next_sequence c + 1) \<lparr>pd_on_response = f, pd_sync_promise = p\<rparr> (cl_pending c),
       cl_requests := cl_requests c @
         [frame_wire ser \<lparr>h_client_id = cl_client_id c, h_sequence = cl_next_sequence c + 1\<rparr> req]\<rparr>)"
  by (simp add: send_request_def Let_def ebind_def cl_write_def writer_write_frame [OF assms])

lemma send_request_cases:
  "(\<exists>ws. send_request ser we req f p c =
     (Inr (cl_next_sequence c + 1),
      c\<lparr>cl_next_sequence := cl_next_sequence c + 1,
        cl_pending := om_upd (cl_next_sequence c + 1) \<lparr>pd_on_response = f, pd_sync_promise = p\<rparr> (cl_pending c),
        cl_requests := ws\<rparr>)) \<or>
   send_request ser we req f p c =
     (Inl (InternalError (''failed to send request on '' @ cl_ros_service c)),
      c\<lparr>cl_next_sequence := cl_next_sequence c + 1,
        cl_pending := om_erase (cl_next_sequence c + 1)
          (om_upd (cl_next_sequence c + 1) \<lparr>pd_on_response = f, pd_sync_promise = p\<rparr> (cl_pending c))\<rparr>)"
  using writer_write_cases
    [of we "payload (ser req (write_service_header
        \<lparr>h_client_id = cl_client_id c, h_sequence = cl_next_sequence c + 1\<rparr> cdr_writer_init))" "cl_requests c"]
  by (auto simp: send_request_def Let_def ebind_def cl_write_def erase_pending_def)

lemma service_request_ok:
  assumes "cdr_codec ser_q deser_q fq" "fq req" "cb req (sv_user sv) = (Inr resp, u)"
    and "write_ready we (frame ser_r h resp)"
  shows "service_request deser_q cb ser_r we (frame_wire ser_q h req) sv =
    (Inr (), sv\<lparr>sv_user := u, sv_replies := sv_replies sv @ [frame_wire ser_r h resp]\<rparr>)"
proof -
  obtain r r1 r2 where "cdr_reader_init (frame_wire ser_q h req) (length (frame_wire ser_q h req)) = Inr r"
    "read_service_header r = Inr (h, r1)" "deser_q r1 = Inr (Some req, r2)"
    using frame_wire_read [OF assms(1,2)] by blast
  then show ?thesis
    by (simp add: service_request_def ecatch_def ebind_def sv_run_def sv_reply_def assms(3)
        writer_write_frame [OF assms(4)])
qed

lemma client_receive_frame:
  assumes "cdr_codec ser deser fits" "fits v"
  shows "client_receive deser (frame_wire ser h v) c =
    (if h_client_id h \<noteq> cl_client_id c then (Inr None, c)
     else case om_find (cl_pending c) (h_sequence h) of
         None \<Rightarrow> (Inr None, c)
       | Some p \<Rightarrow> (Inr (Some (p, v)), erase_pending (h_sequence h) c))"
proof -
  obtain r r1 r2 where "cdr_reader_init (frame_wire ser h v) (length (frame_wire ser h v)) = Inr r"
    "read_service_header r = Inr (h, r1)" "deser r1 = Inr (Some v, r2)"
    using frame_wire_read [OF assms] by blast
  then show ?thesis by (simp add: client_receive_def ebind_def split: option.splits)
qed

lemma client_response_frame:
  assumes "cdr_codec ser deser fits" "fits v"
  shows "client_response deser (frame_wire ser h v) c =
    (if h_client_id h \<noteq> cl_client_id c then (Inr (), c)
     else case om_find (cl_pending c) (h_sequence h) of
         None \<Rightarrow> (Inr (), c)
       | Some p \<Rightarrow> ecatch (client_complete p v) cl_log_error (erase_pending (h_sequence h) c))"
  by (simp add: client_response_def ecatch_def ebind_def client_receive_frame [OF assms]
      split: option.splits)

text \<open>C2: End to end on a service: the request a client sends is answered by the server's handler, and
  the reply, when the client dispatches it, fulfils the caller's promise with the handler's result,
  removes exactly the entry of this call from the table and logs no error.\<close>

theorem rpc_roundtrip:
  assumes "cdr_codec ser_q deser_q fq" "fq req" "cdr_codec ser_r deser_r fr" "fr resp"
    and "cb req (sv_user sv) = (Inr resp, u)"
    and "h = \<lparr>h_client_id = cl_client_id c, h_sequence = cl_next_sequence c + 1\<rparr>"
    and "write_ready we (frame ser_q h req)" "write_ready we' (frame ser_r h resp)"
    and "om_find (cl_promises c) p = Some None"
  shows "\<exists>sq rq rp c1 c2 sv1.
    send_request ser_q we req None (Some p) c = (Inr sq, c1) \<and> cl_requests c1 = cl_requests c @ [rq] \<and>
    service_request deser_q cb ser_r we' rq sv = (Inr (), sv1) \<and>
    sv_replies sv1 = sv_replies sv @ [rp] \<and> sv_user sv1 = u \<and> sv_log sv1 = sv_log sv \<and>
    client_response deser_r rp c1 = (Inr (), c2) \<and>
    om_find (cl_promises c2) p = Some (Some resp) \<and> cl_log c2 = cl_log c \<and>
    cl_pending c2 = om_erase sq (om_upd sq \<lparr>pd_on_response = None, pd_sync_promise = Some p\<rparr> (cl_pending c))"
proof -
  note h = assms(6)
  show ?thesis
    using send_request_ok [of we ser_q c req None "Some p"] assms(7)
      service_request_ok [where cb = cb, OF assms(1,2,5,8)] assms(9)
    by (simp add: h client_response_frame [OF assms(3,4)] ecatch_def client_complete_def ebind_def
        promise_set_value_def erase_pending_def)
qed

definition demo_client :: "(64 word, unit) client" where
  "demo_client = promise_create 0 (client_init ''/add'' 1 2 ())"

theorem rpc_roundtrip_witness:
  "\<exists>sq rq rp c1 c2 sv1.
    send_request write_string demo_writer_env ''ping'' None (Some 0) demo_client = (Inr sq, c1) \<and>
    cl_requests c1 = cl_requests demo_client @ [rq] \<and>
    service_request (then_true read_string) (\<lambda>q u. (Inr (word_of_nat (length q)), u + 1)) write_uint64
      demo_writer_env rq \<lparr>sv_user = (0 :: nat), sv_replies = [], sv_log = []\<rparr> = (Inr (), sv1) \<and>
    sv_replies sv1 = [] @ [rp] \<and> sv_user sv1 = 1 \<and> sv_log sv1 = [] \<and>
    client_response (then_true read_uint64) rp c1 = (Inr (), c2) \<and>
    om_find (cl_promises c2) 0 = Some (Some 4) \<and> cl_log c2 = cl_log demo_client \<and>
    cl_pending c2 = om_erase sq (om_upd sq \<lparr>pd_on_response = None, pd_sync_promise = Some 0\<rparr>
      (cl_pending demo_client))"
  using rpc_roundtrip
    [OF string_codec.cdr_codec_axioms _ uint64_codec.cdr_codec_axioms,
      where req = "''ping''" and resp = 4 and u = 1 and p = 0 and c = demo_client
        and cb = "\<lambda>q u. (Inr (word_of_nat (length q)), u + 1)"
        and sv = "\<lparr>sv_user = (0 :: nat), sv_replies = [], sv_log = []\<rparr>"
        and we = demo_writer_env and we' = demo_writer_env,
      OF _ _ _ refl]
  by (simp add: string_fits_def demo_client_def promise_create_def)

lemma promise_set_value_frame:
  "cl_pending (snd (promise_set_value a v c)) = cl_pending c"
  "cl_client_id (snd (promise_set_value a v c)) = cl_client_id c"
  by (auto simp: promise_set_value_def split: option.splits)

lemma client_complete_frame:
  "cl_pending (snd (client_complete p v c)) = cl_pending c"
  "cl_client_id (snd (client_complete p v c)) = cl_client_id c"
  using promise_set_value_frame [of _ v c]
  by (auto simp: client_complete_def ebind_def cl_run_def split: option.splits prod.splits sum.splits)
    (metis snd_conv)+

lemma ecatch_log_frame:
  "cl_pending (snd (ecatch m cl_log_error c)) = cl_pending (snd (m c))"
  "cl_client_id (snd (ecatch m cl_log_error c)) = cl_client_id (snd (m c))"
  by (auto simp: ecatch_def cl_log_error_def split: prod.splits sum.splits)

text \<open>C23: Replies are correlated and completed at most once: a reply addressed to another client, or with a
  sequence number that is not pending, changes nothing; a matching reply removes its entry, so a
  duplicate of it changes nothing any more.\<close>

theorem client_reply_at_most_once:
  assumes "cdr_codec ser deser fits" "fits v"
    and "client_response deser (frame_wire ser h v) c = (r, c1)"
  shows "client_response deser (frame_wire ser h v) c1 = (Inr (), c1) \<and>
    (h_client_id h \<noteq> cl_client_id c \<or> om_find (cl_pending c) (h_sequence h) = None \<longrightarrow> c1 = c) \<and>
    (\<forall>k. k \<noteq> h_sequence h \<longrightarrow> om_find (cl_pending c1) k = om_find (cl_pending c) k)"
proof (cases "h_client_id h \<noteq> cl_client_id c \<or> om_find (cl_pending c) (h_sequence h) = None")
  case True
  then have noop: "client_response deser (frame_wire ser h v) c = (Inr (), c)"
    by (auto simp: client_response_frame [OF assms(1,2)])
  with assms(3) have "c1 = c" by simp
  with noop show ?thesis by simp
next
  case False
  then obtain p where p: "om_find (cl_pending c) (h_sequence h) = Some p" "h_client_id h = cl_client_id c"
    by blast
  let ?c = "erase_pending (h_sequence h) c"
  have "c1 = snd (ecatch (client_complete p v) cl_log_error ?c)"
    using assms(3) p by (simp add: client_response_frame [OF assms(1,2)])
  then have "cl_pending c1 = om_erase (h_sequence h) (cl_pending c)" "cl_client_id c1 = cl_client_id c"
    by (simp_all add: ecatch_log_frame client_complete_frame erase_pending_def)
  with p show ?thesis by (simp add: client_response_frame [OF assms(1,2)])
qed

theorem client_reply_at_most_once_witness:
  "client_response (then_true read_uint64)
     (frame_wire write_uint64 \<lparr>h_client_id = 99, h_sequence = 1\<rparr> 4) demo_client = (Inr (), demo_client)"
proof -
  obtain r c1 where rc: "client_response (then_true read_uint64)
     (frame_wire write_uint64 \<lparr>h_client_id = 99, h_sequence = 1\<rparr> 4) demo_client = (r, c1)"
    by fastforce
  have "om_find (cl_pending demo_client) 1 = None"
    by (simp add: demo_client_def promise_create_def client_init_def)
  then show ?thesis
    using client_reply_at_most_once [OF uint64_codec.cdr_codec_axioms _ rc] by auto
qed

text \<open>\<^verbatim>\<open>call\<close> cleans up on every path, whatever the other threads do meanwhile: when it returns, its
  promise is gone; when it throws, the table has no entry for its sequence number, and the error is
  a failed write or the timeout; when it returns a value, the promise held that value.\<close>

theorem client_call_cleans_up:
  assumes "client_call ser we p wait req c = (r, c')"
    and "wait = (\<lambda>x. w)" "cl_ros_service w = cl_ros_service c"
  shows "om_find (cl_promises c') p = None \<and>
    (case r of
       Inr v \<Rightarrow> om_find (cl_promises w) p = Some (Some v) \<and> cl_pending c' = cl_pending w
     | Inl e \<Rightarrow> om_find (cl_pending c') (cl_next_sequence c + 1) = None \<and>
         e \<in> {InternalError (''failed to send request on '' @ cl_ros_service c),
              WaitTimeout (''timeout waiting for response from '' @ cl_ros_service c)})"
  using assms send_request_cases [of ser we req None "Some p" "promise_create p c"]
  by (auto simp: client_call_def promise_create_def promise_destroy_def call_timeout_def
      erase_pending_def split: option.splits)

theorem client_call_cleans_up_witness:
  "fst (client_call write_string demo_writer_env 0 (\<lambda>x. demo_client) ''ping'' demo_client) =
     Inl (WaitTimeout ''timeout waiting for response from /add'')"
proof -
  obtain r c' where rc: "client_call write_string demo_writer_env 0 (\<lambda>x. demo_client) ''ping'' demo_client = (r, c')"
    by fastforce
  have p: "om_find (cl_promises demo_client) 0 = Some None" and s: "cl_ros_service demo_client = ''/add''"
    by (simp_all add: demo_client_def promise_create_def client_init_def om_find_def)
  have sent: "\<exists>sq c1. send_request write_string demo_writer_env ''ping'' None (Some 0)
      (promise_create 0 demo_client) = (Inr sq, c1)"
    by (simp add: send_request_ok)
  have r: "r = Inl (WaitTimeout ''timeout waiting for response from /add'')"
    using rc sent p s by (auto simp: client_call_def call_timeout_def)
  show ?thesis using client_call_cleans_up [OF rc refl refl] rc r p by simp
qed

section \<open>Calls and dispatch on different threads\<close>

text \<open>
  Threads in \<^verbatim>\<open>call\<close> and one executor thread in \<^verbatim>\<open>dispatch\<close> interleave at the borders of the critical
  sections.  \<open>cf_waiting\<close> holds the callers inside \<^verbatim>\<open>wait_for\<close> (promise address and sequence
  number), \<open>cf_inflight\<close> the entry the executor has moved out of the table and not completed yet,
  \<open>cf_ub\<close> says that undefined behaviour has happened.
\<close>

record ('r, 'u) client_conf =
  cf_client :: "('r, 'u) client"
  cf_waiting :: "(nat \<times> 64 word) list"
  cf_inflight :: "(('r, 'u) pending \<times> 'r) option"
  cf_ub :: bool

definition caught_ub :: "'a result \<Rightarrow> bool" where
  "caught_ub r = (case r of Inl e \<Rightarrow> is_ub e | Inr _ \<Rightarrow> False)"

definition safe_callback :: "('r \<Rightarrow> ('u, unit) eff) option \<Rightarrow> bool" where
  "safe_callback f \<longleftrightarrow>
     (case f of None \<Rightarrow> True | Some g \<Rightarrow> (\<forall>v u. \<not> caught_ub (fst (g v u))))"

text \<open>\<open>may_expire cf p\<close> restricts the timeouts that can happen: none for the real program, and for the
  repaired one those of callers whose entry is not in the hands of the executor.\<close>

inductive client_step ::
    "'q serializer \<Rightarrow> dds_writer_env \<Rightarrow> 'r deserializer \<Rightarrow>
     (('r, 'u) client_conf \<Rightarrow> nat \<Rightarrow> bool) \<Rightarrow> ('r, 'u) client_conf \<Rightarrow> ('r, 'u) client_conf \<Rightarrow> bool"
  for ser :: "'q serializer" and we :: dds_writer_env and deser :: "'r deserializer"
    and may_expire :: "('r, 'u) client_conf \<Rightarrow> nat \<Rightarrow> bool" where
  step_async: "async_send_request ser we req f (cf_client cf) = (r, c') \<Longrightarrow> safe_callback f \<Longrightarrow>
     client_step ser we deser may_expire cf (cf\<lparr>cf_client := c'\<rparr>)"
| step_call: "om_find (cl_promises (cf_client cf)) p = None \<Longrightarrow>
     send_request ser we req None (Some p) (promise_create p (cf_client cf)) = (Inr sq, c') \<Longrightarrow>
     client_step ser we deser may_expire cf (cf\<lparr>cf_client := c', cf_waiting := (p, sq) # cf_waiting cf\<rparr>)"
| step_call_fails: "om_find (cl_promises (cf_client cf)) p = None \<Longrightarrow>
     send_request ser we req None (Some p) (promise_create p (cf_client cf)) = (Inl e, c') \<Longrightarrow>
     client_step ser we deser may_expire cf (cf\<lparr>cf_client := promise_destroy p c'\<rparr>)"
| step_receive: "cf_inflight cf = None \<Longrightarrow>
     client_receive deser pl (cf_client cf) = (Inr x, c') \<Longrightarrow>
     client_step ser we deser may_expire cf (cf\<lparr>cf_client := c', cf_inflight := x\<rparr>)"
| step_complete: "cf_inflight cf = Some (pd, v) \<Longrightarrow>
     client_complete pd v (cf_client cf) = (r, c') \<Longrightarrow>
     client_step ser we deser may_expire cf
       (cf\<lparr>cf_client := c', cf_inflight := None, cf_ub := cf_ub cf \<or> caught_ub r\<rparr>)"
| step_return: "(p, sq) \<in> set (cf_waiting cf) \<Longrightarrow>
     om_find (cl_promises (cf_client cf)) p = Some (Some v) \<Longrightarrow>
     client_step ser we deser may_expire cf
       (cf\<lparr>cf_client := promise_destroy p (cf_client cf), cf_waiting := removeAll (p, sq) (cf_waiting cf)\<rparr>)"
| step_timeout: "(p, sq) \<in> set (cf_waiting cf) \<Longrightarrow>
     om_find (cl_promises (cf_client cf)) p = Some None \<Longrightarrow> may_expire cf p \<Longrightarrow>
     client_step ser we deser may_expire cf
       (cf\<lparr>cf_client := snd (call_timeout p sq (cf_client cf)),
           cf_waiting := removeAll (p, sq) (cf_waiting cf)\<rparr>)"

inductive_cases client_stepE: "client_step ser we deser may_expire cf cf'"

definition client_conf_init :: "('r, 'u) client_conf \<Rightarrow> bool" where
  "client_conf_init cf \<longleftrightarrow>
     cl_pending (cf_client cf) = [] \<and> cl_promises (cf_client cf) = [] \<and>
     cf_waiting cf = [] \<and> cf_inflight cf = None \<and> \<not> cf_ub cf"

definition any_time :: "('r, 'u) client_conf \<Rightarrow> nat \<Rightarrow> bool" where
  "any_time cf p = True"

text \<open>The timeouts that leave an entry alone once the executor has taken it.\<close>

definition not_inflight :: "('r, 'u) client_conf \<Rightarrow> nat \<Rightarrow> bool" where
  "not_inflight cf p \<longleftrightarrow>
     (case cf_inflight cf of None \<Rightarrow> True | Some (pd, v) \<Rightarrow> pd_sync_promise pd \<noteq> Some p)"

definition client_conf_inv :: "('r, 'u) client_conf \<Rightarrow> bool" where
  "client_conf_inv cf \<longleftrightarrow>
     distinct (map fst (cf_waiting cf)) \<and> \<not> cf_ub cf \<and>
     (\<forall>p k. (p, k) \<in> set (cf_waiting cf) \<longrightarrow> om_find (cl_promises (cf_client cf)) p \<noteq> None) \<and>
     (\<forall>k pd. om_find (cl_pending (cf_client cf)) k = Some pd \<longrightarrow> safe_callback (pd_on_response pd) \<and>
        (\<forall>p. pd_sync_promise pd = Some p \<longrightarrow>
           (p, k) \<in> set (cf_waiting cf) \<and> om_find (cl_promises (cf_client cf)) p = Some None)) \<and>
     (\<forall>pd v. cf_inflight cf = Some (pd, v) \<longrightarrow> safe_callback (pd_on_response pd) \<and>
        (\<forall>p. pd_sync_promise pd = Some p \<longrightarrow>
           om_find (cl_promises (cf_client cf)) p = Some None \<and>
           (\<forall>k pd'. om_find (cl_pending (cf_client cf)) k = Some pd' \<longrightarrow> pd_sync_promise pd' \<noteq> Some p)))"

lemma client_receive_cases:
  assumes "client_receive deser pl c = (Inr x, c')"
  shows "(x = None \<and> c' = c) \<or>
    (\<exists>k pd v. om_find (cl_pending c) k = Some pd \<and> x = Some (pd, v) \<and> c' = erase_pending k c)"
  using assms
  by (auto simp: client_receive_def ebind_def split: prod.splits sum.splits if_splits option.splits)

lemma inv_async:
  assumes "client_conf_inv cf" "async_send_request ser we req f (cf_client cf) = (r, c')" "safe_callback f"
  shows "client_conf_inv (cf\<lparr>cf_client := c'\<rparr>)"
  using assms send_request_cases [of ser we req f None "cf_client cf"]
  by (auto simp: client_conf_inv_def async_send_request_def split: if_splits)

lemma inv_call:
  assumes "client_conf_inv cf" "om_find (cl_promises (cf_client cf)) p = None"
    and "send_request ser we req None (Some p) (promise_create p (cf_client cf)) = (Inr sq, c')"
  shows "client_conf_inv (cf\<lparr>cf_client := c', cf_waiting := (p, sq) # cf_waiting cf\<rparr>)"
  using assms send_request_cases [of ser we req None "Some p" "promise_create p (cf_client cf)"]
  by (auto simp: client_conf_inv_def promise_create_def safe_callback_def split: if_splits)

lemma inv_call_fails:
  assumes "client_conf_inv cf" "om_find (cl_promises (cf_client cf)) p = None"
    and "send_request ser we req None (Some p) (promise_create p (cf_client cf)) = (Inl e, c')"
  shows "client_conf_inv (cf\<lparr>cf_client := promise_destroy p c'\<rparr>)"
  using assms send_request_cases [of ser we req None "Some p" "promise_create p (cf_client cf)"]
  by (auto simp: client_conf_inv_def promise_create_def promise_destroy_def split: if_splits)

lemma inv_receive:
  assumes inv: "client_conf_inv cf" and rcv: "client_receive deser pl (cf_client cf) = (Inr x, c')"
    and "cf_inflight cf = None"
  shows "client_conf_inv (cf\<lparr>cf_client := c', cf_inflight := x\<rparr>)"
proof -
  consider "x = None" "c' = cf_client cf"
    | k pd v where "om_find (cl_pending (cf_client cf)) k = Some pd" "x = Some (pd, v)"
      "c' = erase_pending k (cf_client cf)"
    using client_receive_cases [OF rcv] by blast
  then show ?thesis
  proof cases
    case 1
    then show ?thesis using inv assms(3) by (simp add: client_conf_inv_def)
  next
    case (2 k pd v)
    have "pd_sync_promise pd' \<noteq> Some p"
      if "om_find (cl_pending (cf_client cf)) j = Some pd'" "j \<noteq> k" "pd_sync_promise pd = Some p" for j pd' p
      using inv 2 that unfolding client_conf_inv_def by (metis eq_key_imp_eq_value)
    with inv 2 show ?thesis
      by (auto simp: client_conf_inv_def erase_pending_def split: if_splits)
  qed
qed

lemma inv_complete:
  assumes inv: "client_conf_inv cf" and fl: "cf_inflight cf = Some (pd, v)"
    and run: "client_complete pd v (cf_client cf) = (r, c')"
  shows "client_conf_inv (cf\<lparr>cf_client := c', cf_inflight := None, cf_ub := cf_ub cf \<or> caught_ub r\<rparr>)"
proof -
  have cb: "safe_callback (pd_on_response pd)" using inv fl by (simp add: client_conf_inv_def)
  show ?thesis
  proof (cases "pd_sync_promise pd")
    case None
    then show ?thesis
      using inv run cb
      by (auto simp: client_conf_inv_def client_complete_def cl_run_def safe_callback_def caught_ub_def
          split: option.splits prod.splits sum.splits) (metis fst_conv sum.simps(5))+
  next
    case (Some p)
    then have alive: "om_find (cl_promises (cf_client cf)) p = Some None"
      and free: "\<forall>k pd'. om_find (cl_pending (cf_client cf)) k = Some pd' \<longrightarrow> pd_sync_promise pd' \<noteq> Some p"
      using inv fl by (auto simp: client_conf_inv_def)
    let ?c = "(cf_client cf)\<lparr>cl_promises := om_upd p (Some v) (cl_promises (cf_client cf))\<rparr>"
    have r: "(case pd_on_response pd of Some f \<Rightarrow> cl_run (f v) | None \<Rightarrow> ereturn ()) ?c = (r, c')"
      using run Some alive by (simp add: client_complete_def ebind_def promise_set_value_def)
    then have "\<not> caught_ub r" "cl_pending c' = cl_pending ?c" "cl_promises c' = cl_promises ?c"
      using cb by (auto simp: cl_run_def safe_callback_def caught_ub_def
          split: option.splits prod.splits sum.splits) (metis fst_conv sum.simps(5))+
    with inv free show ?thesis by (auto simp: client_conf_inv_def split: if_splits)
  qed
qed

lemma distinct_fst_removeAll:
  "distinct (map fst xs) \<Longrightarrow> distinct (map fst (removeAll x xs))"
  "distinct (map fst xs) \<Longrightarrow> (p, k) \<in> set xs \<Longrightarrow> (p, k') \<in> set xs \<Longrightarrow> k' = k"
  by (induction xs) (auto simp: image_iff)

lemma inv_return:
  assumes inv: "client_conf_inv cf" and "(p, k) \<in> set (cf_waiting cf)"
    and "om_find (cl_promises (cf_client cf)) p = Some (Some v)"
  shows "client_conf_inv (cf\<lparr>cf_client := promise_destroy p (cf_client cf),
    cf_waiting := removeAll (p, k) (cf_waiting cf)\<rparr>)"
  using assms distinct_fst_removeAll [of "cf_waiting cf"]
  unfolding client_conf_inv_def promise_destroy_def by auto

lemma inv_timeout:
  assumes inv: "client_conf_inv cf" and "(p, k) \<in> set (cf_waiting cf)"
    and "om_find (cl_promises (cf_client cf)) p = Some None" "not_inflight cf p"
  shows "client_conf_inv (cf\<lparr>cf_client := snd (call_timeout p k (cf_client cf)),
    cf_waiting := removeAll (p, k) (cf_waiting cf)\<rparr>)"
  using assms distinct_fst_removeAll [of "cf_waiting cf"]
  unfolding client_conf_inv_def promise_destroy_def call_timeout_def erase_pending_def not_inflight_def
  by (auto split: option.splits if_splits)

lemma client_conf_inv_init: "client_conf_init cf \<Longrightarrow> client_conf_inv cf"
  by (simp add: client_conf_init_def client_conf_inv_def)

lemma client_conf_inv_step:
  "client_conf_inv cf \<Longrightarrow> client_step ser we deser not_inflight cf cf' \<Longrightarrow> client_conf_inv cf'"
  by (elim client_stepE)
    (simp_all add: inv_async inv_call inv_call_fails inv_receive inv_complete inv_return inv_timeout)

interpretation ordered_calls: transition_system client_conf_init
  "client_step ser we deser not_inflight" client_conf_inv for ser we deser
  by unfold_locales (fact client_conf_inv_init, fact client_conf_inv_step)


definition race_start :: "(64 word, unit) client_conf" where
  "race_start = \<lparr>cf_client = client_init ''/add'' 1 2 (), cf_waiting = [], cf_inflight = None, cf_ub = False\<rparr>"

definition race_header :: service_header where
  "race_header = \<lparr>h_client_id = client_id_of 1 2, h_sequence = 1\<rparr>"

text \<open>The client after the call has been sent.\<close>

definition race_called :: "(64 word, unit) client_conf" where
  "race_called = race_start\<lparr>cf_client := (cf_client race_start)\<lparr>cl_next_sequence := 1,
      cl_pending := [(1, \<lparr>pd_on_response = None, pd_sync_promise = Some 0\<rparr>)],
      cl_requests := [frame_wire write_string race_header ''ping''],
      cl_promises := [(0, None)]\<rparr>, cf_waiting := [(0, 1)]\<rparr>"

definition race_taken :: "(64 word, unit) client_conf" where
  "race_taken = race_called\<lparr>cf_client := erase_pending 1 (cf_client race_called),
     cf_inflight := Some (\<lparr>pd_on_response = None, pd_sync_promise = Some 0\<rparr>, 4)\<rparr>"

lemma race_init: "client_conf_init race_start"
  by (simp add: client_conf_init_def race_start_def client_init_def)

lemma race_call: "client_step write_string demo_writer_env (then_true read_uint64) f race_start race_called"
proof -
  have "send_request write_string demo_writer_env ''ping'' None (Some 0)
      (promise_create 0 (cf_client race_start)) = (Inr 1, cf_client race_called)"
    by (subst send_request_ok)
      (simp_all add: race_start_def race_called_def client_init_def promise_create_def race_header_def)
  from step_call [OF _ this, where may_expire = f]
  have "client_step write_string demo_writer_env (then_true read_uint64) f race_start
      (race_start\<lparr>cf_client := cf_client race_called, cf_waiting := (0, 1) # cf_waiting race_start\<rparr>)"
    by (simp add: race_start_def client_init_def)
  then show ?thesis by (simp add: race_called_def race_start_def)
qed

lemma race_receive: "client_step write_string demo_writer_env (then_true read_uint64) f race_called race_taken"
proof -
  have "client_receive (then_true read_uint64) (frame_wire write_uint64 race_header 4) (cf_client race_called) =
      (Inr (Some (\<lparr>pd_on_response = None, pd_sync_promise = Some 0\<rparr>, 4)), cf_client race_taken)"
    by (simp add: client_receive_frame [OF uint64_codec.cdr_codec_axioms] race_called_def race_start_def
        race_taken_def race_header_def client_init_def om_find_Cons)
  from step_receive [OF _ this, where may_expire = f]
  have "client_step write_string demo_writer_env (then_true read_uint64) f race_called
      (race_called\<lparr>cf_client := cf_client race_taken,
        cf_inflight := Some (\<lparr>pd_on_response = None, pd_sync_promise = Some 0\<rparr>, 4)\<rparr>)"
    by (simp add: race_called_def race_start_def)
  then show ?thesis by (simp add: race_taken_def)
qed

lemma race_reach_called:
  "reach client_conf_init (client_step write_string demo_writer_env (then_true read_uint64) f) race_called"
proof (rule reach_step)
  show "client_step write_string demo_writer_env (then_true read_uint64) f race_start race_called"
    by (rule race_call)
qed (rule reach_init, rule race_init)

lemma race_reach_taken:
  "reach client_conf_init (client_step write_string demo_writer_env (then_true read_uint64) f) race_taken"
proof (rule reach_step)
  show "client_step write_string demo_writer_env (then_true read_uint64) f race_called race_taken"
    by (rule race_receive)
qed (rule race_reach_called)


text \<open>C24: The unrestricted program has the race: a call that times out after the executor has moved its
  entry out of the table, and before it calls \<^verbatim>\<open>set_value\<close>, leaves the executor with a pointer to a
  promise that no longer exists.\<close>

theorem client_call_timeout_race:
  "\<exists>cf :: (64 word, unit) client_conf. reach client_conf_init
     (client_step write_string demo_writer_env (then_true read_uint64) any_time) cf \<and> cf_ub cf"
proof -
  let ?step = "client_step write_string demo_writer_env (then_true read_uint64) any_time"
  let ?cf = "race_taken\<lparr>cf_client := snd (call_timeout 0 1 (cf_client race_taken)),
    cf_waiting := removeAll (0, 1) (cf_waiting race_taken)\<rparr>"
  have "reach client_conf_init ?step race_taken"
    by (rule race_reach_taken)
  moreover have "?step race_taken ?cf"
    by (rule step_timeout)
      (simp_all add: race_taken_def race_called_def erase_pending_def any_time_def om_find_Cons)
  ultimately have r: "reach client_conf_init ?step ?cf" by (rule reach_step)
  have fl: "cf_inflight ?cf = Some (\<lparr>pd_on_response = None, pd_sync_promise = Some 0\<rparr>, 4)"
    by (simp add: race_taken_def)
  have ub: "client_complete \<lparr>pd_on_response = None, pd_sync_promise = Some 0\<rparr> 4 (cf_client ?cf) =
      (Inl (UndefinedBehaviour ''set_value on a destroyed promise''), cf_client ?cf)"
    by (simp add: client_complete_def ebind_def promise_set_value_def call_timeout_def promise_destroy_def)
  let ?err = "Inl (UndefinedBehaviour ''set_value on a destroyed promise'') :: unit result"
  let ?last = "?cf\<lparr>cf_client := cf_client ?cf, cf_inflight := None, cf_ub := cf_ub ?cf \<or> caught_ub ?err\<rparr>"
  have "?step ?cf ?last" by (rule step_complete [OF fl ub])
  with r have "reach client_conf_init ?step ?last" by (rule reach_step)
  moreover have "cf_ub ?last" by (simp add: caught_ub_def)
  ultimately show ?thesis by blast
qed

end
