(* ===== verification/Node.thy ===== *)
theory Node
  imports Service
begin

text \<open>
  The node (\<^verbatim>\<open>node.hpp\<close>, \<^verbatim>\<open>node.cpp\<close>, \<^verbatim>\<open>node_impl.hpp\<close>): construction with its validation, the participant,
  the announcement on \<^verbatim>\<open>ros_discovery_info\<close> and the cleanup of a failed construction; the list of
  waitable entities with its epoch and change guard; the factories.

  Entities are shared pointers, compared by identity: the type \<open>'e\<close>.
\<close>

section \<open>State\<close>

record 'e node =
  n_name :: string
  n_ns :: string
  n_fq_name :: string
  n_domain_id :: "32 word"
  n_entities :: "'e list"
  n_epoch :: "64 word"
  n_guard :: bool
  n_guard_handle :: dds_entity
  n_participant :: participant
  n_discovery :: publisher

definition add_entity :: "'e \<Rightarrow> 'e node \<Rightarrow> 'e node" where
  "add_entity entity n =
     n\<lparr>n_entities := n_entities n @ [entity], n_epoch := n_epoch n + 1,
       n_guard := guard_trigger (n_guard n)\<rparr>"

definition remove_entity :: "'e \<Rightarrow> 'e node \<Rightarrow> 'e node" where
  "remove_entity entity n =
     n\<lparr>n_entities := filter (\<lambda>e. e \<noteq> entity) (n_entities n), n_epoch := n_epoch n + 1,
       n_guard := guard_trigger (n_guard n)\<rparr>"

definition entity_epoch :: "'e node \<Rightarrow> 64 word" where
  "entity_epoch n = n_epoch n"

definition entities :: "'e node \<Rightarrow> 'e list" where
  "entities n = n_entities n"

definition change_guard :: "'e node \<Rightarrow> dds_entity" where
  "change_guard n = n_guard_handle n"


section \<open>Construction\<close>

record node_entities_info =
  ni_namespace :: string
  ni_name :: string
  ni_reader_gids :: "byte list list"
  ni_writer_gids :: "byte list list"

record participant_entities_info =
  pi_gid :: "byte list"
  pi_nodes :: "node_entities_info list"

text \<open>The world a construction acts on: the context globals, the DDS handles and what the discovery
  writer has sent.\<close>

record node_world =
  nw_ctx :: ctx_globals
  nw_calls :: "dds_call list"
  nw_wire :: wire

type_synonym 'a building = "(node_world, 'a) eff"

definition on_calls :: "'a dds \<Rightarrow> 'a building" where
  "on_calls f w = (case f (nw_calls w) of (r, tr) \<Rightarrow> (r, w\<lparr>nw_calls := tr\<rparr>))"

definition on_wire :: "(wire, 'a) eff \<Rightarrow> 'a building" where
  "on_wire f w = (case f (nw_wire w) of (r, ws) \<Rightarrow> (r, w\<lparr>nw_wire := ws\<rparr>))"

definition on_ctx :: "(ctx_globals \<Rightarrow> 'a \<times> ctx_globals) \<Rightarrow> 'a building" where
  "on_ctx f w = (case f (nw_ctx w) of (x, g) \<Rightarrow> (Inr x, w\<lparr>nw_ctx := g\<rparr>))"

text \<open>What CycloneDDS and the environment answer during one construction; the serializer and the
  type name of the discovery message are generated code.\<close>

record node_env =
  ne_env :: env
  ne_guard :: dds_entity
  ne_precondition :: int
  ne_participant :: participant_calls
  ne_guid_rc :: int
  ne_guid :: "byte list"
  ne_ser :: "participant_entities_info serializer"
  ne_type_name :: string
  ne_writer :: writer_calls
  ne_we :: dds_writer_env

definition discovery_info :: "node_env \<Rightarrow> string \<Rightarrow> string \<Rightarrow> participant_entities_info" where
  "discovery_info ne ns name =
     \<lparr>pi_gid = take 16 (ne_guid ne),
      pi_nodes = [\<lparr>ni_namespace = ns, ni_name = name, ni_reader_gids = [], ni_writer_gids = []\<rparr>]\<rparr>"

definition announce_to_ros_graph :: "node_env \<Rightarrow> string \<Rightarrow> string \<Rightarrow> publisher building" where
  "announce_to_ros_graph ne ns name =
     ebind (if ne_guid_rc ne < 0 then ethrow (InternalError ''dds_get_guid failed for participant'')
            else ereturn ()) (\<lambda>_.
     ebind (on_calls (publisher_ctor ''ros_discovery_info'' (keep_last 1 (set_transient_local qos_init))
              True (ne_type_name ne) (ne_writer ne))) (\<lambda>p.
     ebind (ecatch (on_wire (publish (ne_ser ne) (ne_we ne) p (discovery_info ne ns name)))
              (\<lambda>e. ebind (on_calls (writer_dtor (p_writer p))) (\<lambda>_. ethrow e))) (\<lambda>_.
     ereturn p)))"

text \<open>Members are destroyed in reverse order of declaration when the constructor throws: the
  discovery publisher, the change guard, the participant.\<close>

definition node_ctor :: "node_env \<Rightarrow> string \<Rightarrow> string \<Rightarrow> 'e node building" where
  "node_ctor ne name namespace =
     (let ns = (if namespace = [] then ''/'' else namespace) in
      ebind (elift (make_fq_node_name ns name)) (\<lambda>fq.
      ebind (on_ctx (context_instance (ne_env ne))) (\<lambda>ctx.
      ebind (on_calls (guard_ctor (ne_guard ne))) (\<lambda>g.
      ebind (if name = [] \<or> str_find [slash] name \<noteq> None
             then ebind (on_calls (guard_dtor g)) (\<lambda>_. ethrow (InvalidArguments (''invalid node name: '' @ name)))
             else ereturn ()) (\<lambda>_.
      ebind (ecatch (on_calls (participant_ctor (ne_precondition ne) (ne_participant ne)))
               (\<lambda>e. ebind (on_calls (guard_dtor g)) (\<lambda>_. ethrow e))) (\<lambda>pp.
      ebind (ecatch (announce_to_ros_graph ne ns name)
               (\<lambda>e. ebind (on_calls (guard_dtor g)) (\<lambda>_. ebind (on_calls (participant_dtor pp)) (\<lambda>_. ethrow e)))) (\<lambda>disc.
      ereturn \<lparr>n_name = name, n_ns = ns, n_fq_name = fq, n_domain_id = c_domain_id ctx, n_entities = [],
        n_epoch = 0, n_guard = False, n_guard_handle = g, n_participant = pp, n_discovery = disc\<rparr>)))))))"

text \<open>The constructor without a namespace delegates.\<close>

definition node_ctor_name :: "node_env \<Rightarrow> string \<Rightarrow> 'e node building" where
  "node_ctor_name ne name = node_ctor ne name ''/''"

lemma node_ctor_empty_namespace: "node_ctor_name ne name = node_ctor ne name []"
  by (simp add: node_ctor_name_def node_ctor_def)

text \<open>\<^verbatim>\<open>~Node\<close>: the discovery writer, the guard and the participant (the entities belong to their holders).\<close>

definition node_dtor :: "'e node \<Rightarrow> unit dds" where
  "node_dtor n =
     ebind (writer_dtor (p_writer (n_discovery n))) (\<lambda>_.
     ebind (guard_dtor (n_guard_handle n)) (\<lambda>_.
     participant_dtor (n_participant n)))"


section \<open>Factories\<close>

text \<open>The state of a factory call: the node and the DDS handles.  \<open>wrap\<close> makes the entity object.\<close>

definition on_dds :: "'a dds \<Rightarrow> ('n \<times> dds_call list, 'a) eff" where
  "on_dds f st = (case f (snd st) of (r, tr) \<Rightarrow> (r, fst st, tr))"

definition create_publisher ::
    "string \<Rightarrow> string \<Rightarrow> qos \<Rightarrow> writer_calls \<Rightarrow> ('e node \<times> dds_call list, publisher) eff" where
  "create_publisher topic dds_name q wc st =
     ebind (elift (expand_topic_name topic (n_ns (fst st)))) (\<lambda>fqn.
       on_dds (publisher_ctor fqn q False dds_name wc)) st"

definition create_subscription ::
    "(subscription \<Rightarrow> 'e) \<Rightarrow> string \<Rightarrow> string \<Rightarrow> qos \<Rightarrow> reader_calls \<Rightarrow>
     ('e node \<times> dds_call list, subscription) eff" where
  "create_subscription wrap topic dds_name q rc st =
     ebind (elift (expand_topic_name topic (n_ns (fst st)))) (\<lambda>fqn.
     ebind (on_dds (subscription_ctor fqn q dds_name rc)) (\<lambda>s.
     ebind (emodify (map_prod (add_entity (wrap s)) id)) (\<lambda>_. ereturn s))) st"

definition create_service ::
    "(service \<Rightarrow> 'e) \<Rightarrow> string \<Rightarrow> string \<Rightarrow> string \<Rightarrow> qos \<Rightarrow> reader_calls \<Rightarrow> writer_calls \<Rightarrow>
     ('e node \<times> dds_call list, service) eff" where
  "create_service wrap service_name request_name response_name q rc wc st =
     ebind (elift (expand_topic_name service_name (n_ns (fst st)))) (\<lambda>fqn.
     ebind (on_dds (service_ctor fqn q request_name response_name rc wc)) (\<lambda>s.
     ebind (emodify (map_prod (add_entity (wrap s)) id)) (\<lambda>_. ereturn s))) st"

definition create_client ::
    "(writer \<times> reader \<Rightarrow> 'e) \<Rightarrow> string \<Rightarrow> string \<Rightarrow> string \<Rightarrow> qos \<Rightarrow> writer_calls \<Rightarrow> reader_calls \<Rightarrow>
     ('e node \<times> dds_call list, writer \<times> reader) eff" where
  "create_client wrap service_name request_name response_name q wc rc st =
     ebind (elift (expand_topic_name service_name (n_ns (fst st)))) (\<lambda>fqn.
     ebind (on_dds (client_ctor fqn q request_name response_name wc rc)) (\<lambda>c.
     ebind (emodify (map_prod (add_entity (wrap c)) id)) (\<lambda>_. ereturn c))) st"

section \<open>Entity changes are visible to executors\<close>

datatype 'e entity_change = Add 'e | Remove 'e

fun change_entity :: "'e entity_change \<Rightarrow> 'e node \<Rightarrow> 'e node" where
  "change_entity (Add e) n = add_entity e n"
| "change_entity (Remove e) n = remove_entity e n"

lemma change_entity_simps [simp]:
  "n_epoch (change_entity c n) = n_epoch n + 1"
  "n_guard (change_entity c n)"
  by (cases c; simp add: add_entity_def remove_entity_def guard_trigger_def)+

lemma fold_change_epoch: "n_epoch (fold change_entity cs n) = n_epoch n + word_of_nat (length cs)"
  by (induction cs arbitrary: n) (simp_all add: algebra_simps)

lemma fold_change_guard: "cs \<noteq> [] \<Longrightarrow> n_guard (fold change_entity cs n)"
  by (cases cs rule: rev_cases) simp_all

lemma set_fold_change_entities:
  "e \<in> set (n_entities (fold change_entity cs n)) \<longleftrightarrow>
     (case [c \<leftarrow> rev cs. c = Add e \<or> c = Remove e] of
        [] \<Rightarrow> e \<in> set (n_entities n) | c # _ \<Rightarrow> c = Add e)"
proof (induction cs rule: rev_induct)
  case (snoc c cs)
  show ?case
  proof (cases "c = Add e \<or> c = Remove e")
    case True
    then show ?thesis by (auto simp: add_entity_def remove_entity_def)
  next
    case False
    then have "e \<in> set (n_entities (change_entity c n')) \<longleftrightarrow> e \<in> set (n_entities n')" for n'
      by (cases c) (auto simp: add_entity_def remove_entity_def)
    with False snoc show ?thesis by simp
  qed
qed simp

text \<open>No change of a node's entities goes unnoticed: after any non-empty sequence of fewer than
  \<open>2^64\<close> additions and removals the epoch differs from the recorded one and the change guard is
  triggered, and an entity is in the list exactly when the last operation on it added it.\<close>

theorem entity_changes_noticed:
  assumes "cs \<noteq> []" "length cs < 2 ^ 64"
  shows "entity_epoch (fold change_entity cs n) \<noteq> entity_epoch n \<and> n_guard (fold change_entity cs n) \<and>
    (\<forall>e. e \<in> set (entities (fold change_entity cs n)) \<longleftrightarrow>
       (case [c \<leftarrow> rev cs. c = Add e \<or> c = Remove e] of
          [] \<Rightarrow> e \<in> set (entities n) | c # _ \<Rightarrow> c = Add e))"
proof -
  have "(word_of_nat (length cs) :: 64 word) \<noteq> 0"
    using assms by (simp add: word_of_nat_eq_0_iff) (auto dest: dvd_imp_le)
  then have "entity_epoch (fold change_entity cs n) \<noteq> entity_epoch n"
    by (simp add: entity_epoch_def fold_change_epoch)
  then show ?thesis
    using fold_change_guard [OF assms(1)] set_fold_change_entities [of _ cs n]
    unfolding entities_def by blast
qed

definition demo_node :: "nat node" where
  "demo_node = \<lparr>n_name = ''talker'', n_ns = ''/demo'', n_fq_name = ''/demo/talker'', n_domain_id = 0,
     n_entities = [], n_epoch = 0, n_guard = False, n_guard_handle = 5,
     n_participant = \<lparr>pp_handle = 1, pub_handle = 2, sub_handle = 3\<rparr>,
     n_discovery = \<lparr>p_ros_topic = ''ros_discovery_info'', p_writer = \<lparr>wr_handle = 4\<rparr>\<rparr>\<rparr>"

theorem entity_changes_noticed_witness:
  "entity_epoch (fold change_entity [Add 1, Add 2, Remove 1] demo_node) \<noteq> entity_epoch demo_node \<and>
   n_guard (fold change_entity [Add 1, Add 2, Remove 1] demo_node) \<and>
   1 \<notin> set (entities (fold change_entity [Add 1, Add 2, Remove 1] demo_node)) \<and>
   2 \<in> set (entities (fold change_entity [Add 1, Add 2, Remove 1] demo_node))"
  using entity_changes_noticed [of "[Add 1, Add 2, Remove 1]" demo_node] by simp


section \<open>Factories\<close>

lemma on_dds_cases:
  "on_dds f st = (r, st') \<Longrightarrow> fst st' = fst st \<and> f (snd st) = (r, snd st')"
  by (auto simp: on_dds_def split: prod.splits)

lemma subscription_ctor_topic:
  "subscription_ctor t q d rc tr = (Inr s, tr') \<Longrightarrow> su_ros_topic s = t \<and> valid_fqn t"
  by (auto simp: subscription_ctor_def ebind_eq_Inr_iff dest: topic_name.mangle_SomeD)

lemma service_ctor_topic:
  "service_ctor t q d d' rc wc tr = (Inr s, tr') \<Longrightarrow> sv_ros_service s = t \<and> valid_fqn t"
  by (auto simp: service_ctor_def ebind_eq_Inr_iff dest: request_name.mangle_SomeD)

text \<open>A created subscription or service is registered under the absolute name its relative name
  expands to, as the last entity, with the epoch advanced and the guard triggered; a factory that
  throws leaves the node as it was.\<close>

theorem create_registers:
  assumes "create_subscription wrap topic ty q rc (n, tr) = (r, n1, tr1)"
    and "create_service wrap' srv tq tr' q rc' wc (n, tr) = (r', n2, tr2)"
  shows "(case r of
       Inl e \<Rightarrow> n1 = n
     | Inr s \<Rightarrow> n1 = add_entity (wrap s) n \<and> expand_topic_name topic (n_ns n) = Inr (su_ros_topic s) \<and>
         valid_fqn (su_ros_topic s)) \<and>
    (case r' of
       Inl e \<Rightarrow> n2 = n
     | Inr s \<Rightarrow> n2 = add_entity (wrap' s) n \<and> expand_topic_name srv (n_ns n) = Inr (sv_ros_service s) \<and>
         valid_fqn (sv_ros_service s))"
  using assms
  by (auto simp: create_subscription_def create_service_def ebind_def on_dds_def
      split: prod.splits sum.splits
      dest: subscription_ctor_topic service_ctor_topic)

definition demo_reader_calls :: reader_calls where
  "demo_reader_calls =
     \<lparr>rdc_sertype = True, rdc_qos = True, rdc_topic = 10, rdc_reader = 11, rdc_condition = 12\<rparr>"

theorem create_registers_witness:
  "\<exists>s n1 tr1. create_subscription (\<lambda>s. nat (subscription_condition s)) ''chatter'' ''T'' qos_Default
      demo_reader_calls (demo_node, []) = (Inr s, n1, tr1) \<and>
    n1 = add_entity (nat (subscription_condition s)) demo_node \<and> su_ros_topic s = ''/demo/chatter''"
proof -
  have ex: "expand_topic_name ''chatter'' ''/demo'' = Inr ''/demo/chatter''" by code_simp
  have rt: "ros_to_dds_topic_name ''/demo/chatter'' = Inr ''rt/demo/chatter''" by code_simp
  obtain s n1 tr1 where c: "create_subscription (\<lambda>s. nat (subscription_condition s)) ''chatter'' ''T'' qos_Default
      demo_reader_calls (demo_node, []) = (Inr s, n1, tr1)"
    by (simp add: create_subscription_def demo_node_def ex subscription_ctor_def rt ebind_def on_dds_def
        reader_ctor_def demo_reader_calls_def entity_simps)
  obtain r' n2 tr2 where d: "create_service (\<lambda>_. 0) [] [] [] qos_Default demo_reader_calls
      \<lparr>wc_sertype = True, wc_qos = True, wc_topic = 1, wc_writer = 2\<rparr> (demo_node, []) = (r', n2, tr2)"
    by (metis prod_cases3)
  from create_registers [OF c d] c ex show ?thesis by (auto simp: demo_node_def)
qed


section \<open>A failed construction cleans up\<close>

definition node_handles_distinct :: "node_env \<Rightarrow> bool" where
  "node_handles_distinct ne \<longleftrightarrow>
     distinct [ne_guard ne, pc_participant (ne_participant ne), pc_publisher (ne_participant ne),
       pc_subscriber (ne_participant ne), wc_topic (ne_writer ne), wc_writer (ne_writer ne)]"

lemma on_calls_eq: "on_calls f w = (r, w') \<longleftrightarrow> (\<exists>tr. f (nw_calls w) = (r, tr) \<and> w' = w\<lparr>nw_calls := tr\<rparr>)"
  by (auto simp: on_calls_def split: prod.splits)

lemma participant_ctor_cases:
  assumes "participant_ctor pnm pc tr = (r, tr')"
    and "pc_publisher pc \<ge> 0" "pc_subscriber pc \<ge> 0"
  shows "(\<exists>e. r = Inl e \<and> \<not> is_ub e \<and> tr' = tr) \<or>
    (r = Inr \<lparr>pp_handle = pc_participant pc, pub_handle = pc_publisher pc, sub_handle = pc_subscriber pc\<rparr> \<and>
     pc_participant pc \<ge> 0 \<and>
     tr' = tr @ [Created (pc_participant pc), Created (pc_publisher pc), Created (pc_subscriber pc)])"
  using assms by (auto simp: participant_ctor_def entity_simps split: if_splits)

lemma writer_ctor_cases:
  assumes "writer_ctor t ty q wc tr = (r, tr')"
  shows "(\<exists>e. r = Inl e \<and> \<not> is_ub e \<and> (tr' = tr \<or> tr' = tr @ [Created (wc_topic wc)])) \<or>
    (r = Inr \<lparr>wr_handle = wc_writer wc\<rparr> \<and> wc_writer wc \<ge> 0 \<and>
     tr' = tr @ [Created (wc_topic wc), Created (wc_writer wc)])"
  using assms by (auto simp: writer_ctor_def entity_simps split: if_splits)

lemma announce_cases:
  assumes "announce_to_ros_graph ne ns name w = (r, w')"
  shows "(\<exists>e tr. r = Inl e \<and> \<not> is_ub e \<and> nw_wire w' = nw_wire w \<and> nw_calls w' = nw_calls w @ tr \<and>
      tr \<in> {[], [Created (wc_topic (ne_writer ne))],
        [Created (wc_topic (ne_writer ne)), Created (wc_writer (ne_writer ne)), Deleted (wc_writer (ne_writer ne))]}) \<or>
    (\<exists>b. r = Inr \<lparr>p_ros_topic = ''ros_discovery_info'', p_writer = \<lparr>wr_handle = wc_writer (ne_writer ne)\<rparr>\<rparr> \<and>
      wc_writer (ne_writer ne) \<ge> 0 \<and> nw_wire w' = nw_wire w @ [b] \<and>
      nw_calls w' = nw_calls w @ [Created (wc_topic (ne_writer ne)), Created (wc_writer (ne_writer ne))])"
proof -
  let ?q = "keep_last 1 (set_transient_local qos_init)"
  obtain r1 tr1 where wr: "writer_ctor ''ros_discovery_info'' (ne_type_name ne) ?q (ne_writer ne) (nw_calls w) = (r1, tr1)"
    by fastforce
  let ?p = "\<lparr>p_ros_topic = ''ros_discovery_info'', p_writer = \<lparr>wr_handle = wc_writer (ne_writer ne)\<rparr>\<rparr>"
  show ?thesis
    using assms wr writer_ctor_cases [OF wr]
      publish_cases [of "ne_ser ne" "ne_we ne" ?p "discovery_info ne ns name" "nw_wire w"]
    by (auto simp: announce_to_ros_graph_def ebind_def on_calls_def on_wire_def publisher_ctor_def
        ecatch_def writer_dtor_def deleted_def split: if_splits)
qed

lemma node_ctor_cases:
  assumes run: "node_ctor ne name namespace w = (r, w')"
    and pos: "pc_publisher (ne_participant ne) \<ge> 0" "pc_subscriber (ne_participant ne) \<ge> 0"
    and g: "g = ne_guard ne" and pc: "pc = ne_participant ne" and wc: "wc = ne_writer ne"
  shows "(\<exists>e tr. r = Inl e \<and> nw_wire w' = nw_wire w \<and>
      nw_calls w' = nw_calls w @ tr \<and> tr \<in> {[], [Created g, Deleted g]} \<union>
        (\<lambda>tr. [Created g, Created (pc_participant pc), Created (pc_publisher pc), Created (pc_subscriber pc)] @ tr @
           [Deleted g, Deleted (pc_participant pc)]) `
        {[], [Created (wc_topic wc)], [Created (wc_topic wc), Created (wc_writer wc), Deleted (wc_writer wc)]}) \<or>
    (\<exists>n b. r = Inr n \<and> nw_wire w' = nw_wire w @ [b] \<and> n_name n = name \<and> n_entities n = [] \<and>
      make_fq_node_name (n_ns n) name = Inr (n_fq_name n) \<and> g \<ge> 0 \<and> pc_participant pc \<ge> 0 \<and> wc_writer wc \<ge> 0 \<and>
      n_guard_handle n = g \<and> pp_handle (n_participant n) = pc_participant pc \<and>
      wr_handle (p_writer (n_discovery n)) = wc_writer wc \<and>
      nw_calls w' = nw_calls w @ [Created g, Created (pc_participant pc), Created (pc_publisher pc), Created (pc_subscriber pc),
        Created (wc_topic wc), Created (wc_writer wc)])"
proof -
  let ?ns = "if namespace = [] then ''/'' else namespace"
  obtain x g1 where x: "context_instance (ne_env ne) (nw_ctx w) = (x, g1)" by fastforce
  show ?thesis
  proof (cases "make_fq_node_name ?ns name")
    case (Inl e)
    then show ?thesis using run by (auto simp: node_ctor_def Let_def)
  next
    case (Inr fq)
    then have name: "name \<noteq> []" "str_find [slash] name = None"
      by (simp_all add: make_fq_node_name_def split: if_splits)
    show ?thesis
    proof (cases "ne_guard ne \<ge> 0")
      case False
      then show ?thesis
        using run Inr by (auto simp add: node_ctor_def Let_def ebind_def on_ctx_def x on_calls_def guard_ctor_def entity_simps)
    next
      case True
      let ?w1 = "w\<lparr>nw_ctx := g1, nw_calls := nw_calls w @ [Created g]\<rparr>"
      obtain rp tp where p: "participant_ctor (ne_precondition ne) pc (nw_calls w @ [Created g]) = (rp, tp)" by fastforce
      let ?w2 = "?w1\<lparr>nw_calls := tp\<rparr>"
      obtain ra wa where a: "announce_to_ros_graph ne ?ns name ?w2 = (ra, wa)" by fastforce
      show ?thesis
        using run Inr name True x p a g pc wc
          participant_ctor_cases [OF p] pos announce_cases [OF a]
        by (auto simp: node_ctor_def Let_def ebind_def on_ctx_def on_calls_def guard_ctor_def guard_dtor_def
            participant_dtor_def ecatch_def entity_simps split: if_splits)
    qed
  qed
qed

text \<open>A node constructor that throws releases the guard condition, the participant and the
  discovery writer it had created and announces nothing; one that returns has announced the node in
  exactly one sample, under a name that is a valid node name, and its destructor releases the same
  handles.  What remains are the participant's children (publisher, subscriber, topic).\<close>

theorem node_ctor_cleans_up:
  assumes "node_handles_distinct ne" "nw_calls w = []"
    and "pc_publisher (ne_participant ne) \<ge> 0" "pc_subscriber (ne_participant ne) \<ge> 0"
    and "node_ctor ne name namespace w = (r, w')"
  shows "case r of
      Inl e \<Rightarrow> nw_wire w' = nw_wire w \<and>
        set (unreleased (nw_calls w')) \<subseteq>
          {pc_publisher (ne_participant ne), pc_subscriber (ne_participant ne), wc_topic (ne_writer ne)}
    | Inr n \<Rightarrow> (\<exists>b. nw_wire w' = nw_wire w @ [b]) \<and>
        make_fq_node_name (n_ns n) name = Inr (n_fq_name n) \<and>
        set (unreleased (snd (node_dtor n (nw_calls w')))) =
          {pc_publisher (ne_participant ne), pc_subscriber (ne_participant ne), wc_topic (ne_writer ne)}"
proof -
  let ?pc = "ne_participant ne" and ?wc = "ne_writer ne" and ?g = "ne_guard ne"
  have d: "?g \<noteq> pc_publisher ?pc" "?g \<noteq> pc_subscriber ?pc" "?g \<noteq> wc_topic ?wc"
    "pc_participant ?pc \<noteq> pc_publisher ?pc" "pc_participant ?pc \<noteq> pc_subscriber ?pc"
    "pc_participant ?pc \<noteq> wc_topic ?wc" "wc_writer ?wc \<noteq> pc_publisher ?pc"
    "wc_writer ?wc \<noteq> pc_subscriber ?pc" "wc_writer ?wc \<noteq> wc_topic ?wc"
    using assms(1) by (auto simp: node_handles_distinct_def)
  from node_ctor_cases [OF assms(5,3,4) refl refl refl] show ?thesis
    using d assms(2)
    by (elim disjE exE conjE)
      (auto simp: unreleased_def node_dtor_def writer_dtor_def guard_dtor_def participant_dtor_def
        deleted_def ebind_def)
qed

definition demo_node_env :: node_env where
  "demo_node_env =
     \<lparr>ne_env = (\<lambda>_. None), ne_guard = 5, ne_precondition = - 4,
      ne_participant = \<lparr>pc_domain = 0, pc_qos = True, pc_participant = 1, pc_publisher = 2, pc_subscriber = 3\<rparr>,
      ne_guid_rc = 0, ne_guid = replicate 16 7, ne_ser = (\<lambda>i. write_string (ni_name (hd (pi_nodes i)))),
      ne_type_name = ''T'', ne_writer = \<lparr>wc_sertype = True, wc_qos = True, wc_topic = 6, wc_writer = 4\<rparr>,
      ne_we = demo_writer_env\<lparr>we_accept := (\<lambda>_. False)\<rparr>\<rparr>"

theorem node_ctor_cleans_up_witness:
  "\<exists>r w'. (node_ctor demo_node_env ''talker'' '''' \<lparr>nw_ctx = ctx_globals_init, nw_calls = [], nw_wire = []\<rparr>
      :: nat node result \<times> node_world) = (r, w') \<and>
    (case r of
      Inl e \<Rightarrow> nw_wire w' = [] \<and> set (unreleased (nw_calls w')) \<subseteq> {2, 3, 6}
    | Inr n \<Rightarrow> (\<exists>b. nw_wire w' = [] @ [b]) \<and>
        make_fq_node_name (n_ns n) ''talker'' = Inr (n_fq_name n) \<and>
        set (unreleased (snd (node_dtor n (nw_calls w')))) = {2, 3, 6})"
proof -
  let ?w = "\<lparr>nw_ctx = ctx_globals_init, nw_calls = [], nw_wire = []\<rparr>"
  obtain r w' where run: "(node_ctor demo_node_env ''talker'' '''' ?w :: nat node result \<times> node_world) = (r, w')"
    by fastforce
  have "node_handles_distinct demo_node_env"
    by (simp add: node_handles_distinct_def demo_node_env_def)
  from node_ctor_cleans_up [OF this _ _ _ run] run show ?thesis
    by (auto simp: demo_node_env_def split: sum.splits)
qed

end
