(* ===== verification/Executor.thy ===== *)
theory Executor
  imports Node
begin

text \<open>
  The single-threaded executor (\<^verbatim>\<open>executor.hpp\<close>, \<^verbatim>\<open>executor.cpp\<close>): the set of attached conditions and its
  reconciliation with the nodes, waiting and dispatching, spinning and cancelling.

  Nodes are addressed by \<^verbatim>\<open>nat\<close> (the pointer) and found through \<open>xw_nodes\<close>, because user code changes
  them while the executor runs.  The virtual functions \<^verbatim>\<open>condition\<close> and \<^verbatim>\<open>dispatch\<close> of an entity are
  the parameters \<open>cond_of\<close> and \<open>disp\<close>; \<^verbatim>\<open>dds_waitset_attach\<close> and \<^verbatim>\<open>dds_waitset_wait\<close> are parameters too.
  Waiting may change the world: other threads run meanwhile.
\<close>

section \<open>State\<close>

record 'e attached =
  a_cond :: dds_entity
  a_node :: nat
  a_entity :: "'e option"

record 'e executor =
  ex_nodes :: "nat list"
  ex_attached :: "(nat, 'e attached) omap"
  ex_epochs :: "(nat, 64 word) omap"
  ex_next_id :: nat
  ex_cancel_requested :: bool
  ex_cancel_guard :: bool
  ex_wake_guard :: bool
  ex_waitset :: "(dds_entity \<times> nat) list"
  ex_cancel_handle :: dds_entity
  ex_wake_handle :: dds_entity
  ex_waitset_handle :: dds_entity

record 'e exec_world =
  xw_exec :: "'e executor"
  xw_nodes :: "nat \<Rightarrow> 'e node"
  xw_log :: "rcl_error list"

definition kCancelAttachment :: nat where "kCancelAttachment = 1"
definition kWakeAttachment :: nat where "kWakeAttachment = 2"

text \<open>What the DDS calls of the constructor return.\<close>

record executor_calls =
  xc_cancel :: dds_entity
  xc_wake :: dds_entity
  xc_waitset :: dds_entity
  xc_attach_cancel :: int
  xc_attach_wake :: int

record 'e exec_env =
  xe_cond_of :: "'e \<Rightarrow> dds_entity"
  xe_attach :: "dds_entity \<Rightarrow> bool"
  xe_wait :: "dds_duration \<Rightarrow> 'e exec_world \<Rightarrow> (int \<times> nat list) \<times> 'e exec_world"
  xe_dispatch :: "'e \<Rightarrow> ('e exec_world, unit) eff"

text \<open>Construction: the waitset and the two guards, whose handles are \<open>cancel_h\<close> and \<open>wake_h\<close>.\<close>

definition executor_ctor :: "dds_entity \<Rightarrow> dds_entity \<Rightarrow> dds_entity \<Rightarrow> int \<Rightarrow> int \<Rightarrow> 'e executor dds" where
  "executor_ctor cancel_h wake_h waitset attach_cancel attach_wake =
     ebind (guard_ctor cancel_h) (\<lambda>cg.
     ebind (ecatch (guard_ctor wake_h) (\<lambda>e. ebind (guard_dtor cg) (\<lambda>_. ethrow e))) (\<lambda>wg.
     ebind (note_created waitset) (\<lambda>_.
     ebind (if waitset < 0 then
              ebind (guard_dtor wg) (\<lambda>_. ebind (guard_dtor cg) (\<lambda>_. ethrow (InternalError ''dds_create_waitset failed'')))
            else if attach_cancel < 0 \<or> attach_wake < 0 then
              ebind (guard_dtor wg) (\<lambda>_. ebind (guard_dtor cg) (\<lambda>_. ethrow (InternalError ''failed to attach executor guards'')))
            else ereturn ()) (\<lambda>_.
     ereturn \<lparr>ex_nodes = [], ex_attached = [], ex_epochs = [], ex_next_id = 2, ex_cancel_requested = False,
       ex_cancel_guard = False, ex_wake_guard = False,
       ex_waitset = [(cg, kCancelAttachment), (wg, kWakeAttachment)],
       ex_cancel_handle = cg, ex_wake_handle = wg, ex_waitset_handle = waitset\<rparr>))))"


text \<open>\<^verbatim>\<open>~Executor\<close>: the waitset, then the members in reverse order of declaration: the attachments, whose
  shared pointers may be the last (\<open>drop_attached\<close>), and the guards.\<close>

definition executor_dtor :: "'e executor \<Rightarrow> unit dds \<Rightarrow> unit dds" where
  "executor_dtor x drop_attached =
     ebind (if ex_waitset_handle x \<ge> 0 then deleted (ex_waitset_handle x) else ereturn ()) (\<lambda>_.
     ebind drop_attached (\<lambda>_.
     ebind (guard_dtor (ex_wake_handle x)) (\<lambda>_. guard_dtor (ex_cancel_handle x))))"


section \<open>Reconciliation\<close>

definition desired_of_node :: "('e \<Rightarrow> dds_entity) \<Rightarrow> (nat \<Rightarrow> 'e node) \<Rightarrow> nat \<Rightarrow>
    (dds_entity, 'e attached) omap \<Rightarrow> (dds_entity, 'e attached) omap" where
  "desired_of_node cond_of nd p m =
     fold (\<lambda>e m. om_upd (cond_of e) \<lparr>a_cond = cond_of e, a_node = p, a_entity = Some e\<rparr> m) (entities (nd p))
       (om_upd (change_guard (nd p)) \<lparr>a_cond = change_guard (nd p), a_node = p, a_entity = None\<rparr> m)"

definition desired_of :: "('e \<Rightarrow> dds_entity) \<Rightarrow> (nat \<Rightarrow> 'e node) \<Rightarrow> nat list \<Rightarrow>
    (dds_entity, 'e attached) omap" where
  "desired_of cond_of nd ps = fold (desired_of_node cond_of nd) ps []"

definition record_epochs :: "(nat \<Rightarrow> 'e node) \<Rightarrow> 'e executor \<Rightarrow> 'e executor" where
  "record_epochs nd x =
     x\<lparr>ex_epochs := fold (\<lambda>p m. om_upd p (entity_epoch (nd p)) m) (ex_nodes x) (ex_epochs x)\<rparr>"

definition detach_stale :: "(dds_entity, 'e attached) omap \<Rightarrow> 'e executor \<Rightarrow> 'e executor" where
  "detach_stale desired x =
     (let stale = filter (\<lambda>(i, a). om_find desired (a_cond a) = None) (ex_attached x) in
      x\<lparr>ex_waitset := filter (\<lambda>(c, i). c \<notin> a_cond ` snd ` set stale) (ex_waitset x),
        ex_attached := filter (\<lambda>(i, a). i \<notin> fst ` set stale) (ex_attached x)\<rparr>)"

text \<open>One round of the attach loop; \<open>current\<close> is fixed before it, since the keys of \<open>desired\<close> differ.\<close>

definition attach_one :: "(dds_entity \<Rightarrow> bool) \<Rightarrow> dds_entity list \<Rightarrow> dds_entity \<times> 'e attached \<Rightarrow>
    'e executor \<Rightarrow> 'e executor" where
  "attach_one attach current ca x =
     (case ca of (c, a) \<Rightarrow>
        if c \<in> set current then x
        else
          let i = ex_next_id x + 1 in
          if attach c then x\<lparr>ex_next_id := i, ex_attached := om_upd i a (ex_attached x),
                            ex_waitset := ex_waitset x @ [(c, i)]\<rparr>
          else x\<lparr>ex_next_id := i\<rparr>)"

definition reconcile_locked :: "'e exec_env \<Rightarrow> (nat \<Rightarrow> 'e node) \<Rightarrow> 'e executor \<Rightarrow> 'e executor" where
  "reconcile_locked xe nd x =
     (let desired = desired_of (xe_cond_of xe) nd (ex_nodes x);
          x1 = record_epochs nd x;
          current = map (\<lambda>(i, a). a_cond a) (ex_attached x);
          x2 = detach_stale desired x1
      in fold (attach_one (xe_attach xe) current) desired x2)"

definition add_node :: "'e exec_env \<Rightarrow> nat \<Rightarrow> 'e exec_world \<Rightarrow> 'e exec_world" where
  "add_node xe p w =
     (let x = xw_exec w;
          x1 = (if p \<notin> set (ex_nodes x)
                then x\<lparr>ex_nodes := ex_nodes x @ [p], ex_epochs := om_erase p (ex_epochs x)\<rparr> else x);
          x2 = reconcile_locked xe (xw_nodes w) x1
      in w\<lparr>xw_exec := x2\<lparr>ex_wake_guard := guard_trigger (ex_wake_guard x2)\<rparr>\<rparr>)"

definition remove_node :: "'e exec_env \<Rightarrow> nat \<Rightarrow> 'e exec_world \<Rightarrow> 'e exec_world" where
  "remove_node xe p w =
     (let x = xw_exec w;
          x1 = x\<lparr>ex_nodes := filter (\<lambda>q. q \<noteq> p) (ex_nodes x), ex_epochs := om_erase p (ex_epochs x)\<rparr>;
          x2 = reconcile_locked xe (xw_nodes w) x1
      in w\<lparr>xw_exec := x2\<lparr>ex_wake_guard := guard_trigger (ex_wake_guard x2)\<rparr>\<rparr>)"


section \<open>Waiting and dispatching\<close>

definition nodes_changed :: "'e exec_world \<Rightarrow> bool" where
  "nodes_changed w \<longleftrightarrow>
     (let x = xw_exec w in
      (ex_attached x = [] \<and> ex_nodes x \<noteq> []) \<or>
      (\<exists>p \<in> set (ex_nodes x). om_find (ex_epochs x) p \<noteq> Some (entity_epoch (xw_nodes w p))))"

definition refresh :: "'e exec_env \<Rightarrow> 'e exec_world \<Rightarrow> 'e exec_world" where
  "refresh xe w =
     (if nodes_changed w then w\<lparr>xw_exec := reconcile_locked xe (xw_nodes w) (xw_exec w)\<rparr> else w)"

definition log_dispatch_error :: "rcl_error \<Rightarrow> ('e exec_world, unit) eff" where
  "log_dispatch_error e = emodify (\<lambda>w. w\<lparr>xw_log := xw_log w @ [e]\<rparr>)"

text \<open>One triggered attachment; the result says whether an entity was dispatched.\<close>

definition process_id :: "'e exec_env \<Rightarrow> nat \<Rightarrow> ('e exec_world, bool) eff" where
  "process_id xe i w =
     (if i = kCancelAttachment then
        (Inr False, w\<lparr>xw_exec := (xw_exec w)\<lparr>ex_cancel_guard := snd (guard_take (ex_cancel_guard (xw_exec w))),
           ex_cancel_requested := True\<rparr>\<rparr>)
      else if i = kWakeAttachment then
        (Inr False, w\<lparr>xw_exec := (xw_exec w)\<lparr>ex_wake_guard := snd (guard_take (ex_wake_guard (xw_exec w)))\<rparr>\<rparr>)
      else
        (case Option.bind (om_find (ex_attached (xw_exec w)) i) a_entity of
           None \<Rightarrow> (Inr False, w)
         | Some e \<Rightarrow> ebind (ecatch (xe_dispatch xe e) log_dispatch_error) (\<lambda>_. ereturn True) w))"

text \<open>The loop over \<^verbatim>\<open>triggered[0 .. n)\<close>: the array has 64 slots and \<open>ids\<close> are those the call filled.\<close>

fun process_loop :: "'e exec_env \<Rightarrow> nat \<Rightarrow> nat list \<Rightarrow> bool \<Rightarrow> ('e exec_world, bool) eff" where
  "process_loop xe 0 ids did_work = ereturn did_work"
| "process_loop xe (Suc n) [] did_work = ethrow (UndefinedBehaviour ''triggered read out of bounds'')"
| "process_loop xe (Suc n) (i # ids) did_work =
     ebind (process_id xe i) (\<lambda>b. process_loop xe n ids (did_work \<or> b))"

definition absorb_guards :: "'e exec_world \<Rightarrow> 'e exec_world" where
  "absorb_guards w =
     w\<lparr>xw_nodes := (\<lambda>p. if p \<in> set (ex_nodes (xw_exec w))
                         then (xw_nodes w p)\<lparr>n_guard := snd (guard_take (n_guard (xw_nodes w p)))\<rparr>
                         else xw_nodes w p)\<rparr>"

definition wait_and_process :: "'e exec_env \<Rightarrow> dds_duration \<Rightarrow> ('e exec_world, bool) eff" where
  "wait_and_process xe timeout w =
     (case xe_wait xe timeout (refresh xe w) of
        ((n, ids), w1) \<Rightarrow>
          if n < 0 then (Inl (InternalError (''dds_waitset_wait failed: '' @ show_int n)), w1)
          else if n = 0 then (Inr False, w1)
          else ebind (process_loop xe (nat n) (take 64 ids) False) (\<lambda>did_work.
                 ebind (emodify absorb_guards) (\<lambda>_. ereturn did_work)) w1)"

partial_function (option) spin_loop :: "'e exec_env \<Rightarrow> 'e exec_world \<Rightarrow> (unit result \<times> 'e exec_world) option" where
  "spin_loop xe w =
     (if ex_cancel_requested (xw_exec w) then Some (Inr (), w)
      else case wait_and_process xe DDS_INFINITY w of
             (Inl e, w1) \<Rightarrow> Some (Inl e, w1)
           | (Inr _, w1) \<Rightarrow> spin_loop xe w1)"

declare spin_loop.simps [code]

definition spin :: "'e exec_env \<Rightarrow> 'e exec_world \<Rightarrow> (unit result \<times> 'e exec_world) option" where
  "spin xe w = spin_loop xe (w\<lparr>xw_exec := (xw_exec w)\<lparr>ex_cancel_requested := False\<rparr>\<rparr>)"

definition spin_once :: "'e exec_env \<Rightarrow> int \<Rightarrow> ('e exec_world, bool) eff" where
  "spin_once xe timeout = wait_and_process xe (if timeout < 0 then DDS_INFINITY else Nanoseconds timeout)"

partial_function (option) spin_some_loop :: "'e exec_env \<Rightarrow> bool \<Rightarrow> 'e exec_world \<Rightarrow> (bool result \<times> 'e exec_world) option" where
  "spin_some_loop xe did_work w =
     (case wait_and_process xe (Nanoseconds 0) w of
        (Inl e, w1) \<Rightarrow> Some (Inl e, w1)
      | (Inr b, w1) \<Rightarrow> if b then spin_some_loop xe True w1 else Some (Inr did_work, w1))"

declare spin_some_loop.simps [code]

definition spin_some :: "'e exec_env \<Rightarrow> 'e exec_world \<Rightarrow> (bool result \<times> 'e exec_world) option" where
  "spin_some xe w = spin_some_loop xe False w"

definition cancel :: "'e exec_world \<Rightarrow> 'e exec_world" where
  "cancel w = w\<lparr>xw_exec := (xw_exec w)\<lparr>ex_cancel_requested := True,
     ex_cancel_guard := guard_trigger (ex_cancel_guard (xw_exec w))\<rparr>\<rparr>"

definition spin_node :: "'e exec_env \<Rightarrow> nat \<Rightarrow> 'e exec_world \<Rightarrow> (unit result \<times> 'e exec_world) option" where
  "spin_node xe p w = spin xe (add_node xe p w)"

section \<open>The attachment invariant\<close>

definition conds_differ :: "(nat \<times> 'e attached) set \<Rightarrow> bool" where
  "conds_differ A \<longleftrightarrow> (\<forall>i a j b. (i, a) \<in> A \<longrightarrow> (j, b) \<in> A \<longrightarrow> a_cond a = a_cond b \<longrightarrow> i = j)"

text \<open>The waitset holds, beside the executor's own guards, exactly the attached conditions.\<close>

definition waitset_mirrors :: "(dds_entity \<times> nat) set \<Rightarrow> (nat \<times> 'e attached) set \<Rightarrow> bool" where
  "waitset_mirrors W A \<longleftrightarrow>
     (\<forall>c i. 2 < i \<longrightarrow> (c, i) \<in> W \<longleftrightarrow> (\<exists>a. (i, a) \<in> A \<and> a_cond a = c))"

definition exec_ok :: "'e executor \<Rightarrow> bool" where
  "exec_ok x \<longleftrightarrow>
     om_ok (ex_attached x) \<and> 2 \<le> ex_next_id x \<and>
     (\<forall>i a. (i, a) \<in> set (ex_attached x) \<longrightarrow> 2 < i \<and> i \<le> ex_next_id x) \<and>
     conds_differ (set (ex_attached x)) \<and> waitset_mirrors (set (ex_waitset x)) (set (ex_attached x))"

lemma conds_differ_subset: "conds_differ A \<Longrightarrow> B \<subseteq> A \<Longrightarrow> conds_differ B"
  unfolding conds_differ_def by blast

lemma conds_differ_insert:
  "conds_differ A \<Longrightarrow> (\<And>i b. (i, b) \<in> A \<Longrightarrow> a_cond b \<noteq> a_cond a) \<Longrightarrow> conds_differ (insert (k, a) A)"
  unfolding conds_differ_def by (metis Pair_inject insertE)

lemma waitset_mirrors_insert:
  "waitset_mirrors W A \<Longrightarrow> (\<And>b. (k, b) \<notin> A) \<Longrightarrow>
   waitset_mirrors (insert (a_cond a, k) W) (insert (k, a) A)"
  unfolding waitset_mirrors_def by auto

lemma waitset_mirrors_filter:
  assumes "waitset_mirrors W A"
  shows "waitset_mirrors {(c, i) \<in> W. \<not> (\<exists>j b. (j, b) \<in> A \<and> P (a_cond b) \<and> a_cond b = c)}
    {(i, a) \<in> A. \<not> P (a_cond a)}"
  unfolding waitset_mirrors_def
proof (intro allI impI)
  fix c i
  assume "2 < (i :: nat)"
  then have "(c, i) \<in> W \<longleftrightarrow> (\<exists>a. (i, a) \<in> A \<and> a_cond a = c)"
    using assms(1) by (simp add: waitset_mirrors_def)
  then show "(c, i) \<in> {(c, i) \<in> W. \<not> (\<exists>j b. (j, b) \<in> A \<and> P (a_cond b) \<and> a_cond b = c)} \<longleftrightarrow>
      (\<exists>a. (i, a) \<in> {(i, a) \<in> A. \<not> P (a_cond a)} \<and> a_cond a = c)"
    by simp metis
qed

lemma desired_of_node_keys:
  "set (om_keys (desired_of_node cond_of nd p m)) =
     insert (change_guard (nd p)) (cond_of ` set (entities (nd p))) \<union> set (om_keys m)"
proof -
  have "set (om_keys (fold (\<lambda>e m. om_upd (cond_of e) (f e) m) es m)) = cond_of ` set es \<union> set (om_keys m)"
    for f :: "'a \<Rightarrow> 'a attached" and es m
    by (induction es arbitrary: m) auto
  then show ?thesis by (auto simp: desired_of_node_def)
qed

lemma desired_of_keys:
  "set (om_keys (desired_of cond_of nd ps)) =
     (\<Union>p \<in> set ps. insert (change_guard (nd p)) (cond_of ` set (entities (nd p))))"
proof -
  have "set (om_keys (fold (desired_of_node cond_of nd) ps m)) =
      (\<Union>p \<in> set ps. insert (change_guard (nd p)) (cond_of ` set (entities (nd p)))) \<union> set (om_keys m)" for m
    by (induction ps arbitrary: m) (auto simp: desired_of_node_keys)
  then show ?thesis by (simp add: desired_of_def)
qed

definition cond_keyed :: "(dds_entity, 'e attached) omap \<Rightarrow> bool" where
  "cond_keyed m \<longleftrightarrow> om_ok m \<and> (\<forall>c a. om_find m c = Some a \<longrightarrow> a_cond a = c)"

lemma cond_keyed_upd: "cond_keyed m \<Longrightarrow> a_cond a = c \<Longrightarrow> cond_keyed (om_upd c a m)"
  by (auto simp: cond_keyed_def split: if_splits)

lemma cond_keyed_desired: "cond_keyed (desired_of cond_of nd ps)"
proof -
  have es: "cond_keyed (fold (\<lambda>e m. om_upd (cond_of e) \<lparr>a_cond = cond_of e, a_node = p, a_entity = Some e\<rparr> m) es m)"
    if "cond_keyed m" for es p m
    using that by (induction es arbitrary: m) (simp_all add: cond_keyed_upd)
  have "cond_keyed (fold (desired_of_node cond_of nd) ps m)" if "cond_keyed m" for m
    using that by (induction ps arbitrary: m) (simp_all add: desired_of_node_def es cond_keyed_upd)
  moreover have "cond_keyed []" by (simp add: cond_keyed_def)
  ultimately show ?thesis unfolding desired_of_def by blast
qed

lemma detach_stale_sets:
  assumes "om_ok (ex_attached x)"
  shows "set (ex_attached (detach_stale m x)) = {(i, a) \<in> set (ex_attached x). om_find m (a_cond a) \<noteq> None}"
    and "set (ex_waitset (detach_stale m x)) = {(c, i) \<in> set (ex_waitset x).
      \<not> (\<exists>j b. (j, b) \<in> set (ex_attached x) \<and> om_find m (a_cond b) = None \<and> a_cond b = c)}"
proof -
  let ?stale = "set (filter (\<lambda>(i, a). om_find m (a_cond a) = None) (ex_attached x))"
  have iff: "i \<in> fst ` ?stale \<longleftrightarrow> om_find m (a_cond a) = None" if "(i, a) \<in> set (ex_attached x)" for i a
  proof
    assume "i \<in> fst ` ?stale"
    then obtain b where "(i, b) \<in> set (ex_attached x)" "om_find m (a_cond b) = None" by auto
    with that assms show "om_find m (a_cond a) = None" by (metis om_in_set_iff option.inject)
  qed (use that in force)
  have "filter (\<lambda>(i, a). i \<notin> fst ` ?stale) (ex_attached x) =
      filter (\<lambda>(i, a). om_find m (a_cond a) \<noteq> None) (ex_attached x)"
    by (rule filter_cong) (clarsimp simp del: set_filter simp add: iff)+
  then show "set (ex_attached (detach_stale m x)) = {(i, a) \<in> set (ex_attached x). om_find m (a_cond a) \<noteq> None}"
    by (auto simp: detach_stale_def Let_def simp del: not_None_eq)
  have "c \<in> a_cond ` snd ` ?stale \<longleftrightarrow>
      (\<exists>j b. (j, b) \<in> set (ex_attached x) \<and> om_find m (a_cond b) = None \<and> a_cond b = c)" for c
    by (force simp: image_iff)
  then show "set (ex_waitset (detach_stale m x)) = {(c, i) \<in> set (ex_waitset x).
      \<not> (\<exists>j b. (j, b) \<in> set (ex_attached x) \<and> om_find m (a_cond b) = None \<and> a_cond b = c)}"
    unfolding detach_stale_def Let_def by auto
qed

lemma exec_ok_detach:
  assumes "exec_ok x"
  shows "exec_ok (detach_stale m x)"
proof -
  have ok: "om_ok (ex_attached x)" and ids: "\<forall>i a. (i, a) \<in> set (ex_attached x) \<longrightarrow> 2 < i \<and> i \<le> ex_next_id x"
    and n: "2 \<le> ex_next_id x" and cd: "conds_differ (set (ex_attached x))"
    and wm: "waitset_mirrors (set (ex_waitset x)) (set (ex_attached x))"
    using assms by (simp_all add: exec_ok_def)
  have "om_ok (ex_attached (detach_stale m x))" "ex_next_id (detach_stale m x) = ex_next_id x"
    using ok by (simp_all add: detach_stale_def Let_def)
  moreover have "conds_differ (set (ex_attached (detach_stale m x)))"
    by (rule conds_differ_subset [OF cd]) (auto simp: detach_stale_sets [OF ok])
  moreover have "waitset_mirrors (set (ex_waitset (detach_stale m x))) (set (ex_attached (detach_stale m x)))"
    unfolding detach_stale_sets [OF ok] by (rule waitset_mirrors_filter [OF wm])
  moreover have "\<forall>i a. (i, a) \<in> set (ex_attached (detach_stale m x)) \<longrightarrow> 2 < i \<and> i \<le> ex_next_id x"
    using ids unfolding detach_stale_sets [OF ok] by blast
  ultimately show ?thesis using n unfolding exec_ok_def by simp
qed

lemma attach_one_sets:
  assumes "exec_ok x"
  shows "set (ex_attached (attach_one attach current (c, a) x)) = set (ex_attached x) \<union>
    (if c \<notin> set current \<and> attach c then {(Suc (ex_next_id x), a)} else {})"
proof -
  have "Suc (ex_next_id x) \<notin> set (om_keys (ex_attached x))"
    using assms by (force simp: exec_ok_def om_keys_def)
  then show ?thesis by (simp add: attach_one_def Let_def set_om_upd_fresh)
qed

lemma exec_ok_attach_one:
  assumes ok: "exec_ok x" and c: "a_cond a = c"
    and new: "c \<in> set current \<or> (\<forall>i b. (i, b) \<in> set (ex_attached x) \<longrightarrow> a_cond b \<noteq> c)"
  shows "exec_ok (attach_one attach current (c, a) x)"
proof (cases "c \<notin> set current \<and> attach c")
  case True
  let ?i = "Suc (ex_next_id x)" and ?x = "attach_one attach current (c, a) x"
  have fresh: "(?i, b) \<notin> set (ex_attached x)" for b using ok by (auto simp: exec_ok_def)
  have att: "set (ex_attached ?x) = insert (?i, a) (set (ex_attached x))"
    using attach_one_sets [OF ok] True by simp
  have "set (ex_waitset ?x) = insert (a_cond a, ?i) (set (ex_waitset x))" "ex_next_id ?x = ?i"
    "om_ok (ex_attached ?x)"
    using True ok c by (simp_all add: attach_one_def Let_def exec_ok_def)
  moreover have "conds_differ (set (ex_attached ?x))"
    unfolding att using ok new True c by (intro conds_differ_insert) (auto simp: exec_ok_def)
  moreover have "waitset_mirrors (insert (a_cond a, ?i) (set (ex_waitset x))) (set (ex_attached ?x))"
    unfolding att using ok fresh by (intro waitset_mirrors_insert) (auto simp: exec_ok_def)
  moreover have "\<forall>i b. (i, b) \<in> set (ex_attached ?x) \<longrightarrow> 2 < i \<and> i \<le> ?i"
    unfolding att using ok by (auto simp: exec_ok_def)
  ultimately show ?thesis using ok unfolding exec_ok_def by simp
next
  case False
  then show ?thesis using ok by (auto simp: attach_one_def Let_def exec_ok_def)
qed

lemma attach_fold:
  assumes "exec_ok x" "distinct (map fst ds)" "\<forall>c a. (c, a) \<in> set ds \<longrightarrow> a_cond a = c"
    and "\<forall>i b. (i, b) \<in> set (ex_attached x) \<longrightarrow> a_cond b \<in> set current \<or> a_cond b \<notin> fst ` set ds"
  shows "exec_ok (fold (attach_one attach current) ds x) \<and>
    snd ` set (ex_attached (fold (attach_one attach current) ds x)) =
      snd ` set (ex_attached x) \<union> {a. \<exists>c. (c, a) \<in> set ds \<and> c \<notin> set current \<and> attach c}"
  using assms
proof (induction ds arbitrary: x)
  case (Cons d ds)
  obtain c a where d: "d = (c, a)" by (cases d)
  let ?x = "attach_one attach current (c, a) x"
  have c: "a_cond a = c" "c \<notin> fst ` set ds" "distinct (map fst ds)"
    using Cons.prems(2,3) by (auto simp: d)
  have new: "c \<in> set current \<or> (\<forall>i b. (i, b) \<in> set (ex_attached x) \<longrightarrow> a_cond b \<noteq> c)"
    using Cons.prems(4) by (auto simp: d)
  have ok: "exec_ok ?x" by (rule exec_ok_attach_one [OF Cons.prems(1) c(1) new])
  have sets: "set (ex_attached ?x) = set (ex_attached x) \<union>
      (if c \<notin> set current \<and> attach c then {(Suc (ex_next_id x), a)} else {})"
    by (rule attach_one_sets [OF Cons.prems(1)])
  have "\<forall>i b. (i, b) \<in> set (ex_attached ?x) \<longrightarrow> a_cond b \<in> set current \<or> a_cond b \<notin> fst ` set ds"
    using Cons.prems(4) c unfolding sets by (auto simp: d split: if_splits)
  note IH = Cons.IH [OF ok c(3) _ this]
  have "\<forall>c a. (c, a) \<in> set ds \<longrightarrow> a_cond a = c" using Cons.prems(3) by simp
  note IH = IH [OF this]
  have "snd ` set (ex_attached ?x) = snd ` set (ex_attached x) \<union> (if c \<notin> set current \<and> attach c then {a} else {})"
    unfolding sets by simp
  moreover have "{a. \<exists>c. (c, a) \<in> set (d # ds) \<and> c \<notin> set current \<and> attach c} =
      (if c \<notin> set current \<and> attach c then {a} else {}) \<union>
      {a. \<exists>c. (c, a) \<in> set ds \<and> c \<notin> set current \<and> attach c}"
    by (auto simp: d)
  ultimately show ?case using IH by (simp only: d fold_simps Un_assoc)
qed simp

lemma record_epochs_simps [simp]:
  "ex_attached (record_epochs nd x) = ex_attached x" "ex_nodes (record_epochs nd x) = ex_nodes x"
  "exec_ok (record_epochs nd x) = exec_ok x"
  by (simp_all add: record_epochs_def exec_ok_def)

lemma snd_image_filter: "snd ` {(i, a) \<in> S. P a} = {a \<in> snd ` S. P a}"
  by force

lemma reconcile_attached:
  assumes "exec_ok x"
  shows "exec_ok (reconcile_locked xe nd x) \<and>
    snd ` set (ex_attached (reconcile_locked xe nd x)) =
      {a \<in> snd ` set (ex_attached x). om_find (desired_of (xe_cond_of xe) nd (ex_nodes x)) (a_cond a) \<noteq> None} \<union>
      {a. \<exists>c. om_find (desired_of (xe_cond_of xe) nd (ex_nodes x)) c = Some a \<and>
        c \<notin> a_cond ` snd ` set (ex_attached x) \<and> xe_attach xe c}"
proof -
  let ?d = "desired_of (xe_cond_of xe) nd (ex_nodes x)"
  let ?x = "detach_stale ?d (record_epochs nd x)"
  let ?cur = "map (\<lambda>(i, a). a_cond a) (ex_attached x)"
  have dk: "cond_keyed ?d" by (rule cond_keyed_desired)
  have om: "om_ok (ex_attached (record_epochs nd x))" using assms by (simp add: exec_ok_def)
  have cur: "set ?cur = a_cond ` snd ` set (ex_attached x)" by force
  have ok: "exec_ok ?x" using assms by (intro exec_ok_detach) simp
  have sets: "set (ex_attached ?x) = {(i, a) \<in> set (ex_attached x). om_find ?d (a_cond a) \<noteq> None}"
    using detach_stale_sets(1) [OF om, of ?d] by simp
  have dist: "distinct (map fst ?d)" using dk om_ok_distinct by (auto simp: cond_keyed_def om_keys_def)
  have key: "\<forall>c a. (c, a) \<in> set ?d \<longrightarrow> a_cond a = c"
    using dk by (auto simp: cond_keyed_def om_in_set_iff)
  have old: "\<forall>i b. (i, b) \<in> set (ex_attached ?x) \<longrightarrow> a_cond b \<in> set ?cur \<or> a_cond b \<notin> fst ` set ?d"
    unfolding sets cur by force
  have mem: "(c, a) \<in> set ?d \<longleftrightarrow> om_find ?d c = Some a" for c a
    using dk by (simp add: cond_keyed_def om_in_set_iff)
  have eq: "reconcile_locked xe nd x = fold (attach_one (xe_attach xe) ?cur) ?d ?x"
    by (simp add: reconcile_locked_def Let_def)
  show ?thesis
    unfolding eq using attach_fold [OF ok dist key old, of "xe_attach xe"]
    unfolding sets cur mem snd_image_filter .
qed

lemma attach_one_frame:
  "ex_nodes (attach_one attach current ca x) = ex_nodes x" "ex_epochs (attach_one attach current ca x) = ex_epochs x"
  "ex_cancel_requested (attach_one attach current ca x) = ex_cancel_requested x"
  "ex_cancel_guard (attach_one attach current ca x) = ex_cancel_guard x"
  by (simp_all add: attach_one_def Let_def split: prod.splits)

lemma fold_attach_frame:
  "ex_nodes (fold (attach_one a c) ds y) = ex_nodes y"
  "ex_epochs (fold (attach_one a c) ds y) = ex_epochs y"
  "ex_cancel_requested (fold (attach_one a c) ds y) = ex_cancel_requested y"
  "ex_cancel_guard (fold (attach_one a c) ds y) = ex_cancel_guard y"
  by (induction ds arbitrary: y) (simp_all add: attach_one_frame)

lemma reconcile_frame:
  "ex_nodes (reconcile_locked xe nd x) = ex_nodes x"
  "ex_epochs (reconcile_locked xe nd x) = ex_epochs (record_epochs nd x)"
  "ex_cancel_requested (reconcile_locked xe nd x) = ex_cancel_requested x"
  "ex_cancel_guard (reconcile_locked xe nd x) = ex_cancel_guard x"
  by (simp_all add: reconcile_locked_def Let_def detach_stale_def record_epochs_def fold_attach_frame)

text \<open>When every old entry is either gone or unchanged in the desired map, keeping the old ones and
  adding the missing ones gives the desired map.\<close>

lemma reconciled_entries:
  assumes "\<And>a. a \<in> A \<Longrightarrow> f (a_cond a) = None \<or> f (a_cond a) = Some a"
    and "\<And>c a. f c = Some a \<Longrightarrow> a_cond a = c"
  shows "{a \<in> A. f (a_cond a) \<noteq> None} \<union> {a. \<exists>c. f c = Some a \<and> c \<notin> a_cond ` A} =
    {a. f (a_cond a) = Some a}"
proof (intro set_eqI iffI)
  fix a
  assume "a \<in> {a. f (a_cond a) = Some a}"
  then have fa: "f (a_cond a) = Some a" by simp
  show "a \<in> {a \<in> A. f (a_cond a) \<noteq> None} \<union> {a. \<exists>c. f c = Some a \<and> c \<notin> a_cond ` A}"
  proof (cases "a_cond a \<in> a_cond ` A")
    case True
    then obtain b where b: "b \<in> A" "a_cond b = a_cond a" by (metis imageE)
    have "f (a_cond b) = Some b" using assms(1) [OF b(1)] fa b(2) by (metis option.distinct(1))
    then have "a = b" using fa b(2) by (metis option.inject)
    with b(1) fa show ?thesis by blast
  qed (use fa in blast)
next
  fix a
  assume "a \<in> {a \<in> A. f (a_cond a) \<noteq> None} \<union> {a. \<exists>c. f c = Some a \<and> c \<notin> a_cond ` A}"
  then consider "a \<in> A" "f (a_cond a) \<noteq> None" | c where "f c = Some a" by blast
  then show "a \<in> {a. f (a_cond a) = Some a}"
    by cases (use assms(1) [of a] assms(2) [of _ a] in auto)
qed

lemma record_epochs_find:
  "p \<in> set (ex_nodes x) \<Longrightarrow> om_find (ex_epochs (record_epochs nd x)) p = Some (entity_epoch (nd p))"
proof -
  have "om_find (fold (\<lambda>p m. om_upd p (entity_epoch (nd p)) m) ps m) p =
      (if p \<in> set ps then Some (entity_epoch (nd p)) else om_find m p)" for ps m
    by (induction ps arbitrary: m) auto
  then show "p \<in> set (ex_nodes x) \<Longrightarrow> ?thesis" by (simp add: record_epochs_def)
qed


text \<open>A node with one entity, and an executor that knows it.\<close>

definition demo_world :: "nat exec_world" where
  "demo_world =
     \<lparr>xw_exec = \<lparr>ex_nodes = [7], ex_attached = [], ex_epochs = [], ex_next_id = 2, ex_cancel_requested = False,
        ex_cancel_guard = False, ex_wake_guard = False, ex_waitset = [(100, 1), (101, 2)],
        ex_cancel_handle = 100, ex_wake_handle = 101, ex_waitset_handle = 102\<rparr>,
      xw_nodes = (\<lambda>_. demo_node\<lparr>n_entities := [12]\<rparr>), xw_log = []\<rparr>"

text \<open>An entity whose callback cancels the executor, and a waitset that reports the cancel guard before it.\<close>

definition demo_exec_env :: "nat exec_env" where
  "demo_exec_env =
     \<lparr>xe_cond_of = int, xe_attach = (\<lambda>_. True),
      xe_wait = (\<lambda>_ w. (if ex_cancel_guard (xw_exec w) then (1, [1]) else (1, [4]), w)),
      xe_dispatch = (\<lambda>e w. (Inr (), cancel w))\<rparr>"

lemma demo_exec_ok: "exec_ok (xw_exec demo_world)"
  by (simp add: exec_ok_def demo_world_def conds_differ_def waitset_mirrors_def)



section \<open>All operations keep the attachments consistent\<close>

inductive exec_step :: "'e exec_env \<Rightarrow> 'e exec_world \<Rightarrow> 'e exec_world \<Rightarrow> bool" for xe :: "'e exec_env" where
  step_add: "exec_step xe w (add_node xe p w)"
| step_remove: "exec_step xe w (remove_node xe p w)"
| step_refresh: "exec_step xe w (refresh xe w)"
| step_cancel: "exec_step xe w (cancel w)"
| step_absorb: "exec_step xe w (absorb_guards w)"
| step_user: "exec_step xe w (w\<lparr>xw_nodes := nd, xw_log := lg\<rparr>)"
| step_guard: "i \<in> {kCancelAttachment, kWakeAttachment} \<Longrightarrow> exec_step xe w (snd (process_id xe i w))"

inductive_cases exec_stepE: "exec_step xe w w'"

definition exec_init :: "'e exec_world \<Rightarrow> bool" where
  "exec_init w \<longleftrightarrow> (\<exists>cg wg ws ac aw tr tr'. executor_ctor cg wg ws ac aw tr = (Inr (xw_exec w), tr'))"

lemma exec_ok_update:
  "exec_ok (x\<lparr>ex_nodes := ns\<rparr>) = exec_ok x" "exec_ok (x\<lparr>ex_epochs := es\<rparr>) = exec_ok x"
  "exec_ok (x\<lparr>ex_wake_guard := b\<rparr>) = exec_ok x" "exec_ok (x\<lparr>ex_cancel_guard := b\<rparr>) = exec_ok x"
  "exec_ok (x\<lparr>ex_cancel_requested := b\<rparr>) = exec_ok x"
  by (simp_all add: exec_ok_def)

lemma reconcile_ok: "exec_ok x \<Longrightarrow> exec_ok (reconcile_locked xe nd x)"
  using reconcile_attached [of x xe nd] by blast

lemma exec_ok_ctor: "executor_ctor cg wg ws ac aw tr = (Inr x, tr') \<Longrightarrow> exec_ok x"
  by (auto simp: executor_ctor_def ebind_eq_Inr_iff exec_ok_def conds_differ_def
      waitset_mirrors_def kCancelAttachment_def kWakeAttachment_def)

lemma exec_ok_init: "exec_init w \<Longrightarrow> exec_ok (xw_exec w)"
  by (auto simp: exec_init_def dest: exec_ok_ctor)

lemma exec_ok_step: "exec_ok (xw_exec w) \<Longrightarrow> exec_step xe w w' \<Longrightarrow> exec_ok (xw_exec w')"
  by (erule exec_stepE)
    (auto simp: add_node_def remove_node_def refresh_def cancel_def absorb_guards_def process_id_def Let_def
      exec_ok_update reconcile_ok)

interpretation executor: transition_system exec_init "exec_step xe" "\<lambda>w. exec_ok (xw_exec w)" for xe
  by unfold_locales (fact exec_ok_init, fact exec_ok_step)


definition demo_exec_start :: "nat exec_world" where
  "demo_exec_start = demo_world\<lparr>xw_exec := (xw_exec demo_world)\<lparr>ex_nodes := []\<rparr>\<rparr>"


section \<open>One batch\<close>

definition dispatch_safe :: "'e exec_env \<Rightarrow> bool" where
  "dispatch_safe xe \<longleftrightarrow> (\<forall>e w r w'. xe_dispatch xe e w = (Inl r, w') \<longrightarrow> \<not> is_ub r)"

lemma process_id_returns: "dispatch_safe xe \<Longrightarrow> \<exists>b. fst (process_id xe i w) = Inr b"
  by (auto simp: process_id_def dispatch_safe_def ebind_def ecatch_def log_dispatch_error_def
      split: option.splits prod.splits sum.splits)

lemma process_loop_returns:
  assumes "dispatch_safe xe" "n \<le> length ids"
  shows "\<exists>b. fst (process_loop xe n ids d w) = Inr b"
  using assms
proof (induction xe n ids d arbitrary: w rule: process_loop.induct)
  case (3 xe n i ids d)
  obtain b where "fst (process_id xe i w) = Inr b" using process_id_returns [OF 3(2)] by blast
  then show ?case using 3 by (auto simp: ebind_def split: prod.splits)
qed auto

lemma process_loop_overrun:
  assumes "dispatch_safe xe" "length ids < n"
  shows "fst (process_loop xe n ids d w) = Inl (UndefinedBehaviour ''triggered read out of bounds'')"
  using assms
proof (induction xe n ids d arbitrary: w rule: process_loop.induct)
  case (3 xe n i ids d)
  obtain b where "fst (process_id xe i w) = Inr b" using process_id_returns [OF 3(2)] by blast
  then show ?case using 3 by (auto simp: ebind_def split: prod.splits)
qed auto

text \<open>C21: A batch is memory safe exactly when the wait reports at most 64 triggered conditions (the size of
  the array it fills): then every exception of a dispatch is caught and the call returns; when it
  reports more, the loop reads past the array.\<close>

theorem batch_safe_up_to_64:
  assumes "dispatch_safe xe" "xe_wait xe t (refresh xe w) = ((n, ids), w1)" "0 < n"
    and "length (take 64 ids) = min 64 (nat n)"
  shows "if n \<le> 64 then \<exists>b. fst (wait_and_process xe t w) = Inr b
    else fst (wait_and_process xe t w) = Inl (UndefinedBehaviour ''triggered read out of bounds'')"
proof (cases "n \<le> 64")
  case True
  then have "nat n \<le> length (take 64 ids)" using assms(4) by simp
  from process_loop_returns [OF assms(1) this, of False w1] obtain b where
    "fst (process_loop xe (nat n) (take 64 ids) False w1) = Inr b" by blast
  then show ?thesis using True assms(2,3)
    by (auto simp: wait_and_process_def ebind_def split: prod.splits)
next
  case False
  then have "length (take 64 ids) < nat n" using assms(4) by simp
  from process_loop_overrun [OF assms(1) this, of False w1]
  show ?thesis using False assms(2,3)
    by (auto simp: wait_and_process_def ebind_def split: prod.splits)
qed

lemma demo_dispatch_safe: "dispatch_safe demo_exec_env"
  by (simp add: dispatch_safe_def demo_exec_env_def)

definition crowded_env :: "nat exec_env" where
  "crowded_env = demo_exec_env\<lparr>xe_wait := (\<lambda>_ w. ((65, replicate 64 2), w))\<rparr>"

theorem batch_safe_up_to_64_witness:
  "fst (wait_and_process crowded_env DDS_INFINITY demo_world) =
     Inl (UndefinedBehaviour ''triggered read out of bounds'')"
  using batch_safe_up_to_64 [of crowded_env DDS_INFINITY demo_world 65 "replicate 64 2" "refresh crowded_env demo_world"]
  by (simp add: crowded_env_def dispatch_safe_def demo_exec_env_def)

text \<open>The entity an attachment id leads to; the executor's own guards lead to none.\<close>

definition entity_at :: "'e executor \<Rightarrow> nat \<Rightarrow> 'e option" where
  "entity_at x i =
     (if i = kCancelAttachment \<or> i = kWakeAttachment then None else Option.bind (om_find (ex_attached x) i) a_entity)"

text \<open>\<open>obs\<close> reads off the user's state which entities have been dispatched: a dispatch adds its entity and
  leaves the attachments alone, and the executor's own bookkeeping does not touch it.\<close>

definition observes_dispatch :: "'e exec_env \<Rightarrow> ('e exec_world \<Rightarrow> 'e list) \<Rightarrow> bool" where
  "observes_dispatch xe obs \<longleftrightarrow>
     (\<forall>e w. obs (snd (xe_dispatch xe e w)) = obs w @ [e] \<and>
        ex_attached (xw_exec (snd (xe_dispatch xe e w))) = ex_attached (xw_exec w)) \<and>
     (\<forall>w x lg. obs (w\<lparr>xw_exec := x\<rparr>) = obs w \<and> obs (w\<lparr>xw_log := lg\<rparr>) = obs w \<and> obs (absorb_guards w) = obs w)"

lemma process_id_observed:
  assumes "dispatch_safe xe" "observes_dispatch xe obs"
  shows "\<exists>w'. process_id xe i w = (Inr (entity_at (xw_exec w) i \<noteq> None), w') \<and>
    obs w' = obs w @ (case entity_at (xw_exec w) i of None \<Rightarrow> [] | Some e \<Rightarrow> [e]) \<and>
    ex_attached (xw_exec w') = ex_attached (xw_exec w)"
proof (cases "entity_at (xw_exec w) i")
  case None
  then show ?thesis
    using assms(2) by (auto simp: entity_at_def process_id_def observes_dispatch_def split: if_splits)
next
  case (Some e)
  obtain r w1 where d: "xe_dispatch xe e w = (r, w1)" by fastforce
  have "obs w1 = obs w @ [e]" "ex_attached (xw_exec w1) = ex_attached (xw_exec w)"
    using assms(2) d unfolding observes_dispatch_def by (metis snd_conv)+
  moreover have "obs (w1\<lparr>xw_log := lg\<rparr>) = obs w1" for lg using assms(2) by (simp add: observes_dispatch_def)
  moreover have "\<not> is_ub x" if "r = Inl x" for x using assms(1) d that unfolding dispatch_safe_def by blast
  ultimately show ?thesis
    using Some d
    by (cases r) (auto simp: entity_at_def process_id_def ebind_def ecatch_def log_dispatch_error_def split: if_splits)
qed

lemma process_loop_observed:
  assumes "dispatch_safe xe" "observes_dispatch xe obs" "n \<le> length ids"
  shows "\<exists>w'. process_loop xe n ids d w = (Inr (d \<or> List.map_filter (entity_at (xw_exec w)) (take n ids) \<noteq> []), w') \<and>
    obs w' = obs w @ List.map_filter (entity_at (xw_exec w)) (take n ids)"
  using assms
proof (induction xe n ids d arbitrary: w rule: process_loop.induct)
  case (3 xe n i ids d)
  let ?e = "entity_at (xw_exec w)"
  obtain w1 where one: "process_id xe i w = (Inr (?e i \<noteq> None), w1)"
      "obs w1 = obs w @ (case ?e i of None \<Rightarrow> [] | Some e \<Rightarrow> [e])"
      "ex_attached (xw_exec w1) = ex_attached (xw_exec w)"
    using process_id_observed [OF 3(2,3)] by blast
  have same: "entity_at (xw_exec w1) = ?e" using one(3) by (simp add: entity_at_def fun_eq_iff)
  have "\<exists>w'. process_loop xe n ids (d \<or> ?e i \<noteq> None) w1 =
        (Inr ((d \<or> ?e i \<noteq> None) \<or> List.map_filter ?e (take n ids) \<noteq> []), w') \<and>
      obs w' = obs w1 @ List.map_filter ?e (take n ids)"
    using 3(1) [of "?e i \<noteq> None" w1] 3(2-4) by (simp add: same)
  then show ?case
    using one(1,2) by (cases "?e i") (auto simp: ebind_def map_filter_simps)
qed (auto simp: map_filter_simps)


text \<open>Entities that throw after noting themselves on node 99; the report names the wake guard, the node's
  change guard and the entity.\<close>

definition noting_env :: "nat exec_env" where
  "noting_env = demo_exec_env\<lparr>xe_wait := (\<lambda>_ w. ((3, [2, 3, 4]), w)),
     xe_dispatch := (\<lambda>e w. (Inl (OtherException ''callback''),
       w\<lparr>xw_nodes := (xw_nodes w)(99 := (xw_nodes w 99)\<lparr>n_entities := n_entities (xw_nodes w 99) @ [e]\<rparr>)\<rparr>))\<rparr>"



section \<open>Cancelling\<close>

text \<open>
  What spinning relies on: the wait reports the cancel guard when it is triggered, and leaves the
  executor's own state alone; a dispatch never takes back a cancel request (only \<^verbatim>\<open>spin\<close> resets it).
\<close>

definition reports_cancel :: "'e exec_env \<Rightarrow> bool" where
  "reports_cancel xe \<longleftrightarrow>
     (\<forall>t w. ex_cancel_guard (xw_exec w) \<longrightarrow>
        (\<exists>n ids. xe_wait xe t w = ((n, ids), w) \<and> 0 < n \<and> n \<le> 64 \<and> nat n \<le> length ids \<and>
           kCancelAttachment \<in> set (take (nat n) ids)))"

definition keeps_cancel :: "'e exec_env \<Rightarrow> bool" where
  "keeps_cancel xe \<longleftrightarrow>
     (\<forall>e w. ex_cancel_requested (xw_exec w) \<longrightarrow> ex_cancel_requested (xw_exec (snd (xe_dispatch xe e w))))"

lemma process_id_keeps:
  assumes "keeps_cancel xe" "ex_cancel_requested (xw_exec w)"
  shows "ex_cancel_requested (xw_exec (snd (process_id xe i w)))"
proof -
  have "ex_cancel_requested (xw_exec (snd (xe_dispatch xe e w)))" for e
    using assms by (simp add: keeps_cancel_def)
  then have "ex_cancel_requested (xw_exec w')" if "xe_dispatch xe e w = (r, w')" for e r w'
    using that by (metis snd_conv)
  then show ?thesis
    using assms(2)
    by (auto simp: process_id_def ebind_def ecatch_def log_dispatch_error_def
        split: option.splits prod.splits sum.splits)
qed

lemma process_id_cancel: "ex_cancel_requested (xw_exec (snd (process_id xe kCancelAttachment w)))"
  by (simp add: process_id_def)

lemma process_loop_cancel:
  assumes "dispatch_safe xe" "keeps_cancel xe" "n \<le> length ids"
    and "kCancelAttachment \<in> set (take n ids) \<or> ex_cancel_requested (xw_exec w)"
  shows "ex_cancel_requested (xw_exec (snd (process_loop xe n ids d w)))"
  using assms
proof (induction xe n ids d arbitrary: w rule: process_loop.induct)
  case (3 xe n i ids d)
  obtain b where b: "fst (process_id xe i w) = Inr b" using process_id_returns [OF 3(2)] by blast
  obtain w' where w': "process_id xe i w = (Inr b, w')" using b by (metis prod.collapse)
  have "kCancelAttachment \<in> set (take n ids) \<or> ex_cancel_requested (xw_exec w')"
    using 3(5) process_id_keeps [OF 3(3), of w i] process_id_cancel [of xe w] w' by auto
  with 3 w' show ?case by (simp add: ebind_def)
qed auto

lemma refresh_frame:
  "ex_cancel_guard (xw_exec (refresh xe w)) = ex_cancel_guard (xw_exec w)"
  "ex_cancel_requested (xw_exec (refresh xe w)) = ex_cancel_requested (xw_exec w)"
  by (simp_all add: refresh_def reconcile_frame)

lemma spin_cancelled:
  assumes "dispatch_safe xe" "keeps_cancel xe" "reports_cancel xe" "ex_cancel_guard (xw_exec w)"
  shows "\<exists>w'. spin xe w = Some (Inr (), w') \<and>
    snd (wait_and_process xe DDS_INFINITY (w\<lparr>xw_exec := (xw_exec w)\<lparr>ex_cancel_requested := False\<rparr>\<rparr>)) = w'"
proof -
  let ?w = "w\<lparr>xw_exec := (xw_exec w)\<lparr>ex_cancel_requested := False\<rparr>\<rparr>"
  have g: "ex_cancel_guard (xw_exec (refresh xe ?w))" using assms(4) by (simp add: refresh_frame)
  obtain n ids where wait: "xe_wait xe DDS_INFINITY (refresh xe ?w) = ((n, ids), refresh xe ?w)"
    and n: "0 < n" "n \<le> 64" "nat n \<le> length ids" and in1: "kCancelAttachment \<in> set (take (nat n) ids)"
    using assms(3) g unfolding reports_cancel_def by metis
  have len: "nat n \<le> length (take 64 ids)" using n by simp
  have in2: "kCancelAttachment \<in> set (take (nat n) (take 64 ids))" using in1 n(2) by (simp add: min_def nat_le_iff)
  obtain b w1 where loop: "process_loop xe (nat n) (take 64 ids) False (refresh xe ?w) = (Inr b, w1)"
    using process_loop_returns [OF assms(1) len] by (metis prod.collapse)
  then have "ex_cancel_requested (xw_exec w1)"
    using process_loop_cancel [OF assms(1,2) len, of "refresh xe ?w" False] in2 by simp
  then have flag: "ex_cancel_requested (xw_exec (absorb_guards w1))" by (simp add: absorb_guards_def)
  have wp: "wait_and_process xe DDS_INFINITY ?w = (Inr b, absorb_guards w1)"
    using wait n(1) loop by (simp add: wait_and_process_def ebind_def)
  have "spin xe w = Some (Inr (), absorb_guards w1)"
    unfolding spin_def
    by (subst spin_loop.simps) (simp add: wp, subst spin_loop.simps, simp add: flag)
  with wp show ?thesis by simp
qed



text \<open>A cancellation can count twice: when \<^verbatim>\<open>cancel()\<close> is called while a callback runs, \<^verbatim>\<open>spin()\<close> leaves
  through the flag without taking the guard, and the next \<^verbatim>\<open>spin()\<close> returns after one batch although
  nobody cancelled it.\<close>

theorem stale_cancel_ends_next_spin:
  "case spin demo_exec_env demo_world of
     Some (Inr _, w1) \<Rightarrow> ex_cancel_guard (xw_exec w1) \<and>
       (case spin (demo_exec_env\<lparr>xe_dispatch := \<lambda>e w. (Inr (), w)\<rparr>) w1 of
          Some (Inr _, w2) \<Rightarrow> ex_cancel_requested (xw_exec w2) \<and> \<not> ex_cancel_guard (xw_exec w2)
        | _ \<Rightarrow> False)
   | _ \<Rightarrow> False"
  by code_simp

section \<open>What spinning leaves alone\<close>

text \<open>
  A relation between the world before and after, kept by everything an executor does (and by the wait and
  the dispatches, where other code runs), is kept by a round and by a whole spin.
\<close>

locale exec_relation =
  fixes xe :: "'e exec_env" and R :: "'e exec_world \<Rightarrow> 'e exec_world \<Rightarrow> bool"
  assumes R_refl: "R w w"
    and R_trans: "R w1 w2 \<Longrightarrow> R w2 w3 \<Longrightarrow> R w1 w3"
    and R_refresh: "R w (refresh xe w)"
    and R_wait: "R w (snd (xe_wait xe t w))"
    and R_dispatch: "R w (snd (xe_dispatch xe e w))"
    and R_flags: "R w (w\<lparr>xw_exec := (xw_exec w)\<lparr>ex_cancel_guard := b, ex_cancel_requested := a, ex_wake_guard := c\<rparr>\<rparr>)"
    and R_log: "R w (w\<lparr>xw_log := lg\<rparr>)"
    and R_absorb: "R w (absorb_guards w)"
begin

lemma flags_R:
  "R w (w\<lparr>xw_exec := (xw_exec w)\<lparr>ex_cancel_guard := b, ex_cancel_requested := a\<rparr>\<rparr>)"
  "R w (w\<lparr>xw_exec := (xw_exec w)\<lparr>ex_wake_guard := c\<rparr>\<rparr>)"
  "R w (w\<lparr>xw_exec := (xw_exec w)\<lparr>ex_cancel_requested := a\<rparr>\<rparr>)"
  using R_flags [where w = w and a = a and b = b and c = "ex_wake_guard (xw_exec w)"]
    R_flags [where w = w and a = "ex_cancel_requested (xw_exec w)" and b = "ex_cancel_guard (xw_exec w)" and c = c]
    R_flags [where w = w and a = a and b = "ex_cancel_guard (xw_exec w)" and c = "ex_wake_guard (xw_exec w)"]
  by simp_all

lemma process_id_R: "R w (snd (process_id xe i w))"
proof -
  have "R w w'" if "xe_dispatch xe e w = (r, w')" for e r w'
    using R_dispatch [of w e] that by simp
  moreover have "R w (w'\<lparr>xw_log := lg\<rparr>)" if "xe_dispatch xe e w = (r, w')" for e r w' lg
    using R_trans [OF _ R_log] R_dispatch [of w e] that by simp
  ultimately show ?thesis
    using R_refl flags_R
    by (auto simp: process_id_def ebind_def ecatch_def log_dispatch_error_def
        split: option.splits prod.splits sum.splits)
qed

lemma process_loop_R: "R w (snd (process_loop xe n ids d w))"
proof (induction n arbitrary: ids d w)
  case (Suc n)
  show ?case
  proof (cases ids)
    case (Cons i ids')
    obtain r w1 where i: "process_id xe i w = (r, w1)" by fastforce
    then have "R w w1" using process_id_R [of w i] by simp
    then show ?thesis using i Cons R_trans [OF _ Suc.IH] by (cases r) (auto simp: ebind_def)
  qed (simp add: R_refl)
qed (simp add: R_refl)

lemma wait_and_process_R: "R w (snd (wait_and_process xe t w))"
proof -
  obtain n ids w1 where wait: "xe_wait xe t (refresh xe w) = ((n, ids), w1)" by (metis prod_cases3 prod.collapse)
  then have w1: "R w w1" using R_trans [OF R_refresh R_wait, of w t] by simp
  obtain r w2 where loop: "process_loop xe (nat n) (take 64 ids) False w1 = (r, w2)" by fastforce
  then have w2: "R w w2" using R_trans [OF w1 process_loop_R] by (metis snd_conv)
  show ?thesis
    using wait loop w1 w2 R_trans [OF w2 R_absorb]
    by (cases r) (auto simp: wait_and_process_def ebind_def)
qed

lemma spin_once_R: "R w (snd (spin_once xe t w))"
  by (simp add: spin_once_def wait_and_process_R)

lemma spin_loop_R: "spin_loop xe w = Some (r, w') \<Longrightarrow> R w w'"
proof -
  have "x = xe \<longrightarrow> R w (snd y)" if "spin_loop x w = Some y" for x w y
  proof (rule spin_loop.raw_induct [OF _ that])
    fix spin_loop x' w y
    assume IH: "\<And>x w y. spin_loop x w = Some y \<Longrightarrow> x = xe \<longrightarrow> R w (snd y)"
      and run: "(if ex_cancel_requested (xw_exec w) then Some (Inr (), w)
        else case wait_and_process x' DDS_INFINITY w of
             (Inl e, w1) \<Rightarrow> Some (Inl e, w1) | (Inr _, w1) \<Rightarrow> spin_loop x' w1) = Some y"
    show "x' = xe \<longrightarrow> R w (snd y)"
    proof (intro impI)
      assume x: "x' = xe"
      obtain r1 w1 where once: "wait_and_process xe DDS_INFINITY w = (r1, w1)" by fastforce
      then have "R w w1" using wait_and_process_R [of w DDS_INFINITY] by simp
      moreover have "R w (snd y)" if "spin_loop xe w1 = Some y"
        using R_trans [OF \<open>R w w1\<close>] IH [OF that] by blast
      ultimately show "R w (snd y)"
        using run x once R_refl [of w] by (cases r1) (auto split: if_splits)
    qed
  qed
  then show "spin_loop xe w = Some (r, w') \<Longrightarrow> R w w'" by fastforce
qed

lemma spin_R: "spin xe w = Some (r, w') \<Longrightarrow> R w w'"
  unfolding spin_def using R_trans [OF flags_R(3) spin_loop_R] by blast

end


section \<open>Handles of an executor\<close>

text \<open>An executor gives back its waitset and its guards, and a constructor that throws gives back the
  guards; but the waitset is left open when a guard cannot be attached to it, since the destructor does not run.\<close>

theorem executor_handles_released:
  assumes "executor_ctor cg wg ws ac aw [] = (r, tr)" "cg \<noteq> wg" "ws \<noteq> cg" "ws \<noteq> wg"
  shows "case r of
      Inr x \<Rightarrow> unreleased (snd (executor_dtor x (ereturn ()) tr)) = []
    | Inl e \<Rightarrow> unreleased tr = (if 0 \<le> cg \<and> 0 \<le> wg \<and> 0 \<le> ws then [ws] else [])"
  using assms
  by (auto simp: executor_ctor_def executor_dtor_def guard_ctor_def guard_dtor_def ecatch_def entity_simps
      unreleased_def split: if_splits)

theorem executor_handles_released_witness:
  "\<exists>tr. (executor_ctor 1 2 3 0 (- 1) [] :: nat executor result \<times> dds_call list) =
      (Inl (InternalError ''failed to attach executor guards''), tr) \<and> unreleased tr = [3]"
proof -
  obtain r tr where run: "(executor_ctor 1 2 3 0 (- 1) [] :: nat executor result \<times> dds_call list) = (r, tr)"
    by fastforce
  then have "r = Inl (InternalError ''failed to attach executor guards'')"
    by (auto simp: executor_ctor_def guard_ctor_def guard_dtor_def ecatch_def entity_simps)
  with executor_handles_released [OF run] run show ?thesis by auto
qed

end
