(* ===== verification/Ffi.thy ===== *)
theory Ffi
  imports Executor
begin

text \<open>
  The Python bindings (\<^verbatim>\<open>src/ffi/rcllite_ffi.cpp\<close>): the registry of nodes with their raw publishers and
  subscriptions, addressed by integer handles, and the DDS configuration call.  The graph monitor and the
  registry of graph executors are in \<open>Ffi_Graph\<close>.

  \<^verbatim>\<open>g_registry_mtx\<close> makes every registry operation atomic, so a run of the program is a sequence of calls.
  \<^verbatim>\<open>NodeDestroy_\<close> and \<^verbatim>\<open>SubDestroy_\<close> do their second half (cancelling, closing) after the lock; they are one step,
  because the entry they took out of the registry is found by no other call, and a dispatch in between
  counts as one before.
  The \<^verbatim>\<open>unordered_map\<close>s are ordered maps here; no result depends on the iteration order (a handle has
  one owner, see \<open>ffi_ok\<close>).  A \<^verbatim>\<open>TVM_FFI_THROW(ValueError)\<close> is \<open>ValueError\<close>.
\<close>

section \<open>State\<close>

record pub_entry =
  fp_topic :: string
  fp_type :: string
  fp_writer :: writer

record 'cb sub_entry =
  fs_topic :: string
  fs_type :: string
  fs_reader :: reader
  fs_callback :: 'cb
  fs_closed :: bool

text \<open>The entities of a node of the bindings: subscriptions, by address, with their reader.\<close>

datatype ffi_entity = FfiSub nat reader

definition ffi_condition :: "ffi_entity \<Rightarrow> dds_entity" where
  "ffi_condition e = (case e of FfiSub a r \<Rightarrow> rc_handle r)"

text \<open>A \<^verbatim>\<open>NodeEntry\<close>: its own executor with one node, at address 0 of \<open>fe_exec\<close>.\<close>

record ffi_node =
  fe_exec :: "ffi_entity exec_world"
  fe_pubs :: "(int, pub_entry) omap"
  fe_subs :: "(int, nat) omap"

record 'cb ffi =
  f_registry :: "(int, ffi_node) omap"
  f_next_handle :: int
  f_heap :: "'cb sub_entry list"
  f_released :: "ffi_node list"
  f_build :: node_world
  f_wires :: "int \<Rightarrow> wire"

record ffi_env =
  fv_node :: "dds_call list \<Rightarrow> node_env"
  fv_executor :: "dds_call list \<Rightarrow> executor_calls"
  fv_exec :: "ffi_entity exec_env"
  fv_writer :: "dds_call list \<Rightarrow> writer_calls"
  fv_reader :: "dds_call list \<Rightarrow> reader_calls"
  fv_we :: "int \<Rightarrow> dds_writer_env"

definition ffi_exec_env :: "ffi_env \<Rightarrow> ffi_entity exec_env" where
  "ffi_exec_env fv = (fv_exec fv)\<lparr>xe_cond_of := ffi_condition\<rparr>"

definition fe_node :: "ffi_node \<Rightarrow> ffi_entity node" where
  "fe_node e = xw_nodes (fe_exec e) 0"

definition fe_set_node :: "ffi_entity node \<Rightarrow> ffi_node \<Rightarrow> ffi_node" where
  "fe_set_node n e = e\<lparr>fe_exec := (fe_exec e)\<lparr>xw_nodes := (xw_nodes (fe_exec e))(0 := n)\<rparr>\<rparr>"

definition on_world :: "'a building \<Rightarrow> ('cb ffi, 'a) eff" where
  "on_world f s = (case f (f_build s) of (r, b) \<Rightarrow> (r, s\<lparr>f_build := b\<rparr>))"

definition f_calls :: "'cb ffi \<Rightarrow> dds_call list" where
  "f_calls s = nw_calls (f_build s)"

text \<open>\<^verbatim>\<open>g_next_handle++\<close> on a signed 64-bit integer.\<close>

definition next_handle :: "('cb ffi, int) eff" where
  "next_handle s =
     (if in_int64 (f_next_handle s + 1) then (Inr (f_next_handle s), s\<lparr>f_next_handle := f_next_handle s + 1\<rparr>)
      else (Inl (UndefinedBehaviour ''handle counter overflow''), s))"

text \<open>\<^verbatim>\<open>unordered_map::emplace\<close>: an existing entry is kept.\<close>

definition om_emplace :: "'k::linorder \<Rightarrow> 'v \<Rightarrow> ('k, 'v) omap \<Rightarrow> ('k, 'v) omap" where
  "om_emplace k v m = (if om_find m k = None then om_upd k v m else m)"


section \<open>Nodes\<close>

definition unknown_node :: "int \<Rightarrow> rcl_error" where
  "unknown_node h = ValueError (''unknown node handle: '' @ show_int h)"

definition lookup :: "int \<Rightarrow> ('cb ffi, ffi_node) eff" where
  "lookup h s =
     (case om_find (f_registry s) h of None \<Rightarrow> (Inl (unknown_node h), s) | Some e \<Rightarrow> (Inr e, s))"

definition ffi_executor :: "executor_calls \<Rightarrow> ffi_entity executor dds" where
  "ffi_executor xc =
     executor_ctor (xc_cancel xc) (xc_wake xc) (xc_waitset xc) (xc_attach_cancel xc) (xc_attach_wake xc)"

definition NodeCreate :: "ffi_env \<Rightarrow> string \<Rightarrow> string \<Rightarrow> ('cb ffi, int) eff" where
  "NodeCreate fv name ns =
     ebind (egets f_calls) (\<lambda>tr.
     ebind (on_world (node_ctor (fv_node fv tr) name ns)) (\<lambda>n.
     ebind (egets f_calls) (\<lambda>tr1.
     ebind (ecatch (on_world (on_calls (ffi_executor (fv_executor fv tr1))))
              (\<lambda>e. ebind (on_world (on_calls (node_dtor n))) (\<lambda>_. ethrow e))) (\<lambda>x.
     let entry = \<lparr>fe_exec = add_node (ffi_exec_env fv) 0 \<lparr>xw_exec = x, xw_nodes = (\<lambda>_. n), xw_log = []\<rparr>,
                  fe_pubs = [], fe_subs = []\<rparr> in
     ebind next_handle (\<lambda>h.
     ebind (emodify (\<lambda>s. s\<lparr>f_registry := om_emplace h entry (f_registry s)\<rparr>)) (\<lambda>_.
     ereturn h))))))"

text \<open>
  Shared ownership: a subscription object is kept alive by the entity list of its node and by the
  attachments of the executor (the registry holds only some of those in the list); its reader is deleted
  when the last of them lets it go.
\<close>

definition entry_entities :: "ffi_node \<Rightarrow> ffi_entity list" where
  "entry_entities e =
     entities (fe_node e) @ List.map_filter (\<lambda>(i, a). a_entity a) (ex_attached (xw_exec (fe_exec e)))"

definition sub_dtor :: "ffi_entity \<Rightarrow> unit dds" where
  "sub_dtor x = (case x of FfiSub a r \<Rightarrow> reader_dtor r)"

definition drop_subs :: "ffi_entity list \<Rightarrow> ffi_entity list \<Rightarrow> unit dds" where
  "drop_subs held_before held_after = efor sub_dtor [x \<leftarrow> remdups held_before. x \<notin> set held_after]"

text \<open>The destructor of a \<^verbatim>\<open>NodeEntry\<close>: publishers, executor (with the subscriptions only it still holds) and
  node (discovery writer, change guard, entities, participant).\<close>

definition release_entry :: "ffi_node \<Rightarrow> unit dds" where
  "release_entry e =
     ebind (efor (\<lambda>(h, p). writer_dtor (fp_writer p)) (fe_pubs e)) (\<lambda>_.
     ebind (executor_dtor (xw_exec (fe_exec e)) (drop_subs (entry_entities e) (entities (fe_node e)))) (\<lambda>_.
     ebind (writer_dtor (p_writer (n_discovery (fe_node e)))) (\<lambda>_.
     ebind (guard_dtor (n_guard_handle (fe_node e))) (\<lambda>_.
     ebind (drop_subs (entities (fe_node e)) []) (\<lambda>_.
     participant_dtor (n_participant (fe_node e)))))))"

text \<open>Destructors, which do not throw.\<close>

definition ffi_calls :: "unit dds \<Rightarrow> 'cb ffi \<Rightarrow> 'cb ffi" where
  "ffi_calls f s = s\<lparr>f_build := (f_build s)\<lparr>nw_calls := snd (f (nw_calls (f_build s)))\<rparr>\<rparr>"

lemma ffi_calls_simps [simp]:
  "f_registry (ffi_calls f s) = f_registry s" "f_next_handle (ffi_calls f s) = f_next_handle s"
  "f_heap (ffi_calls f s) = f_heap s" "f_released (ffi_calls f s) = f_released s"
  "f_wires (ffi_calls f s) = f_wires s" "nw_calls (f_build (ffi_calls f s)) = snd (f (nw_calls (f_build s)))"
  by (simp_all add: ffi_calls_def)

text \<open>\<open>held\<close> says whether a spin on another thread still holds the entry; its executor has been cancelled,
  and the entry goes away when that spin returns (\<open>SpinReturns\<close>).\<close>

definition NodeDestroy :: "bool \<Rightarrow> int \<Rightarrow> ('cb ffi, unit) eff" where
  "NodeDestroy held h s =
     (case om_find (f_registry s) h of
        None \<Rightarrow> (Inr (), s)
      | Some e \<Rightarrow>
          let e1 = e\<lparr>fe_exec := cancel (fe_exec e)\<rparr>;
              s1 = s\<lparr>f_registry := om_erase h (f_registry s)\<rparr>
          in (Inr (), if held then s1\<lparr>f_released := f_released s @ [e1]\<rparr>
                      else ffi_calls (release_entry e1) s1))"

definition NodeName :: "int \<Rightarrow> ('cb ffi, string) eff" where
  "NodeName h = ebind (lookup h) (\<lambda>e. ereturn (n_name (fe_node e)))"

definition NodeNamespace :: "int \<Rightarrow> ('cb ffi, string) eff" where
  "NodeNamespace h = ebind (lookup h) (\<lambda>e. ereturn (n_ns (fe_node e)))"

definition NodeFqName :: "int \<Rightarrow> ('cb ffi, string) eff" where
  "NodeFqName h = ebind (lookup h) (\<lambda>e. ereturn (n_fq_name (fe_node e)))"

definition set_exec :: "int \<Rightarrow> ffi_entity exec_world \<Rightarrow> 'cb ffi \<Rightarrow> 'cb ffi" where
  "set_exec h x s =
     (case om_find (f_registry s) h of
        None \<Rightarrow> s
      | Some e \<Rightarrow>
          let e1 = e\<lparr>fe_exec := x\<rparr> in
          ffi_calls (drop_subs (entry_entities e) (entry_entities e1)) (s\<lparr>f_registry := om_upd h e1 (f_registry s)\<rparr>))"

definition NodeSpin :: "ffi_env \<Rightarrow> int \<Rightarrow> 'cb ffi \<Rightarrow> (unit result \<times> 'cb ffi) option" where
  "NodeSpin fv h s =
     (case om_find (f_registry s) h of
        None \<Rightarrow> Some (Inl (unknown_node h), s)
      | Some e \<Rightarrow> map_option (\<lambda>(r, x). (r, set_exec h x s)) (spin (ffi_exec_env fv) (fe_exec e)))"

text \<open>The rest of a spin whose entry was destroyed meanwhile: when it returns, the last reference goes.\<close>

definition SpinReturns :: "ffi_env \<Rightarrow> nat \<Rightarrow> 'cb ffi \<Rightarrow> (unit result \<times> 'cb ffi) option" where
  "SpinReturns fv i s =
     (if length (f_released s) \<le> i then Some (Inr (), s)
      else
        let e = f_released s ! i in
        map_option (\<lambda>(r, x).
            let e1 = e\<lparr>fe_exec := x\<rparr> in
            (r, ffi_calls (ebind (drop_subs (entry_entities e) (entry_entities e1)) (\<lambda>_. release_entry e1))
                  (s\<lparr>f_released := take i (f_released s) @ drop (Suc i) (f_released s)\<rparr>)))
          (spin (ffi_exec_env fv) (fe_exec e)))"

text \<open>\<^verbatim>\<open>std::chrono::milliseconds(timeout_ms)\<close> is converted to 64-bit nanoseconds.\<close>

definition NodeSpinOnce :: "ffi_env \<Rightarrow> int \<Rightarrow> int \<Rightarrow> ('cb ffi, bool) eff" where
  "NodeSpinOnce fv h timeout_ms =
     ebind (lookup h) (\<lambda>e s.
       if \<not> in_int64 (timeout_ms * 1000000) then (Inl (UndefinedBehaviour ''timeout overflow''), s)
       else case spin_once (ffi_exec_env fv) (timeout_ms * 1000000) (fe_exec e) of
              (r, x) \<Rightarrow> (r, set_exec h x s))"

definition NodeCancel :: "int \<Rightarrow> ('cb ffi, unit) eff" where
  "NodeCancel h = ebind (lookup h) (\<lambda>e. emodify (set_exec h (cancel (fe_exec e))))"


section \<open>Configuration and payload check\<close>

definition check_cdr_payload :: "byte list \<Rightarrow> string \<Rightarrow> unit result" where
  "check_cdr_payload pl topic =
     (if length pl < 4 \<or> pl ! 0 \<noteq> 0x00 \<or> pl ! 1 \<noteq> 0x01
      then Inl (ValueError (''payload for '' @ squote topic @ '' is not a CDR-LE buffer (expected the '' @
             ''4-byte encapsulation header 00 01 00 00 produced by the message codecs)''))
      else Inr ())"

definition InitDds :: "int \<Rightarrow> string list \<Rightarrow> int \<Rightarrow> string \<Rightarrow> ('cb ffi, unit) eff" where
  "InitDds tcp_port peers domain_id iface s =
     (if tcp_port > 0xFFFF then (Inl (ValueError (''tcp_port out of range: '' @ show_int tcp_port)), s)
      else if domain_id > 232 then
        (Inl (ValueError (''domain_id out of range (0-232): '' @ show_int domain_id)), s)
      else
        let xml = (if tcp_port > 0 then
                     let own = ''127.0.0.1:'' @ show_int tcp_port;
                         dial = filter (\<lambda>peer. peer \<noteq> own) peers
                     in tcp_config_xml (word_of_int tcp_port) dial iface
                   else []);
            domain = (if domain_id \<ge> 0 then Some (word_of_int domain_id) else None)
        in case context_configure domain xml (nw_ctx (f_build s)) of
             (r, g) \<Rightarrow> (r, s\<lparr>f_build := (f_build s)\<lparr>nw_ctx := g\<rparr>\<rparr>))"


section \<open>Publishers and subscriptions\<close>

definition PubCreate ::
    "ffi_env \<Rightarrow> int \<Rightarrow> string \<Rightarrow> string \<Rightarrow> 64 word \<Rightarrow> bool \<Rightarrow> bool \<Rightarrow> ('cb ffi, int) eff" where
  "PubCreate fv node_handle topic type_name depth reliable transient_local =
     ebind (elift (dds_type_name type_name)) (\<lambda>dds_type.
     ebind (lookup node_handle) (\<lambda>entry.
     ebind (elift (ros_to_dds_topic_name topic)) (\<lambda>dds_topic.
     ebind (egets f_calls) (\<lambda>tr.
     ebind (on_world (on_calls (writer_ctor dds_topic dds_type (qos_from_args depth reliable transient_local)
              (fv_writer fv tr)))) (\<lambda>wr.
     ebind next_handle (\<lambda>h.
     ebind (emodify (\<lambda>s. s\<lparr>f_registry := om_upd node_handle
              (entry\<lparr>fe_pubs := om_emplace h \<lparr>fp_topic = topic, fp_type = dds_type, fp_writer = wr\<rparr> (fe_pubs entry)\<rparr>)
              (f_registry s)\<rparr>)) (\<lambda>_.
     ereturn h)))))))"

text \<open>The loops over the registry: the first entry that knows the handle.\<close>

fun find_pub :: "(int, ffi_node) omap \<Rightarrow> int \<Rightarrow> (int \<times> pub_entry) option" where
  "find_pub [] h = None"
| "find_pub ((k, e) # m) h =
     (case om_find (fe_pubs e) h of Some p \<Rightarrow> Some (k, p) | None \<Rightarrow> find_pub m h)"

fun find_sub :: "(int, ffi_node) omap \<Rightarrow> int \<Rightarrow> (int \<times> nat) option" where
  "find_sub [] h = None"
| "find_sub ((k, e) # m) h =
     (case om_find (fe_subs e) h of Some a \<Rightarrow> Some (k, a) | None \<Rightarrow> find_sub m h)"

definition PubPublish :: "ffi_env \<Rightarrow> int \<Rightarrow> byte list \<Rightarrow> ('cb ffi, unit) eff" where
  "PubPublish fv h pl s =
     (case find_pub (f_registry s) h of
        None \<Rightarrow> (Inl (ValueError (''unknown publisher handle: '' @ show_int h)), s)
      | Some (k, p) \<Rightarrow>
          ebind (elift (check_cdr_payload pl (fp_topic p))) (\<lambda>_ s.
            case writer_write (fv_we fv h) pl (f_wires s h) of
              (Inl e, ws) \<Rightarrow> (Inl e, s\<lparr>f_wires := (f_wires s)(h := ws)\<rparr>)
            | (Inr ok, ws) \<Rightarrow>
                (if ok then Inr () else Inl (ValueError (''publish failed on '' @ squote (fp_topic p))),
                 s\<lparr>f_wires := (f_wires s)(h := ws)\<rparr>)) s)"

text \<open>Erasing the entry drops the last reference: the writer is deleted.\<close>

definition PubDestroy :: "int \<Rightarrow> ('cb ffi, unit) eff" where
  "PubDestroy h s =
     (case find_pub (f_registry s) h of
        None \<Rightarrow> (Inr (), s)
      | Some (k, p) \<Rightarrow>
          (case om_find (f_registry s) k of
             None \<Rightarrow> (Inr (), s)
           | Some e \<Rightarrow>
               on_world (on_calls (writer_dtor (fp_writer p)))
                 (s\<lparr>f_registry := om_upd k (e\<lparr>fe_pubs := om_erase h (fe_pubs e)\<rparr>) (f_registry s)\<rparr>)))"

definition SubCreate ::
    "ffi_env \<Rightarrow> int \<Rightarrow> string \<Rightarrow> string \<Rightarrow> 64 word \<Rightarrow> bool \<Rightarrow> bool \<Rightarrow> 'cb \<Rightarrow> ('cb ffi, int) eff" where
  "SubCreate fv node_handle topic type_name depth reliable transient_local cb =
     ebind (elift (dds_type_name type_name)) (\<lambda>dds_type.
     ebind (lookup node_handle) (\<lambda>entry.
     ebind (elift (ros_to_dds_topic_name topic)) (\<lambda>dds_topic.
     ebind (egets f_calls) (\<lambda>tr.
     ebind (on_world (on_calls (reader_ctor dds_topic dds_type (qos_from_args depth reliable transient_local)
              (fv_reader fv tr)))) (\<lambda>rd.
     ebind (egets (\<lambda>s. length (f_heap s))) (\<lambda>a.
     let entry1 = fe_set_node (add_entity (FfiSub a rd) (fe_node entry)) entry in
     ebind (emodify (\<lambda>s. s\<lparr>f_heap := f_heap s @ [\<lparr>fs_topic = topic, fs_type = dds_type, fs_reader = rd,
              fs_callback = cb, fs_closed = False\<rparr>], f_registry := om_upd node_handle entry1 (f_registry s)\<rparr>)) (\<lambda>_.
     ebind next_handle (\<lambda>h.
     ebind (emodify (\<lambda>s. s\<lparr>f_registry := om_upd node_handle
              (entry1\<lparr>fe_subs := om_emplace h a (fe_subs entry1)\<rparr>) (f_registry s)\<rparr>)) (\<lambda>_.
     ereturn h)))))))))"

definition SubDestroy :: "int \<Rightarrow> ('cb ffi, unit) eff" where
  "SubDestroy h s =
     (case find_sub (f_registry s) h of
        None \<Rightarrow> (Inr (), s)
      | Some (k, a) \<Rightarrow>
          (case om_find (f_registry s) k of
             None \<Rightarrow> (Inr (), s)
           | Some e \<Rightarrow>
               let e1 = e\<lparr>fe_subs := om_erase h (fe_subs e)\<rparr>;
                   sub = f_heap s ! a;
                   e2 = fe_set_node (remove_entity (FfiSub a (fs_reader sub)) (fe_node e1)) e1
               in (Inr (), ffi_calls (drop_subs (entry_entities e) (entry_entities e2))
                     (s\<lparr>f_registry := om_upd k e2 (f_registry s), f_heap := (f_heap s)[a := sub\<lparr>fs_closed := True\<rparr>]\<rparr>))))"

section \<open>Dispatching to Python\<close>

text \<open>The state of a dispatch: whether the subscription is closed (the callback itself may destroy it),
  the state of the Python side and the log.\<close>

record 'c sub_run =
  sr_closed :: bool
  sr_user :: 'c
  sr_log :: "rcl_error list"

definition run_python :: "(bool \<times> 'c, unit) eff \<Rightarrow> ('c sub_run, unit) eff" where
  "run_python f st =
     (case f (sr_closed st, sr_user st) of (r, cl, c) \<Rightarrow> (r, st\<lparr>sr_closed := cl, sr_user := c\<rparr>))"

definition log_python :: "rcl_error \<Rightarrow> ('c sub_run, unit) eff" where
  "log_python e = emodify (\<lambda>st. st\<lparr>sr_log := sr_log st @ [e]\<rparr>)"

definition ffi_sub_sample :: "(byte list \<Rightarrow> (bool \<times> 'c, unit) eff) \<Rightarrow> byte list \<Rightarrow> ('c sub_run, unit) eff" where
  "ffi_sub_sample cb pl st =
     (if sr_closed st then (Inr (), st) else ecatch (run_python (cb pl)) log_python st)"

definition ffi_sub_dispatch ::
    "'q takecdr \<Rightarrow> (byte list \<Rightarrow> (bool \<times> 'c, unit) eff) \<Rightarrow> 'q \<Rightarrow> 'c sub_run \<Rightarrow>
     (nat result \<times> ('q, 'c sub_run) take_state) option" where
  "ffi_sub_dispatch tk cb q st =
     (if sr_closed st then Some (Inr 0, \<lparr>t_queue = q, t_unref = 0, t_user = st\<rparr>)
      else reader_take tk (ffi_sub_sample cb) q st)"


section \<open>Handles\<close>

text \<open>
  A source of handles: \<open>live\<close> are the handles in use, \<open>upcoming\<close> the next one to be issued.  What its clients
  rely on is that a handle is issued once: after its object is gone it stays unknown for ever.
\<close>

locale handle_registry =
  fixes upcoming :: "'s \<Rightarrow> int" and live :: "'s \<Rightarrow> int set" and step :: "'s \<Rightarrow> 's \<Rightarrow> bool" and ok :: "'s \<Rightarrow> bool"
  assumes live_issued: "ok s \<Longrightarrow> live s \<subseteq> {1..<upcoming s}"
    and ok_step: "ok s \<Longrightarrow> step s t \<Longrightarrow> ok t"
    and next_mono: "ok s \<Longrightarrow> step s t \<Longrightarrow> upcoming s \<le> upcoming t"
    and live_step: "ok s \<Longrightarrow> step s t \<Longrightarrow> live t \<subseteq> live s \<union> {upcoming s..<upcoming t}"
begin

lemma run_ok: "step\<^sup>*\<^sup>* s t \<Longrightarrow> ok s \<Longrightarrow> ok t \<and> upcoming s \<le> upcoming t"
  by (induction rule: rtranclp_induct) (auto intro: ok_step dest: next_mono)

lemma never_reused:
  assumes "step\<^sup>*\<^sup>* s t" "ok s" "h < upcoming s" "h \<notin> live s"
  shows "h \<notin> live t"
  using assms
proof (induction rule: rtranclp_induct)
  case (step t u)
  have "ok t" "upcoming s \<le> upcoming t" using run_ok [OF step(1) step(4)] by auto
  then show ?case using live_step [OF _ step(2)] step by auto
qed

end

text \<open>The abstract registry: a set of handles with their kind, and the next handle.\<close>

datatype handle_kind = NodeH | PubH int | SubH int

inductive handle_step :: "(int \<times> handle_kind) set \<times> int \<Rightarrow> (int \<times> handle_kind) set \<times> int \<Rightarrow> bool" where
  h_stay: "handle_step (H, n) (H, n)"
| h_node: "handle_step (H, n) (insert (n, NodeH) H, n + 1)"
| h_pub: "(k, NodeH) \<in> H \<Longrightarrow> handle_step (H, n) (insert (n, PubH k) H, n + 1)"
| h_sub: "(k, NodeH) \<in> H \<Longrightarrow> handle_step (H, n) (insert (n, SubH k) H, n + 1)"
| h_node_gone: "(k, NodeH) \<in> H \<Longrightarrow>
    handle_step (H, n) ({(h, x) \<in> H. (h, x) \<noteq> (k, NodeH) \<and> x \<noteq> PubH k \<and> x \<noteq> SubH k}, n)"
| h_pub_gone: "(h, PubH k) \<in> H \<Longrightarrow> handle_step (H, n) (H - {(h, PubH k)}, n)"
| h_sub_gone: "(h, SubH k) \<in> H \<Longrightarrow> handle_step (H, n) (H - {(h, SubH k)}, n)"

inductive_cases handle_stepE: "handle_step p q"

definition reg_handles :: "(int, ffi_node) omap \<Rightarrow> (int \<times> handle_kind) set" where
  "reg_handles m =
     {(h, x). case x of
        NodeH \<Rightarrow> om_find m h \<noteq> None
      | PubH k \<Rightarrow> (\<exists>e. om_find m k = Some e \<and> om_find (fe_pubs e) h \<noteq> None)
      | SubH k \<Rightarrow> (\<exists>e. om_find m k = Some e \<and> om_find (fe_subs e) h \<noteq> None)}"

definition handles :: "'cb ffi \<Rightarrow> (int \<times> handle_kind) set" where
  "handles s = reg_handles (f_registry s)"

definition sub_live :: "'cb sub_entry list \<Rightarrow> ffi_node \<Rightarrow> nat \<Rightarrow> bool" where
  "sub_live heap e a \<longleftrightarrow> a < length heap \<and> \<not> fs_closed (heap ! a) \<and>
     FfiSub a (fs_reader (heap ! a)) \<in> set (entities (fe_node e))"

text \<open>The invariant: handles are unambiguous and issued; the subscription a handle stands for is open, an
  entity of the node that owns it, and belongs to no other handle.\<close>

definition handles_ok :: "(int \<times> handle_kind) set \<Rightarrow> int \<Rightarrow> bool" where
  "handles_ok H n \<longleftrightarrow> 1 \<le> n \<and> single_valued H \<and> fst ` H \<subseteq> {1..<n} \<and>
     (\<forall>h k. (h, PubH k) \<in> H \<or> (h, SubH k) \<in> H \<longrightarrow> (k, NodeH) \<in> H)"

definition subs_ok :: "'cb ffi \<Rightarrow> bool" where
  "subs_ok s \<longleftrightarrow>
     (\<forall>k e h a. om_find (f_registry s) k = Some e \<longrightarrow> om_find (fe_subs e) h = Some a \<longrightarrow> sub_live (f_heap s) e a) \<and>
     (\<forall>k e h k' e' h' a. om_find (f_registry s) k = Some e \<longrightarrow> om_find (fe_subs e) h = Some a \<longrightarrow>
        om_find (f_registry s) k' = Some e' \<longrightarrow> om_find (fe_subs e') h' = Some a \<longrightarrow> k = k' \<and> h = h')"

definition ffi_ok :: "'cb ffi \<Rightarrow> bool" where
  "ffi_ok s \<longleftrightarrow> om_ok (f_registry s) \<and> handles_ok (handles s) (f_next_handle s) \<and> subs_ok s"

lemma handles_ok_insert:
  assumes "handles_ok H n" "\<And>k. x = PubH k \<or> x = SubH k \<Longrightarrow> (k, NodeH) \<in> H"
  shows "handles_ok (insert (n, x) H) (n + 1)"
proof -
  have "h < n" if "(h, y) \<in> H" for h y using that assms(1) by (force simp: handles_ok_def)
  then have "(n, y) \<notin> H" for y by blast
  then have "single_valued (insert (n, x) H)"
    using assms(1) by (auto simp: handles_ok_def single_valued_def)
  moreover have "fst ` insert (n, x) H \<subseteq> {1..<n + 1}"
    using assms(1) by (auto simp: handles_ok_def)
  ultimately show ?thesis using assms unfolding handles_ok_def by auto
qed

lemma handles_ok_owner:
  "(h, PubH k) \<in> H \<Longrightarrow> handles_ok H n \<Longrightarrow> (k, NodeH) \<in> H"
  "(h, SubH k) \<in> H \<Longrightarrow> handles_ok H n \<Longrightarrow> (k, NodeH) \<in> H"
  by (auto simp: handles_ok_def)

lemma handles_ok_subset:
  assumes "handles_ok H n" "H' \<subseteq> H" "\<And>h k. (h, PubH k) \<in> H' \<or> (h, SubH k) \<in> H' \<Longrightarrow> (k, NodeH) \<in> H'"
  shows "handles_ok H' n"
  using assms single_valued_subset [OF assms(2)] unfolding handles_ok_def by blast

lemma handle_step_ok:
  assumes "handle_step p q" "handles_ok (fst p) (snd p)"
  shows "handles_ok (fst q) (snd q)" "snd p \<le> snd q" "fst ` fst q \<subseteq> fst ` fst p \<union> {snd p..<snd q}"
proof -
  show "handles_ok (fst q) (snd q)"
    using assms
  proof (induction rule: handle_step.induct)
    case (h_node_gone k H n)
    then show ?case
      unfolding fst_conv snd_conv by - (rule handles_ok_subset [of H n], auto dest: handles_ok_owner)
  next
    case (h_pub_gone h k H n)
    then show ?case
      unfolding fst_conv snd_conv by - (rule handles_ok_subset [of H n], auto dest: handles_ok_owner)
  next
    case (h_sub_gone h k H n)
    then show ?case
      unfolding fst_conv snd_conv by - (rule handles_ok_subset [of H n], auto dest: handles_ok_owner)
  qed (auto intro: handles_ok_insert)
  show "snd p \<le> snd q" "fst ` fst q \<subseteq> fst ` fst p \<union> {snd p..<snd q}"
    using assms(1) by (induction rule: handle_step.induct) auto
qed

text \<open>In a state that satisfies the invariant the loops over the registry find the one owner.\<close>

lemma find_pub_SomeD:
  "find_pub m h = Some (k, p) \<Longrightarrow> \<exists>e. (k, e) \<in> set m \<and> om_find (fe_pubs e) h = Some p"
  by (induction m h rule: find_pub.induct) (auto split: option.splits)

lemma find_pub_None: "find_pub m h = None \<longleftrightarrow> (\<forall>(k, e) \<in> set m. om_find (fe_pubs e) h = None)"
  by (induction m h rule: find_pub.induct) (auto split: option.splits)

lemma find_sub_SomeD:
  "find_sub m h = Some (k, a) \<Longrightarrow> \<exists>e. (k, e) \<in> set m \<and> om_find (fe_subs e) h = Some a"
  by (induction m h rule: find_sub.induct) (auto split: option.splits)

lemma find_sub_None: "find_sub m h = None \<longleftrightarrow> (\<forall>(k, e) \<in> set m. om_find (fe_subs e) h = None)"
  by (induction m h rule: find_sub.induct) (auto split: option.splits)

lemma reg_handles_iff [simp]:
  "(h, NodeH) \<in> reg_handles m \<longleftrightarrow> om_find m h \<noteq> None"
  "(h, PubH k) \<in> reg_handles m \<longleftrightarrow> (\<exists>e. om_find m k = Some e \<and> om_find (fe_pubs e) h \<noteq> None)"
  "(h, SubH k) \<in> reg_handles m \<longleftrightarrow> (\<exists>e. om_find m k = Some e \<and> om_find (fe_subs e) h \<noteq> None)"
  by (simp_all add: reg_handles_def)

lemma reg_handles_eqI:
  assumes "\<And>h. (h, NodeH) \<in> A \<longleftrightarrow> (h, NodeH) \<in> B" "\<And>h k. (h, PubH k) \<in> A \<longleftrightarrow> (h, PubH k) \<in> B"
    and "\<And>h k. (h, SubH k) \<in> A \<longleftrightarrow> (h, SubH k) \<in> B"
  shows "A = B"
proof -
  have "(h, x) \<in> A \<longleftrightarrow> (h, x) \<in> B" for h x by (cases x) (simp_all add: assms)
  then show ?thesis by auto
qed

lemma om_find_emplace [simp]:
  "om_find (om_emplace k v m) i = (if i = k then Some (case om_find m k of None \<Rightarrow> v | Some u \<Rightarrow> u) else om_find m i)"
  by (auto simp: om_emplace_def)

lemma om_upd_upd [simp]: "om_upd k v (om_upd k u m) = om_upd k v m"
  by (induction m) auto

lemma reg_handles_update:
  assumes "om_find m k = Some e" "fe_pubs e' = fe_pubs e" "fe_subs e' = fe_subs e"
  shows "reg_handles (om_upd k e' m) = reg_handles m"
  by (rule reg_handles_eqI) (use assms in auto)

lemma reg_handles_node:
  assumes "om_find m h = None" "fe_pubs e = []" "fe_subs e = []"
  shows "reg_handles (om_emplace h e m) = insert (h, NodeH) (reg_handles m)"
  by (rule reg_handles_eqI) (use assms in auto)

lemma reg_handles_pub:
  assumes "om_find m k = Some e" "om_find (fe_pubs e) h = None"
  shows "reg_handles (om_upd k (e\<lparr>fe_pubs := om_emplace h p (fe_pubs e)\<rparr>) m) = insert (h, PubH k) (reg_handles m)"
  by (rule reg_handles_eqI) (use assms in auto)

lemma reg_handles_sub:
  assumes "om_find m k = Some e" "om_find (fe_subs e) h = None"
  shows "reg_handles (om_upd k (fe_set_node n e\<lparr>fe_subs := om_emplace h a (fe_subs e)\<rparr>) m) = insert (h, SubH k) (reg_handles m)"
  by (rule reg_handles_eqI) (use assms in \<open>auto simp: fe_set_node_def\<close>)

lemma reg_handles_erase:
  "reg_handles (om_erase k m) = {(h, x) \<in> reg_handles m. (h, x) \<noteq> (k, NodeH) \<and> x \<noteq> PubH k \<and> x \<noteq> SubH k}"
  by (rule reg_handles_eqI) auto

lemma reg_handles_pub_erase:
  assumes "om_find m k = Some e"
  shows "reg_handles (om_upd k (e\<lparr>fe_pubs := om_erase h (fe_pubs e)\<rparr>) m) = reg_handles m - {(h, PubH k)}"
  by (rule reg_handles_eqI) (use assms in auto)

lemma reg_handles_sub_erase:
  assumes "om_find m k = Some e"
  shows "reg_handles (om_upd k (fe_set_node n (e\<lparr>fe_subs := om_erase h (fe_subs e)\<rparr>)) m) = reg_handles m - {(h, SubH k)}"
  by (rule reg_handles_eqI) (use assms in \<open>auto simp: fe_set_node_def\<close>)

text \<open>What each operation does to the registry, the heap and the counter.\<close>

definition same_tables :: "'cb ffi \<Rightarrow> 'cb ffi \<Rightarrow> bool" where
  "same_tables s s' \<longleftrightarrow> f_registry s' = f_registry s \<and> f_next_handle s' = f_next_handle s \<and> f_heap s' = f_heap s"

lemma same_tables_refl [simp]: "same_tables s s"
  by (simp add: same_tables_def)

lemma same_tables_build [simp]: "same_tables s (s\<lparr>f_build := b\<rparr>)" "same_tables s (s\<lparr>f_wires := ws\<rparr>)"
  by (simp_all add: same_tables_def)

lemma on_world_frame: "on_world f s = (r, s') \<Longrightarrow> \<exists>b. s' = s\<lparr>f_build := b\<rparr>"
  by (auto simp: on_world_def split: prod.splits)

lemma lookup_eq: "lookup h s = (r, s') \<longleftrightarrow>
  s' = s \<and> r = (case om_find (f_registry s) h of None \<Rightarrow> Inl (unknown_node h) | Some e \<Rightarrow> Inr e)"
  by (auto simp: lookup_def split: option.splits)

lemma NodeCreate_cases:
  assumes "NodeCreate fv name ns s = (r, s')"
  shows "(\<exists>err. r = Inl err) \<and> same_tables s s' \<or>
    (\<exists>e. r = Inr (f_next_handle s) \<and> fe_pubs e = [] \<and> fe_subs e = [] \<and> f_next_handle s' = f_next_handle s + 1 \<and>
      f_registry s' = om_emplace (f_next_handle s) e (f_registry s) \<and> f_heap s' = f_heap s)"
proof -
  obtain r1 :: "ffi_entity node result" and s1 where n: "on_world (node_ctor (fv_node fv (f_calls s)) name ns) s = (r1, s1)" by fastforce
  then obtain b1 where s1: "s1 = s\<lparr>f_build := b1\<rparr>" using on_world_frame by blast
  obtain r2 s2 where x: "on_world (on_calls (ffi_executor (fv_executor fv (f_calls s1)))) s1 = (r2, s2)" by fastforce
  then obtain b2 where s2: "s2 = s\<lparr>f_build := b2\<rparr>" using on_world_frame s1 by fastforce
  show ?thesis
  proof (cases r1)
    case (Inl e)
    then show ?thesis using assms n s1 by (auto simp: NodeCreate_def ebind_def)
  next
    case n1: (Inr n)
    obtain r3 s3 where d: "on_world (on_calls (node_dtor n)) s2 = (r3, s3)" by fastforce
    then obtain b3 where s3: "s3 = s\<lparr>f_build := b3\<rparr>" using on_world_frame s2 by fastforce
    show ?thesis
    proof (cases r2)
      case (Inl e)
      then show ?thesis using assms n x n1 d s2 s3
        by (cases r3) (auto simp: NodeCreate_def ebind_def ecatch_def split: if_splits)
    next
      case (Inr ex)
      let ?e = "\<lparr>fe_exec = add_node (ffi_exec_env fv) 0 \<lparr>xw_exec = ex, xw_nodes = (\<lambda>_. n), xw_log = []\<rparr>,
          fe_pubs = [], fe_subs = []\<rparr>"
      show ?thesis
      proof (cases "in_int64 (f_next_handle s + 1)")
        case True
        then show ?thesis using assms n x n1 s2 Inr
          by (intro disjI2 exI [of _ ?e]) (auto simp: NodeCreate_def ebind_def ecatch_def next_handle_def Let_def)
      next
        case False
        then show ?thesis using assms n x n1 s2 Inr
          by (auto simp: NodeCreate_def ebind_def ecatch_def next_handle_def Let_def)
      qed
    qed
  qed
qed

lemma PubCreate_cases:
  assumes "PubCreate fv k topic ty depth rel trl s = (r, s')"
  shows "(\<exists>err. r = Inl err) \<and> same_tables s s' \<or>
    (\<exists>e p. om_find (f_registry s) k = Some e \<and> r = Inr (f_next_handle s) \<and> f_next_handle s' = f_next_handle s + 1 \<and>
      fp_topic p = topic \<and>
      f_registry s' = om_upd k (e\<lparr>fe_pubs := om_emplace (f_next_handle s) p (fe_pubs e)\<rparr>) (f_registry s) \<and> f_heap s' = f_heap s)"
proof (cases "dds_type_name ty")
  case (Inl e)
  then show ?thesis using assms by (auto simp: PubCreate_def)
next
  case ty: (Inr dty)
  show ?thesis
  proof (cases "om_find (f_registry s) k")
    case None
    then show ?thesis using assms ty by (auto simp: PubCreate_def ebind_def lookup_eq lookup_def)
  next
    case k: (Some e)
    show ?thesis
    proof (cases "ros_to_dds_topic_name topic")
      case (Inl e)
      then show ?thesis using assms ty k by (auto simp: PubCreate_def ebind_def lookup_def)
    next
      case tp: (Inr dt)
      obtain r1 s1 where wr: "on_world (on_calls (writer_ctor dt dty (qos_from_args depth rel trl)
          (fv_writer fv (f_calls s)))) s = (r1, s1)" by fastforce
      then obtain b where s1: "s1 = s\<lparr>f_build := b\<rparr>" using on_world_frame by blast
      show ?thesis
      proof (cases "\<exists>wr. r1 = Inr wr \<and> in_int64 (f_next_handle s + 1)")
        case True
        then obtain w where "r1 = Inr w" "in_int64 (f_next_handle s + 1)" by blast
        then show ?thesis
          using assms ty k tp wr s1
          by (intro disjI2 exI [of _ e] exI [of _ "\<lparr>fp_topic = topic, fp_type = dty, fp_writer = w\<rparr>"])
            (auto simp: PubCreate_def ebind_def lookup_def next_handle_def)
      next
        case False
        then show ?thesis
          using assms ty k tp wr s1
          by (cases r1) (auto simp: PubCreate_def ebind_def lookup_def next_handle_def split: if_splits)
      qed
    qed
  qed
qed

lemma SubCreate_cases:
  assumes "SubCreate fv k topic ty depth rel trl cb s = (r, s')"
  shows "(\<exists>err. r = Inl err) \<and> same_tables s s' \<or>
    (\<exists>e sub e1. om_find (f_registry s) k = Some e \<and> f_heap s' = f_heap s @ [sub] \<and> \<not> fs_closed sub \<and> fs_callback sub = cb \<and>
      e1 = fe_set_node (add_entity (FfiSub (length (f_heap s)) (fs_reader sub)) (fe_node e)) e \<and>
      ((r = Inr (f_next_handle s) \<and> f_next_handle s' = f_next_handle s + 1 \<and>
        f_registry s' = om_upd k (e1\<lparr>fe_subs := om_emplace (f_next_handle s) (length (f_heap s)) (fe_subs e1)\<rparr>)
          (om_upd k e1 (f_registry s))) \<or>
       ((\<exists>m. r = Inl (UndefinedBehaviour m)) \<and> f_next_handle s' = f_next_handle s \<and> f_registry s' = om_upd k e1 (f_registry s))))"
proof (cases "dds_type_name ty")
  case (Inl e)
  then show ?thesis using assms by (auto simp: SubCreate_def)
next
  case ty: (Inr dty)
  show ?thesis
  proof (cases "om_find (f_registry s) k")
    case None
    then show ?thesis using assms ty by (auto simp: SubCreate_def ebind_def lookup_def)
  next
    case k: (Some e)
    show ?thesis
    proof (cases "ros_to_dds_topic_name topic")
      case (Inl e)
      then show ?thesis using assms ty k by (auto simp: SubCreate_def ebind_def lookup_def)
    next
      case tp: (Inr dt)
      obtain r1 s1 where rd: "on_world (on_calls (reader_ctor dt dty (qos_from_args depth rel trl)
          (fv_reader fv (f_calls s)))) s = (r1, s1)" by fastforce
      then obtain b where s1: "s1 = s\<lparr>f_build := b\<rparr>" using on_world_frame by blast
      show ?thesis
      proof (cases r1)
        case (Inl e)
        then show ?thesis using assms ty k tp rd s1 by (auto simp: SubCreate_def ebind_def lookup_def)
      next
        case (Inr rdr)
        then show ?thesis
          using assms ty k tp rd s1
          by (intro disjI2 exI [of _ e] exI [of _ "\<lparr>fs_topic = topic, fs_type = dty, fs_reader = rdr, fs_callback = cb, fs_closed = False\<rparr>"]
              exI [of _ "fe_set_node (add_entity (FfiSub (length (f_heap s)) rdr) (fe_node e)) e"])
            (auto simp: SubCreate_def ebind_def lookup_def next_handle_def Let_def split: if_splits)
      qed
    qed
  qed
qed

section \<open>The registry refines the abstract one\<close>

datatype 'cb ffi_call =
    CNodeCreate string string
  | CNodeDestroy bool int
  | CNodeSpin int
  | CSpinReturns nat
  | CNodeSpinOnce int int
  | CNodeCancel int
  | CInitDds int "string list" int string
  | CPubCreate int string string "64 word" bool bool
  | CPubPublish int "byte list"
  | CPubDestroy int
  | CSubCreate int string string "64 word" bool bool 'cb
  | CSubDestroy int

text \<open>The state after a call, whether it returned or threw; a spin that never returns changes nothing here.\<close>

fun ffi_do :: "ffi_env \<Rightarrow> 'cb ffi_call \<Rightarrow> 'cb ffi \<Rightarrow> 'cb ffi" where
  "ffi_do fv (CNodeCreate name ns) s = snd (NodeCreate fv name ns s)"
| "ffi_do fv (CNodeDestroy held h) s = snd (NodeDestroy held h s)"
| "ffi_do fv (CNodeSpin h) s = (case NodeSpin fv h s of None \<Rightarrow> s | Some (r, s') \<Rightarrow> s')"
| "ffi_do fv (CSpinReturns i) s = (case SpinReturns fv i s of None \<Rightarrow> s | Some (r, s') \<Rightarrow> s')"
| "ffi_do fv (CNodeSpinOnce h t) s = snd (NodeSpinOnce fv h t s)"
| "ffi_do fv (CNodeCancel h) s = snd (NodeCancel h s)"
| "ffi_do fv (CInitDds port peers dom_id iface) s = snd (InitDds port peers dom_id iface s)"
| "ffi_do fv (CPubCreate k topic ty depth rel trl) s = snd (PubCreate fv k topic ty depth rel trl s)"
| "ffi_do fv (CPubPublish h pl) s = snd (PubPublish fv h pl s)"
| "ffi_do fv (CPubDestroy h) s = snd (PubDestroy h s)"
| "ffi_do fv (CSubCreate k topic ty depth rel trl cb) s = snd (SubCreate fv k topic ty depth rel trl cb s)"
| "ffi_do fv (CSubDestroy h) s = snd (SubDestroy h s)"

definition ffi_init :: "'cb ffi \<Rightarrow> bool" where
  "ffi_init s \<longleftrightarrow> f_registry s = [] \<and> f_next_handle s = 1 \<and> f_heap s = [] \<and> f_released s = [] \<and> f_calls s = []"

definition ffi_step :: "ffi_env \<Rightarrow> 'cb ffi \<Rightarrow> 'cb ffi \<Rightarrow> bool" where
  "ffi_step fv s t \<longleftrightarrow> (\<exists>c. t = ffi_do fv c s)"

text \<open>What a round of the executor may not do behind the registry's back: change the entity list of the
  node (callbacks that create or destroy endpoints are calls of their own).\<close>

definition quiet_exec :: "ffi_env \<Rightarrow> bool" where
  "quiet_exec fv \<longleftrightarrow>
     (\<forall>t w. entities (xw_nodes (snd (xe_wait (fv_exec fv) t w)) 0) = entities (xw_nodes w 0)) \<and>
     (\<forall>e w. entities (xw_nodes (snd (xe_dispatch (fv_exec fv) e w)) 0) = entities (xw_nodes w 0))"

lemma fe_node_simps [simp]:
  "fe_node (fe_set_node n e) = n" "fe_pubs (fe_set_node n e) = fe_pubs e" "fe_subs (fe_set_node n e) = fe_subs e"
  "fe_node (e\<lparr>fe_subs := x\<rparr>) = fe_node e" "fe_node (e\<lparr>fe_pubs := y\<rparr>) = fe_node e"
  by (simp_all add: fe_node_def fe_set_node_def)

interpretation quiet: exec_relation "ffi_exec_env fv"
  "\<lambda>w w'. quiet_exec fv \<longrightarrow> entities (xw_nodes w' 0) = entities (xw_nodes w 0)" for fv :: ffi_env
proof
  show "quiet_exec fv \<longrightarrow> entities (xw_nodes (snd (xe_wait (ffi_exec_env fv) t w)) 0) = entities (xw_nodes w 0)" for t w
    by (simp add: quiet_exec_def ffi_exec_env_def)
  show "quiet_exec fv \<longrightarrow> entities (xw_nodes (snd (xe_dispatch (ffi_exec_env fv) e w)) 0) = entities (xw_nodes w 0)" for e w
    by (simp add: quiet_exec_def ffi_exec_env_def)
qed (simp_all add: refresh_def absorb_guards_def entities_def)

lemmas spin_once_quiet = quiet.spin_once_R [rule_format]
lemmas spin_quiet = quiet.spin_R [rule_format]

lemma fresh_handle:
  assumes "ffi_ok s"
  shows "om_find (f_registry s) (f_next_handle s) = None"
    and "om_find (f_registry s) k = Some e \<Longrightarrow> om_find (fe_pubs e) (f_next_handle s) = None"
    and "om_find (f_registry s) k = Some e \<Longrightarrow> om_find (fe_subs e) (f_next_handle s) = None"
proof -
  have "(f_next_handle s, x) \<notin> handles s" for x using assms by (force simp: ffi_ok_def handles_ok_def)
  from this [of NodeH] this [of "PubH k"] this [of "SubH k"]
  show "om_find (f_registry s) (f_next_handle s) = None"
    and "om_find (f_registry s) k = Some e \<Longrightarrow> om_find (fe_pubs e) (f_next_handle s) = None"
    and "om_find (f_registry s) k = Some e \<Longrightarrow> om_find (fe_subs e) (f_next_handle s) = None"
    by (auto simp: handles_def)
qed

lemma set_exec_handles [simp]:
  "handles (set_exec h x s) = handles s" "f_next_handle (set_exec h x s) = f_next_handle s"
  by (simp_all add: handles_def set_exec_def Let_def reg_handles_update split: option.splits)

lemma same_tables_handles: "same_tables s s' \<Longrightarrow> handles s' = handles s \<and> f_next_handle s' = f_next_handle s"
  by (simp add: same_tables_def handles_def)

lemma PubDestroy_cases:
  assumes "PubDestroy h s = (r, s')" "om_ok (f_registry s)"
  shows "r = Inr () \<and> s' = s \<or>
    (\<exists>k e p b. om_find (f_registry s) k = Some e \<and> om_find (fe_pubs e) h = Some p \<and>
      s' = s\<lparr>f_registry := om_upd k (e\<lparr>fe_pubs := om_erase h (fe_pubs e)\<rparr>) (f_registry s), f_build := b\<rparr>)"
proof (cases "find_pub (f_registry s) h")
  case (Some kp)
  then obtain k p e where kp: "kp = (k, p)" "(k, e) \<in> set (f_registry s)" "om_find (fe_pubs e) h = Some p"
    using find_pub_SomeD by (metis prod.collapse)
  then have e: "om_find (f_registry s) k = Some e" using assms(2) by (simp add: om_in_set_iff)
  let ?s = "s\<lparr>f_registry := om_upd k (e\<lparr>fe_pubs := om_erase h (fe_pubs e)\<rparr>) (f_registry s)\<rparr>"
  have "on_world (on_calls (writer_dtor (fp_writer p))) ?s = (r, s')"
    using assms(1) Some kp(1) e by (simp add: PubDestroy_def)
  then show ?thesis using on_world_frame e kp(3) by blast
qed (use assms in \<open>simp add: PubDestroy_def\<close>)

lemma SubDestroy_cases:
  assumes "om_ok (f_registry s)"
  shows "SubDestroy h s = (Inr (), s) \<and> find_sub (f_registry s) h = None \<or>
    (\<exists>k e a. om_find (f_registry s) k = Some e \<and> om_find (fe_subs e) h = Some a \<and>
      (\<exists>d. SubDestroy h s = (Inr (), ffi_calls d (s\<lparr>f_registry := om_upd k
            (fe_set_node (remove_entity (FfiSub a (fs_reader (f_heap s ! a))) (fe_node e)) (e\<lparr>fe_subs := om_erase h (fe_subs e)\<rparr>))
            (f_registry s),
          f_heap := (f_heap s)[a := (f_heap s ! a)\<lparr>fs_closed := True\<rparr>]\<rparr>))))"
proof (cases "find_sub (f_registry s) h")
  case (Some ka)
  then obtain k a e where ka: "ka = (k, a)" "(k, e) \<in> set (f_registry s)" "om_find (fe_subs e) h = Some a"
    using find_sub_SomeD by (metis prod.collapse)
  then have "om_find (f_registry s) k = Some e" using assms by (simp add: om_in_set_iff)
  with Some ka show ?thesis by (auto simp: SubDestroy_def Let_def)
qed (simp add: SubDestroy_def)

text \<open>Every call of the bindings is a step of the abstract registry.\<close>

lemma ffi_do_simulates:
  assumes ok: "ffi_ok s"
  shows "handle_step (handles s, f_next_handle s) (handles (ffi_do fv c s), f_next_handle (ffi_do fv c s))"
proof -
  let ?n = "f_next_handle s"
  have stay: "handle_step (handles s, ?n) (handles s', f_next_handle s')"
    if "handles s' = handles s" "f_next_handle s' = ?n" for s' :: "'a ffi" using that by (simp add: h_stay)
  have tables: "handle_step (reg_handles (f_registry s), ?n) (reg_handles (f_registry s'), f_next_handle s')"
    if "same_tables s s'" for s' :: "'a ffi" using that by (simp add: same_tables_def h_stay)
  have reg: "om_ok (f_registry s)" using ok by (simp add: ffi_ok_def)
  show ?thesis
  proof (cases c)
    case (CNodeCreate name ns)
    obtain r s' where run: "NodeCreate fv name ns s = (r, s')" by fastforce
    from NodeCreate_cases [OF run] show ?thesis
      using CNodeCreate run h_node [of "handles s" ?n] fresh_handle(1) [OF ok]
      by (auto simp: handles_def reg_handles_node intro: tables)
  next
    case (CNodeDestroy held h)
    then show ?thesis
      using h_node_gone [of h "handles s" ?n]
      by (auto simp: NodeDestroy_def Let_def handles_def reg_handles_erase h_stay split: option.splits)
  next
    case (CNodeSpin h)
    then show ?thesis
      by (intro stay) (auto simp: NodeSpin_def split: option.splits prod.splits)
  next
    case (CSpinReturns i)
    then show ?thesis
      by (intro stay) (auto simp: SpinReturns_def Let_def handles_def split: option.splits prod.splits if_splits)
  next
    case (CNodeSpinOnce h t)
    then show ?thesis
      by (intro stay) (auto simp: NodeSpinOnce_def ebind_def lookup_def split: option.splits prod.splits)
  next
    case (CNodeCancel h)
    then show ?thesis
      by (intro stay) (auto simp: NodeCancel_def ebind_def lookup_def split: option.splits)
  next
    case (CInitDds port peers dom_id iface)
    then show ?thesis
      by (intro stay) (auto simp: InitDds_def handles_def Let_def split: prod.splits)
  next
    case (CPubCreate k topic ty depth rel trl)
    obtain r s' where run: "PubCreate fv k topic ty depth rel trl s = (r, s')" by fastforce
    from PubCreate_cases [OF run] show ?thesis
      using CPubCreate run h_pub [of k "handles s" ?n] fresh_handle(2) [OF ok]
      by (auto simp: handles_def reg_handles_pub intro: tables)
  next
    case (CPubPublish h pl)
    then show ?thesis
      by (intro stay) (auto simp: PubPublish_def ebind_def handles_def split: option.splits sum.splits prod.splits)
  next
    case (CPubDestroy h)
    obtain r s' where run: "PubDestroy h s = (r, s')" by fastforce
    from PubDestroy_cases [OF run reg] show ?thesis
      using CPubDestroy run h_pub_gone [of h _ "handles s" ?n]
      by (auto simp: handles_def reg_handles_pub_erase h_stay)
  next
    case (CSubCreate k topic ty depth rel trl cb)
    obtain r s' where run: "SubCreate fv k topic ty depth rel trl cb s = (r, s')" by fastforce
    from SubCreate_cases [OF run] show ?thesis
      using CSubCreate run h_sub [of k "handles s" ?n] fresh_handle(3) [OF ok]
      by (auto simp: handles_def reg_handles_sub reg_handles_update h_stay intro: tables)
  next
    case (CSubDestroy h)
    from SubDestroy_cases [OF reg, of h] show ?thesis
      using CSubDestroy h_sub_gone [of h _ "handles s" ?n]
      by (auto simp: handles_def h_stay reg_handles_sub_erase)
  qed
qed

text \<open>Preservation of \<open>subs_ok\<close>: by an update of one entry that adds no subscription, and by adding one.\<close>

lemma subs_ok_tables: "same_tables s s' \<Longrightarrow> subs_ok s \<Longrightarrow> subs_ok s'"
  by (simp add: same_tables_def subs_ok_def)

lemma subs_okD:
  assumes "subs_ok s" "om_find (f_registry s) k = Some e" "om_find (fe_subs e) h = Some a"
  shows "sub_live (f_heap s) e a"
    and "om_find (f_registry s) k' = Some e' \<Longrightarrow> om_find (fe_subs e') h' = Some a \<Longrightarrow> k' = k \<and> h' = h"
  using assms unfolding subs_ok_def by blast+

lemma subs_ok_update:
  assumes "subs_ok s" "om_find (f_registry s) k = Some e" "f_registry s' = om_upd k e' (f_registry s)"
    and heap: "f_heap s' = f_heap s @ hs" and ents: "set (entities (fe_node e)) \<subseteq> set (entities (fe_node e'))"
    and subs: "fe_subs e' = fe_subs e"
  shows "subs_ok s'"
proof -
  have old: "\<exists>d0. om_find (f_registry s) j = Some d0 \<and> fe_subs d0 = fe_subs d \<and> set (entities (fe_node d0)) \<subseteq> set (entities (fe_node d))"
    if "om_find (f_registry s') j = Some d" for j d
    using that assms(2,3) ents subs by (auto split: if_splits)
  have mono: "sub_live (f_heap s') d a" if "sub_live (f_heap s) d0 a" "set (entities (fe_node d0)) \<subseteq> set (entities (fe_node d))" for d d0 a
    using that by (auto simp: sub_live_def heap nth_append)
  have "sub_live (f_heap s') d a" if "om_find (f_registry s') j = Some d" "om_find (fe_subs d) h = Some a" for j d h a
    using old [OF that(1)] that(2) mono subs_okD(1) [OF assms(1)] by metis
  moreover have "j = j' \<and> h = h'"
    if "om_find (f_registry s') j = Some d" "om_find (fe_subs d) h = Some a"
      "om_find (f_registry s') j' = Some d'" "om_find (fe_subs d') h' = Some a" for j d h j' d' h' a
    using old [OF that(1)] old [OF that(3)] that(2,4) subs_okD(2) [OF assms(1)] by metis
  ultimately show ?thesis unfolding subs_ok_def by blast
qed

lemma subs_ok_fewer:
  assumes "subs_ok s" "f_heap s' = f_heap s"
    and "\<And>k e. om_find (f_registry s') k = Some e \<Longrightarrow> om_find (f_registry s) k = Some e \<or> fe_subs e = []"
  shows "subs_ok s'"
  unfolding subs_ok_def
proof (intro conjI allI impI)
  fix k e h a
  assume "om_find (f_registry s') k = Some e" "om_find (fe_subs e) h = Some a"
  with assms(3) [of k e] subs_okD(1) [OF assms(1)] show "sub_live (f_heap s') e a"
    unfolding assms(2) by fastforce
next
  fix k e h k' e' h' a
  assume "om_find (f_registry s') k = Some e" "om_find (fe_subs e) h = Some a"
    "om_find (f_registry s') k' = Some e'" "om_find (fe_subs e') h' = Some a"
  with assms(3) [of k e] assms(3) [of k' e'] subs_okD(2) [OF assms(1)] show "k = k'" "h = h'"
    by fastforce+
qed

lemma subs_ok_add:
  assumes "subs_ok s" "om_find (f_registry s) k = Some e" "om_find (fe_subs e) n = None"
    and s': "f_heap s' = f_heap s" "f_registry s' = om_upd k (e\<lparr>fe_subs := om_emplace n a (fe_subs e)\<rparr>) (f_registry s)"
    and live: "sub_live (f_heap s) e a"
    and new: "\<And>j d h. om_find (f_registry s) j = Some d \<Longrightarrow> om_find (fe_subs d) h \<noteq> Some a"
  shows "subs_ok s'"
proof -
  have old: "om_find (f_registry s) j = Some d \<and> om_find (fe_subs d) h = Some b \<and> b \<noteq> a \<or> j = k \<and> h = n \<and> b = a \<and> d = e\<lparr>fe_subs := om_emplace n a (fe_subs e)\<rparr>
      \<or> j = k \<and> om_find (fe_subs e) h = Some b \<and> b \<noteq> a \<and> d = e\<lparr>fe_subs := om_emplace n a (fe_subs e)\<rparr>"
    if "om_find (f_registry s') j = Some d" "om_find (fe_subs d) h = Some b" for j d h b
    using that assms(2,3) new [of j d h] new [of k e h] unfolding s' by (auto split: if_splits)
  have live': "sub_live (f_heap s) (e\<lparr>fe_subs := x\<rparr>) b = sub_live (f_heap s) e b" for x b by (simp add: sub_live_def)
  show ?thesis
    unfolding subs_ok_def
  proof (intro conjI allI impI)
    fix j d h b
    assume "om_find (f_registry s') j = Some d" "om_find (fe_subs d) h = Some b"
    from old [OF this] show "sub_live (f_heap s') d b"
      unfolding s' using subs_okD(1) [OF assms(1)] live live' assms(2) by auto
  next
    fix j d h j' d' h' b
    assume "om_find (f_registry s') j = Some d" "om_find (fe_subs d) h = Some b"
      "om_find (f_registry s') j' = Some d'" "om_find (fe_subs d') h' = Some b"
    from old [OF this(1,2)] old [OF this(3,4)] show "j = j'" "h = h'"
      using subs_okD(2) [OF assms(1)] assms(2) by metis+
  qed
qed

lemma subs_ok_remove:
  assumes "subs_ok s" "om_find (f_registry s) k = Some e" "om_find (fe_subs e) h = Some a"
    and s': "f_registry s' = om_upd k (fe_set_node (remove_entity (FfiSub a (fs_reader (f_heap s ! a))) (fe_node e))
          (e\<lparr>fe_subs := om_erase h (fe_subs e)\<rparr>)) (f_registry s)"
      "f_heap s' = (f_heap s)[a := (f_heap s ! a)\<lparr>fs_closed := True\<rparr>]"
  shows "subs_ok s'"
proof -
  let ?e = "fe_set_node (remove_entity (FfiSub a (fs_reader (f_heap s ! a))) (fe_node e)) (e\<lparr>fe_subs := om_erase h (fe_subs e)\<rparr>)"
  have old: "\<exists>d0. om_find (f_registry s) j = Some d0 \<and> om_find (fe_subs d0) i = Some b \<and> b \<noteq> a \<and> (d = d0 \<or> d0 = e \<and> d = ?e)"
    if "om_find (f_registry s') j = Some d" "om_find (fe_subs d) i = Some b" for j d i b
    using that subs_okD(2) [OF assms(1-3), of j d i] subs_okD(2) [OF assms(1-3), of k e i] assms(2) unfolding s'
    by (auto split: if_splits)
  have live: "sub_live (f_heap s') d b" "d = e \<Longrightarrow> sub_live (f_heap s') ?e b" if "sub_live (f_heap s) d b" "b \<noteq> a" for d b
    using that unfolding s' by (auto simp: sub_live_def entities_def remove_entity_def)
  show ?thesis
    unfolding subs_ok_def
  proof (intro conjI allI impI)
    fix j d i b
    assume "om_find (f_registry s') j = Some d" "om_find (fe_subs d) i = Some b"
    from old [OF this] show "sub_live (f_heap s') d b"
      using live subs_okD(1) [OF assms(1)] by metis
  next
    fix j d i j' d' i' b
    assume "om_find (f_registry s') j = Some d" "om_find (fe_subs d) i = Some b"
      "om_find (f_registry s') j' = Some d'" "om_find (fe_subs d') i' = Some b"
    from old [OF this(1,2)] old [OF this(3,4)] show "j = j'" "i = i'"
      using subs_okD(2) [OF assms(1)] by metis+
  qed
qed

lemma set_exec_subs_ok:
  assumes "subs_ok s" "\<And>e. om_find (f_registry s) h = Some e \<Longrightarrow> entities (xw_nodes x 0) = entities (fe_node e)"
  shows "subs_ok (set_exec h x s)"
proof (cases "om_find (f_registry s) h")
  case (Some e)
  have "set (entities (fe_node e)) \<subseteq> set (entities (fe_node (e\<lparr>fe_exec := x\<rparr>)))"
    using assms(2) [OF Some] by (simp add: fe_node_def)
  then show ?thesis
    by (intro subs_ok_update [OF assms(1) Some, where hs = "[]" and e' = "e\<lparr>fe_exec := x\<rparr>"])
      (simp_all add: set_exec_def Let_def Some)
qed (use assms(1) in \<open>simp add: set_exec_def\<close>)

lemma set_exec_om_ok [simp]: "om_ok (f_registry s) \<Longrightarrow> om_ok (f_registry (set_exec h x s))"
  by (simp add: set_exec_def Let_def split: option.splits)

lemma ffi_do_om_ok:
  assumes "om_ok (f_registry s)"
  shows "om_ok (f_registry (ffi_do fv c s))"
proof (cases c)
  case (CNodeCreate name ns)
  obtain r s' where run: "NodeCreate fv name ns s = (r, s')" by fastforce
  from NodeCreate_cases [OF run] show ?thesis using CNodeCreate run assms by (auto simp: same_tables_def om_emplace_def)
next
  case (CPubCreate k topic ty depth rel trl)
  obtain r s' where run: "PubCreate fv k topic ty depth rel trl s = (r, s')" by fastforce
  from PubCreate_cases [OF run] show ?thesis using CPubCreate run assms by (auto simp: same_tables_def)
next
  case (CSubCreate k topic ty depth rel trl cb)
  obtain r s' where run: "SubCreate fv k topic ty depth rel trl cb s = (r, s')" by fastforce
  from SubCreate_cases [OF run] show ?thesis using CSubCreate run assms by (auto simp: same_tables_def)
next
  case (CPubDestroy h)
  obtain r s' where run: "PubDestroy h s = (r, s')" by fastforce
  from PubDestroy_cases [OF run assms] show ?thesis using CPubDestroy run assms by auto
next
  case (CSubDestroy h)
  from SubDestroy_cases [OF assms, of h] show ?thesis using CSubDestroy assms by auto
qed (use assms in \<open>auto simp: NodeDestroy_def NodeSpin_def SpinReturns_def NodeSpinOnce_def NodeCancel_def InitDds_def
    PubPublish_def ebind_def lookup_def Let_def split: option.splits prod.splits sum.splits\<close>)

lemma sub_added:
  assumes ok: "ffi_ok s" and e: "om_find (f_registry s) k = Some e" and heap: "f_heap s' = f_heap s @ [sub]"
    and "\<not> fs_closed sub" and e1: "e1 = fe_set_node (add_entity (FfiSub (length (f_heap s)) (fs_reader sub)) (fe_node e)) e"
  shows "f_registry s' = om_upd k e1 (f_registry s) \<Longrightarrow> subs_ok s'"
    and "f_registry s' = om_upd k (e1\<lparr>fe_subs := om_emplace (f_next_handle s) (length (f_heap s)) (fe_subs e1)\<rparr>)
      (om_upd k e1 (f_registry s)) \<Longrightarrow> subs_ok s'"
proof -
  let ?a = "length (f_heap s)"
  let ?s = "s\<lparr>f_registry := om_upd k e1 (f_registry s), f_heap := f_heap s @ [sub]\<rparr>"
  have subs: "subs_ok s" using ok by (simp add: ffi_ok_def)
  have ents: "set (entities (fe_node e)) \<subseteq> set (entities (fe_node e1))"
    by (simp add: e1 entities_def add_entity_def subset_insertI)
  show "f_registry s' = om_upd k e1 (f_registry s) \<Longrightarrow> subs_ok s'"
    by (rule subs_ok_update [OF subs e, where e' = e1]) (use heap ents in \<open>simp_all add: e1\<close>)
  have mid: "subs_ok ?s" by (rule subs_ok_update [OF subs e, where e' = e1]) (use ents in \<open>simp_all add: e1\<close>)
  have "om_find (fe_subs d) h \<noteq> Some ?a" if d: "om_find (f_registry ?s) j = Some d" for j d h
  proof -
    obtain d0 where "om_find (f_registry s) j = Some d0" "fe_subs d = fe_subs d0"
      using d e e1 by (auto split: if_splits)
    then show ?thesis using subs_okD(1) [OF subs] by (auto simp: sub_live_def)
  qed
  moreover have "sub_live (f_heap ?s) e1 ?a" using assms(4) by (simp add: sub_live_def e1 entities_def add_entity_def)
  moreover have "om_find (fe_subs e1) (f_next_handle s) = None" using fresh_handle(3) [OF ok e] by (simp add: e1)
  ultimately show "f_registry s' = om_upd k (e1\<lparr>fe_subs := om_emplace (f_next_handle s) (length (f_heap s)) (fe_subs e1)\<rparr>)
      (om_upd k e1 (f_registry s)) \<Longrightarrow> subs_ok s'"
    by (intro subs_ok_add [OF mid, of k e1 "f_next_handle s" s' ?a]) (simp_all add: heap)
qed

lemma ffi_do_subs_ok:
  assumes ok: "ffi_ok s" and quiet: "quiet_exec fv"
  shows "subs_ok (ffi_do fv c s)"
proof -
  have reg: "om_ok (f_registry s)" and subs: "subs_ok s" using ok by (simp_all add: ffi_ok_def)
  show ?thesis
  proof (cases c)
    case (CNodeCreate name ns)
    obtain r s' where run: "NodeCreate fv name ns s = (r, s')" by fastforce
    from NodeCreate_cases [OF run] show ?thesis
      using CNodeCreate run subs subs_ok_tables fresh_handle(1) [OF ok]
      by (auto simp: same_tables_def intro!: subs_ok_fewer [OF subs] split: if_splits)
  next
    case (CNodeDestroy held h)
    then show ?thesis
      by (auto simp: NodeDestroy_def Let_def subs intro!: subs_ok_fewer [OF subs] split: option.splits if_splits)
  next
    case (CNodeSpin h)
    show ?thesis
    proof (cases "om_find (f_registry s) h")
      case (Some e)
      have "entities (xw_nodes x 0) = entities (fe_node e)" if "spin (ffi_exec_env fv) (fe_exec e) = Some (r, x)" for r x
        using spin_quiet [OF that quiet] by (simp add: fe_node_def)
      then show ?thesis
        using CNodeSpin Some subs
        by (auto simp: NodeSpin_def split: option.splits prod.splits intro!: set_exec_subs_ok)
    qed (use CNodeSpin subs in \<open>simp add: NodeSpin_def\<close>)
  next
    case (CSpinReturns i)
    then show ?thesis
      using subs
      by (auto simp: SpinReturns_def Let_def split: option.splits prod.splits if_splits intro!: subs_ok_fewer [OF subs])
  next
    case (CNodeSpinOnce h t)
    show ?thesis
    proof (cases "om_find (f_registry s) h")
      case (Some e)
      have "entities (xw_nodes (snd (spin_once (ffi_exec_env fv) (t * 1000000) (fe_exec e))) 0) = entities (fe_node e)"
        using spin_once_quiet [OF quiet] by (simp add: fe_node_def)
      then show ?thesis
        using CNodeSpinOnce Some subs
        by (auto simp: NodeSpinOnce_def ebind_def lookup_def split: prod.splits intro!: set_exec_subs_ok)
    qed (use CNodeSpinOnce subs in \<open>simp add: NodeSpinOnce_def ebind_def lookup_def\<close>)
  next
    case (CNodeCancel h)
    then show ?thesis
      using subs
      by (auto simp: NodeCancel_def ebind_def lookup_def cancel_def fe_node_def split: option.splits intro!: set_exec_subs_ok)
  next
    case (CInitDds port peers dom_id iface)
    then show ?thesis
      using subs by (auto simp: InitDds_def Let_def split: prod.splits intro: subs_ok_tables [OF _ subs])
  next
    case (CPubCreate k topic ty depth rel trl)
    obtain r s' where run: "PubCreate fv k topic ty depth rel trl s = (r, s')" by fastforce
    from PubCreate_cases [OF run] show ?thesis
      using CPubCreate run subs subs_ok_tables
      by (auto intro: subs_ok_update [OF subs, where hs = "[]"])
  next
    case (CPubPublish h pl)
    then show ?thesis
      using subs by (auto simp: PubPublish_def ebind_def split: option.splits sum.splits prod.splits
          intro: subs_ok_tables [OF _ subs])
  next
    case (CPubDestroy h)
    obtain r s' where run: "PubDestroy h s = (r, s')" by fastforce
    from PubDestroy_cases [OF run reg] show ?thesis
      using CPubDestroy run subs by (auto intro: subs_ok_update [OF subs, where hs = "[]"])
  next
    case (CSubCreate k topic ty depth rel trl cb)
    obtain r s' where run: "SubCreate fv k topic ty depth rel trl cb s = (r, s')" by fastforce
    from SubCreate_cases [OF run] show ?thesis
    proof (elim disjE)
      assume "(\<exists>err. r = Inl err) \<and> same_tables s s'"
      then show ?thesis using CSubCreate run subs_ok_tables [OF _ subs] by simp
    next
      assume "\<exists>e sub e1. om_find (f_registry s) k = Some e \<and> f_heap s' = f_heap s @ [sub] \<and> \<not> fs_closed sub \<and> fs_callback sub = cb \<and>
        e1 = fe_set_node (add_entity (FfiSub (length (f_heap s)) (fs_reader sub)) (fe_node e)) e \<and>
        ((r = Inr (f_next_handle s) \<and> f_next_handle s' = f_next_handle s + 1 \<and>
          f_registry s' = om_upd k (e1\<lparr>fe_subs := om_emplace (f_next_handle s) (length (f_heap s)) (fe_subs e1)\<rparr>)
            (om_upd k e1 (f_registry s))) \<or>
         ((\<exists>m. r = Inl (UndefinedBehaviour m)) \<and> f_next_handle s' = f_next_handle s \<and> f_registry s' = om_upd k e1 (f_registry s)))"
      then obtain e sub e1 where e: "om_find (f_registry s) k = Some e" "f_heap s' = f_heap s @ [sub]" "\<not> fs_closed sub"
          "e1 = fe_set_node (add_entity (FfiSub (length (f_heap s)) (fs_reader sub)) (fe_node e)) e"
        and reg': "f_registry s' = om_upd k (e1\<lparr>fe_subs := om_emplace (f_next_handle s) (length (f_heap s)) (fe_subs e1)\<rparr>)
            (om_upd k e1 (f_registry s)) \<or> f_registry s' = om_upd k e1 (f_registry s)"
        by blast
      from sub_added [OF ok e] reg' show ?thesis using CSubCreate run by auto
    qed
  next
    case (CSubDestroy h)
    from SubDestroy_cases [OF reg, of h] show ?thesis
      using CSubDestroy subs by (auto intro: subs_ok_remove [OF subs])
  qed
qed

interpretation node_handles: handle_registry f_next_handle "\<lambda>s. fst ` handles s" "ffi_step fv"
  "\<lambda>s. ffi_ok s \<and> quiet_exec fv" for fv :: ffi_env
proof
  fix s t :: "'a ffi"
  show "fst ` handles s \<subseteq> {1..<f_next_handle s}" if "ffi_ok s \<and> quiet_exec fv"
    using that by (simp add: ffi_ok_def handles_ok_def)
  assume ok: "ffi_ok s \<and> quiet_exec fv" and "ffi_step fv s t"
  then obtain c where t: "t = ffi_do fv c s" unfolding ffi_step_def by blast
  have sim: "handle_step (handles s, f_next_handle s) (handles t, f_next_handle t)"
    using ffi_do_simulates ok unfolding t by blast
  have "handles_ok (handles s) (f_next_handle s)" using ok by (simp add: ffi_ok_def)
  note H = handle_step_ok [OF sim, simplified, OF this]
  show "ffi_ok t \<and> quiet_exec fv"
    using H(1) ok ffi_do_subs_ok [of s fv c] ffi_do_om_ok [of s fv c] unfolding t by (simp add: ffi_ok_def)
  show "f_next_handle s \<le> f_next_handle t" using H(2) .
  show "fst ` handles t \<subseteq> fst ` handles s \<union> {f_next_handle s..<f_next_handle t}" using H(3) .
qed

lemma reg_handles_Nil [simp]: "reg_handles [] = {}"
  by (rule reg_handles_eqI) auto

lemma ffi_init_ok: "ffi_init s \<Longrightarrow> ffi_ok s"
  by (simp add: ffi_init_def ffi_ok_def handles_ok_def handles_def subs_ok_def)

lemma ffi_reach_ok: "reach ffi_init (ffi_step fv) s \<Longrightarrow> quiet_exec fv \<Longrightarrow> ffi_ok s"
proof (induction rule: reach.induct)
  case (reach_step s t)
  then show ?case using node_handles.ok_step [of s fv t] by blast
qed (rule ffi_init_ok)

text \<open>C7: The registry of the bindings refines an abstract set of handles: in every reachable state a handle
  names one node, publisher or subscription, the subscription behind a handle is open and registered on
  its node, and each call is one abstract step, which issues the next number, drops one endpoint, or
  drops a node together with its endpoints.\<close>

theorem ffi_registry_refines:
  assumes "quiet_exec fv" "reach ffi_init (ffi_step fv) s"
  shows "ffi_ok s \<and>
    handle_step (handles s, f_next_handle s) (handles (ffi_do fv c s), f_next_handle (ffi_do fv c s))"
  using ffi_reach_ok [OF assms(2,1)] ffi_do_simulates by blast

definition demo_ffi_env :: ffi_env where
  "demo_ffi_env =
     \<lparr>fv_node = (\<lambda>_. demo_node_env\<lparr>ne_we := demo_writer_env\<rparr>), fv_executor = (\<lambda>_. \<lparr>xc_cancel = 70, xc_wake = 71, xc_waitset = 72, xc_attach_cancel = 0, xc_attach_wake = 0\<rparr>),
      fv_exec = \<lparr>xe_cond_of = ffi_condition, xe_attach = (\<lambda>_. True), xe_wait = (\<lambda>_ w. ((1, [kCancelAttachment]), w)),
        xe_dispatch = (\<lambda>_. ereturn ())\<rparr>,
      fv_writer = (\<lambda>_. \<lparr>wc_sertype = True, wc_qos = True, wc_topic = 30, wc_writer = 31\<rparr>), fv_reader = (\<lambda>_. demo_reader_calls),
      fv_we = (\<lambda>_. demo_writer_env)\<rparr>"

definition demo_ffi_start :: "nat ffi" where
  "demo_ffi_start = \<lparr>f_registry = [], f_next_handle = 1, f_heap = [], f_released = [],
     f_build = \<lparr>nw_ctx = ctx_globals_init, nw_calls = [], nw_wire = []\<rparr>, f_wires = (\<lambda>_. [])\<rparr>"

lemma demo_ffi_quiet: "quiet_exec demo_ffi_env"
  by (simp add: quiet_exec_def demo_ffi_env_def)

lemma demo_ffi_reach: "reach ffi_init (ffi_step fv) demo_ffi_start"
  by (rule reach_init) (simp add: ffi_init_def demo_ffi_start_def f_calls_def)

theorem ffi_registry_refines_witness:
  "ffi_ok (ffi_do demo_ffi_env (CNodeCreate ''talker'' ''/'') demo_ffi_start) \<and>
   handle_step (handles (ffi_do demo_ffi_env (CNodeCreate ''talker'' ''/'') demo_ffi_start),
       f_next_handle (ffi_do demo_ffi_env (CNodeCreate ''talker'' ''/'') demo_ffi_start))
     (handles (ffi_do demo_ffi_env (CNodeDestroy False 1) (ffi_do demo_ffi_env (CNodeCreate ''talker'' ''/'') demo_ffi_start)),
       f_next_handle (ffi_do demo_ffi_env (CNodeDestroy False 1) (ffi_do demo_ffi_env (CNodeCreate ''talker'' ''/'') demo_ffi_start)))"
proof -
  have "ffi_step demo_ffi_env demo_ffi_start (ffi_do demo_ffi_env (CNodeCreate ''talker'' ''/'') demo_ffi_start)"
    unfolding ffi_step_def by blast
  then have "reach ffi_init (ffi_step demo_ffi_env) (ffi_do demo_ffi_env (CNodeCreate ''talker'' ''/'') demo_ffi_start)"
    using demo_ffi_reach reach_step by metis
  then show ?thesis using ffi_registry_refines [OF demo_ffi_quiet] by blast
qed

text \<open>C17: Handles are never reused: a handle that has been issued (or zero, or a negative number) and is not
  live in a reachable state is unknown in every later state: using it is a \<^verbatim>\<open>ValueError\<close> that changes
  nothing, destroying it does nothing.\<close>

theorem ffi_handles_never_reused:
  assumes "quiet_exec fv" "reach ffi_init (ffi_step fv) s" "(ffi_step fv)\<^sup>*\<^sup>* s t"
    and "h < f_next_handle s" "h \<notin> fst ` handles s"
  shows "lookup h t = (Inl (unknown_node h), t) \<and>
    PubPublish fv h pl t = (Inl (ValueError (''unknown publisher handle: '' @ show_int h)), t) \<and>
    NodeDestroy held h t = (Inr (), t) \<and> PubDestroy h t = (Inr (), t) \<and> SubDestroy h t = (Inr (), t)"
proof -
  have ok: "ffi_ok s \<and> quiet_exec fv" using ffi_reach_ok [OF assms(2,1)] assms(1) by blast
  have gone: "(h, x) \<notin> handles t" for x
    using node_handles.never_reused [OF assms(3) ok assms(4,5)] by force
  have reg: "om_ok (f_registry t)" using node_handles.run_ok [OF assms(3) ok] by (simp add: ffi_ok_def)
  have node: "om_find (f_registry t) h = None" using gone [of NodeH] by (simp add: handles_def)
  have unowned: "om_find (fe_pubs e) h = None" "om_find (fe_subs e) h = None" if "om_find (f_registry t) k = Some e" for k e
    using gone [of "PubH k"] gone [of "SubH k"] that by (simp_all add: handles_def)
  have "find_pub (f_registry t) h = None" "find_sub (f_registry t) h = None"
    using unowned reg by (auto simp: find_pub_None find_sub_None om_in_set_iff)
  then show ?thesis
    using node by (simp add: lookup_def PubPublish_def NodeDestroy_def PubDestroy_def SubDestroy_def)
qed

theorem ffi_handles_never_reused_witness:
  "lookup 0 (ffi_do demo_ffi_env (CNodeCreate ''talker'' ''/'') demo_ffi_start) =
     (Inl (unknown_node 0), ffi_do demo_ffi_env (CNodeCreate ''talker'' ''/'') demo_ffi_start)"
proof -
  let ?t = "ffi_do demo_ffi_env (CNodeCreate ''talker'' ''/'') demo_ffi_start"
  have "(ffi_step demo_ffi_env)\<^sup>*\<^sup>* demo_ffi_start ?t"
    by (rule r_into_rtranclp, unfold ffi_step_def) blast
  moreover have "0 < f_next_handle demo_ffi_start" "0 \<notin> fst ` handles demo_ffi_start"
    by (simp_all add: demo_ffi_start_def handles_def)
  ultimately show ?thesis
    using ffi_handles_never_reused [OF demo_ffi_quiet demo_ffi_reach, of ?t 0] by blast
qed

section \<open>Endpoints of the bindings\<close>

text \<open>Handle 1 is a node with the publisher 2 and the subscription 3.\<close>

definition demo_ffi_node :: ffi_node where
  "demo_ffi_node =
     \<lparr>fe_exec = \<lparr>xw_exec = \<lparr>ex_nodes = [0], ex_attached = [], ex_epochs = [], ex_next_id = 2, ex_cancel_requested = False,
        ex_cancel_guard = False, ex_wake_guard = False, ex_waitset = [],
        ex_cancel_handle = 70, ex_wake_handle = 71, ex_waitset_handle = 72\<rparr>,
        xw_nodes = (\<lambda>_. \<lparr>n_name = ''b'', n_ns = ''/'', n_fq_name = ''/b'', n_domain_id = 0,
          n_entities = [FfiSub 0 \<lparr>rd_handle = 8, rc_handle = 9\<rparr>], n_epoch = 1, n_guard = True, n_guard_handle = 5,
          n_participant = n_participant demo_node, n_discovery = n_discovery demo_node\<rparr>), xw_log = []\<rparr>,
      fe_pubs = [(2, \<lparr>fp_topic = ''/t'', fp_type = ''T'', fp_writer = \<lparr>wr_handle = 7\<rparr>\<rparr>)], fe_subs = [(3, 0)]\<rparr>"

definition demo_ffi_state :: "nat ffi" where
  "demo_ffi_state = demo_ffi_start\<lparr>f_registry := [(1, demo_ffi_node)], f_next_handle := 4,
     f_heap := [\<lparr>fs_topic = ''/t'', fs_type = ''T'', fs_reader = \<lparr>rd_handle = 8, rc_handle = 9\<rparr>, fs_callback = 0, fs_closed = False\<rparr>]\<rparr>"

lemma demo_ffi_ok: "ffi_ok demo_ffi_state"
proof -
  have "handles demo_ffi_state = {(1, NodeH), (2, PubH 1), (3, SubH 1)}"
    unfolding handles_def
    by (rule reg_handles_eqI) (auto simp: demo_ffi_state_def demo_ffi_node_def om_find_Cons split: if_splits)
  moreover have "subs_ok demo_ffi_state"
    by (auto simp: subs_ok_def sub_live_def demo_ffi_state_def demo_ffi_node_def om_find_Cons fe_node_def entities_def
        split: if_splits)
  moreover have "om_ok (f_registry demo_ffi_state)" "f_next_handle demo_ffi_state = 4"
    by (simp_all add: demo_ffi_state_def)
  ultimately show ?thesis by (simp add: ffi_ok_def handles_ok_def single_valued_def)
qed

lemma find_pub_owner:
  assumes "ffi_ok s" "om_find (f_registry s) k = Some e" "om_find (fe_pubs e) h = Some p"
  shows "find_pub (f_registry s) h = Some (k, p)"
proof (cases "find_pub (f_registry s) h")
  case None
  then show ?thesis using assms om_find_in_set [OF assms(2)] by (fastforce simp: find_pub_None)
next
  case (Some kp)
  obtain k' p' where kp: "kp = (k', p')" by fastforce
  then obtain e' where e': "om_find (f_registry s) k' = Some e'" "om_find (fe_pubs e') h = Some p'"
    using find_pub_SomeD [OF Some [unfolded kp]] assms(1) by (auto simp: ffi_ok_def om_in_set_iff)
  then have "(h, PubH k') \<in> handles s" "(h, PubH k) \<in> handles s" using assms by (auto simp: handles_def)
  then have "k' = k" using assms(1) unfolding ffi_ok_def handles_ok_def single_valued_def by blast
  with e' assms Some kp show ?thesis by simp
qed

lemma find_sub_owner:
  assumes "ffi_ok s" "om_find (f_registry s) k = Some e" "om_find (fe_subs e) h = Some a"
  shows "find_sub (f_registry s) h = Some (k, a)"
proof (cases "find_sub (f_registry s) h")
  case None
  then show ?thesis using assms om_find_in_set [OF assms(2)] by (fastforce simp: find_sub_None)
next
  case (Some ka)
  obtain k' a' where ka: "ka = (k', a')" by fastforce
  then obtain e' where e': "om_find (f_registry s) k' = Some e'" "om_find (fe_subs e') h = Some a'"
    using find_sub_SomeD [OF Some [unfolded ka]] assms(1) by (auto simp: ffi_ok_def om_in_set_iff)
  then have "(h, SubH k') \<in> handles s" "(h, SubH k) \<in> handles s" using assms by (auto simp: handles_def)
  then have "k' = k" using assms(1) unfolding ffi_ok_def handles_ok_def single_valued_def by blast
  with e' assms Some ka show ?thesis by simp
qed



text \<open>C16: Destroying a subscription stops it: its flag is set, its node no longer lists it, the handle is
  unknown so that a second destroy does nothing, and a dispatch that still reaches it (an executor that
  attached it before) returns without taking a sample or calling Python; the other subscriptions stay.\<close>

theorem sub_destroy_stops:
  assumes "ffi_ok s" "om_find (f_registry s) k = Some e" "om_find (fe_subs e) h = Some a"
  shows "\<exists>s' e'. SubDestroy h s = (Inr (), s') \<and> om_find (f_registry s') k = Some e' \<and> fs_closed (f_heap s' ! a) \<and>
    set (entities (fe_node e')) = set (entities (fe_node e)) - {FfiSub a (fs_reader (f_heap s ! a))} \<and>
    SubDestroy h s' = (Inr (), s') \<and>
    ffi_sub_dispatch tk cb q \<lparr>sr_closed = fs_closed (f_heap s' ! a), sr_user = c, sr_log = lg\<rparr> =
      Some (Inr 0, \<lparr>t_queue = q, t_unref = 0, t_user = \<lparr>sr_closed = True, sr_user = c, sr_log = lg\<rparr>\<rparr>) \<and>
    handles s' = handles s - {(h, SubH k)}"
proof -
  let ?e = "fe_set_node (remove_entity (FfiSub a (fs_reader (f_heap s ! a))) (fe_node e)) (e\<lparr>fe_subs := om_erase h (fe_subs e)\<rparr>)"
  let ?s = "ffi_calls (drop_subs (entry_entities e) (entry_entities ?e))
      (s\<lparr>f_registry := om_upd k ?e (f_registry s), f_heap := (f_heap s)[a := (f_heap s ! a)\<lparr>fs_closed := True\<rparr>]\<rparr>)"
  have run: "SubDestroy h s = (Inr (), ?s)"
    using find_sub_owner [OF assms] assms(2) by (simp add: SubDestroy_def Let_def)
  have a: "a < length (f_heap s)" using subs_okD(1) [OF _ assms(2,3)] assms(1) by (simp add: ffi_ok_def sub_live_def)
  have gone: "handles ?s = handles s - {(h, SubH k)}"
    using assms(2) by (simp add: handles_def reg_handles_sub_erase)
  have "om_ok (f_registry ?s)" using assms(1) by (simp add: ffi_ok_def)
  moreover have "(h, SubH j) \<notin> handles ?s" for j
  proof -
    have "(h, SubH k) \<in> handles s" using assms(2,3) by (simp add: handles_def)
    then have "(h, SubH j) \<in> handles s \<Longrightarrow> j = k"
      using assms(1) unfolding ffi_ok_def handles_ok_def single_valued_def by blast
    then show ?thesis unfolding gone by blast
  qed
  ultimately have "find_sub (f_registry ?s) h = None"
    by (force simp: find_sub_None handles_def om_in_set_iff)
  then have "SubDestroy h ?s = (Inr (), ?s)" by (simp add: SubDestroy_def)
  then show ?thesis
    using run a gone
    by (intro exI [of _ ?s] exI [of _ ?e]) (auto simp: ffi_sub_dispatch_def entities_def remove_entity_def)
qed

theorem sub_destroy_stops_witness:
  "\<exists>s' e'. SubDestroy 3 demo_ffi_state = (Inr (), s') \<and> om_find (f_registry s') 1 = Some e' \<and> fs_closed (f_heap s' ! 0) \<and>
    set (entities (fe_node e')) = {} \<and> SubDestroy 3 s' = (Inr (), s')"
proof -
  have e: "om_find (f_registry demo_ffi_state) 1 = Some demo_ffi_node" "om_find (fe_subs demo_ffi_node) 3 = Some 0"
    by (simp_all add: demo_ffi_state_def demo_ffi_node_def om_find_Cons)
  have "set (entities (fe_node demo_ffi_node)) - {FfiSub 0 (fs_reader (f_heap demo_ffi_state ! 0))} = {}"
    by (simp add: demo_ffi_node_def fe_node_def entities_def demo_ffi_state_def)
  then show ?thesis using sub_destroy_stops [OF demo_ffi_ok e] by metis
qed

text \<open>The reference for a dispatch: the callback runs on the payloads in order until the subscription is
  closed; an exception it raises is logged and does not stop the rest.\<close>

fun python_calls :: "(byte list \<Rightarrow> (bool \<times> 'c, unit) eff) \<Rightarrow> byte list list \<Rightarrow> 'c sub_run \<Rightarrow> 'c sub_run" where
  "python_calls cb [] st = st"
| "python_calls cb (p # ps) st =
     (if sr_closed st then st
      else case cb p (sr_closed st, sr_user st) of
             (Inl err, cl, c) \<Rightarrow> python_calls cb ps (st\<lparr>sr_closed := cl, sr_user := c, sr_log := sr_log st @ [err]\<rparr>)
           | (Inr _, cl, c) \<Rightarrow> python_calls cb ps (st\<lparr>sr_closed := cl, sr_user := c\<rparr>))"

definition python_safe :: "(byte list \<Rightarrow> (bool \<times> 'c, unit) eff) \<Rightarrow> bool" where
  "python_safe cb \<longleftrightarrow> (\<forall>p x err. fst (cb p x) = Inl err \<longrightarrow> \<not> is_ub err)"

lemma python_calls_closed [simp]: "sr_closed st \<Longrightarrow> python_calls cb ps st = st"
  by (cases ps) simp_all

lemma efor_python:
  assumes "python_safe cb"
  shows "efor (ffi_sub_sample cb) ps st = (Inr (), python_calls cb ps st)"
proof (induction ps arbitrary: st)
  case (Cons p ps)
  show ?case
  proof (cases "sr_closed st")
    case True
    then show ?thesis using Cons by (simp add: ebind_def ffi_sub_sample_def)
  next
    case False
    obtain r cl c where run: "cb p (False, sr_user st) = (r, cl, c)" by (metis prod_cases3)
    moreover have "\<not> is_ub err" if "r = Inl err" for err
      using assms run that unfolding python_safe_def by (metis fst_conv)
    ultimately show ?thesis
      using Cons False
      by (cases r) (simp_all add: ebind_def ffi_sub_sample_def ecatch_def run_python_def log_python_def)
  qed
qed simp

text \<open>C27: A dispatch to Python equals the reference: every valid sample is handed over exactly once and in
  order until the subscription is closed (also by the callback itself), a raising callback is logged and
  the rest is still delivered, and every sample is released.\<close>

theorem python_dispatch_reference:
  assumes "takes_fifo tk qs" "python_safe cb" "\<not> sr_closed st"
  shows "\<exists>q'. qs q' = [] \<and>
    ffi_sub_dispatch tk cb q st =
      Some (Inr (length (qs q)), \<lparr>t_queue = q', t_unref = length (qs q), t_user = python_calls cb (valid_payloads (qs q)) st\<rparr>)"
  using dispatch_drains [OF assms(1) efor_python [OF assms(2)]] assms(3) by (simp add: ffi_sub_dispatch_def)

theorem python_dispatch_reference_witness:
  "\<exists>q'. q' = [] \<and>
    ffi_sub_dispatch list_takecdr (\<lambda>p x. (Inl (OtherException ''boom''), True, snd x + 1)) three_samples
      \<lparr>sr_closed = False, sr_user = (0 :: nat), sr_log = []\<rparr> =
    Some (Inr 3, \<lparr>t_queue = q', t_unref = 3, t_user = \<lparr>sr_closed = True, sr_user = 1, sr_log = [OtherException ''boom'']\<rparr>\<rparr>)"
proof -
  have fifo: "takes_fifo list_takecdr (\<lambda>q. q)" by (simp add: takes_fifo_def list_takecdr_def)
  let ?cb = "\<lambda>p x. (Inl (OtherException ''boom''), True, snd x + (1 :: nat)) :: unit result \<times> bool \<times> nat"
  have "python_safe ?cb" by (simp add: python_safe_def)
  from python_dispatch_reference [OF fifo this, of "\<lparr>sr_closed = False, sr_user = 0, sr_log = []\<rparr>" three_samples]
  show ?thesis by (simp add: three_samples_def valid_payloads_def)
qed

section \<open>Shutting down\<close>



section \<open>Configuration\<close>

text \<open>\<^verbatim>\<open>init_dds\<close> before the first node: the port and the domain are range checked, the own loopback
  address is dropped from the peers and every other peer is kept in order, and the context that the first
  node creates has exactly this configuration; after the context exists the call is refused.\<close>

theorem init_dds_configures:
  assumes "0 < port" "port \<le> 0xFFFF" "dom_id \<le> 232"
  shows "\<exists>r g. InitDds port peers dom_id iface s = (r, s\<lparr>f_build := (f_build s)\<lparr>nw_ctx := g\<rparr>\<rparr>) \<and>
    (if g_ctx (nw_ctx (f_build s)) \<noteq> None then (\<exists>m. r = Inl (InvalidArguments m)) \<and> g = nw_ctx (f_build s)
     else r = Inr () \<and>
       (\<exists>dial. c_config_xml (fst (context_instance env g)) = tcp_config_xml (word_of_int port) dial iface \<and>
          dial = filter (\<lambda>p. p \<noteq> ''127.0.0.1:'' @ show_nat (nat port)) peers \<and>
          (''127.0.0.1:'' @ show_nat (nat port) \<in> set (tcp_peer_list (word_of_int port) dial []) \<longrightarrow> dial = [])) \<and>
       c_domain_id (fst (context_instance env g)) = (if dom_id \<ge> 0 then word_of_int dom_id else env_domain_id env))"
proof -
  have dec: "show_int port = show_nat (nat port)" using assms(1) by (simp add: show_int_def)
  let ?dial = "filter (\<lambda>p. p \<noteq> ''127.0.0.1:'' @ show_nat (nat port)) peers"
  let ?dom = "if dom_id \<ge> 0 then Some (word_of_int dom_id) else None"
  let ?cfg = "\<lparr>o_domain_id = ?dom, o_config_xml = tcp_config_xml (word_of_int port) ?dial iface\<rparr>"
  show ?thesis
  proof (cases "g_ctx (nw_ctx (f_build s))")
    case (Some c)
    then show ?thesis
      using assms
      by (intro exI [of _ "fst (InitDds port peers dom_id iface s)"] exI [of _ "nw_ctx (f_build s)"])
        (simp add: InitDds_def Let_def context_configure_def)
  next
    case None
    have "dial = []" if "''127.0.0.1:'' @ show_nat (nat port) \<in> set (tcp_peer_list pt dial [])"
      "dial = ?dial" for dial pt
      using that by (auto simp: tcp_peer_list_def split: if_splits)
    then show ?thesis
      using assms None
      by (intro exI [of _ "Inr ()"] exI [of _ "(nw_ctx (f_build s))\<lparr>g_cfg := Some ?cfg\<rparr>"])
        (simp add: InitDds_def Let_def dec context_configure_def context_instance_def context_ctor_def)
  qed
qed

theorem init_dds_configures_witness:
  "\<exists>r g. InitDds 7000 [''127.0.0.1:7000'', ''10.0.0.2:7000''] 5 [] demo_ffi_start =
      (r, demo_ffi_start\<lparr>f_build := (f_build demo_ffi_start)\<lparr>nw_ctx := g\<rparr>\<rparr>) \<and>
    r = Inr () \<and> c_domain_id (fst (context_instance (\<lambda>_. None) g)) = 5"
  using init_dds_configures [of 7000 5 "[''127.0.0.1:7000'', ''10.0.0.2:7000'']" "[]" demo_ffi_start "\<lambda>_. None"]
  by (auto simp: demo_ffi_start_def ctx_globals_init_def)

end
