(* ===== verification/Json_Writer.thy ===== *)
theory Json_Writer
  imports Prelude
begin

text \<open>
  \<^verbatim>\<open>json_escape_string\<close> of \<^verbatim>\<open>rcllite/json_writer.hpp\<close>, the string literal writer every JSON document
  of the library is built with, and a reference lexer for JSON string literals as the
  specification of what a consumer reads.
\<close>

section \<open>The writer\<close>

definition hex_digit :: "nat \<Rightarrow> char" where
  "hex_digit n = ''0123456789abcdef'' ! n"

definition json_escape_char :: "char \<Rightarrow> string" where
  "json_escape_char c =
     (if c = CHR 0x22 then [CHR 0x5C, CHR 0x22]
      else if c = CHR 0x5C then [CHR 0x5C, CHR 0x5C]
      else if c = CHR 0x08 then [CHR 0x5C, CHR ''b'']
      else if c = CHR 0x0C then [CHR 0x5C, CHR ''f'']
      else if c = CHR 0x0A then [CHR 0x5C, CHR ''n'']
      else if c = CHR 0x0D then [CHR 0x5C, CHR ''r'']
      else if c = CHR 0x09 then [CHR 0x5C, CHR ''t'']
      else let uc = (of_char c :: nat) in
        if uc < 0x20 then [CHR 0x5C, CHR ''u'', CHR ''0'', CHR ''0'',
            hex_digit (uc div 16), hex_digit (uc mod 16)]
        else [c])"

definition json_escape_string :: "string \<Rightarrow> string" where
  "json_escape_string s = CHR 0x22 # concat (map json_escape_char s) @ [CHR 0x22]"


section \<open>A reference lexer for JSON string literals\<close>

definition hex_val :: "char \<Rightarrow> nat option" where
  "hex_val c =
     (let n = (of_char c :: nat) in
      if 48 \<le> n \<and> n \<le> 57 then Some (n - 48)
      else if 97 \<le> n \<and> n \<le> 102 then Some (n - 87)
      else if 65 \<le> n \<and> n \<le> 70 then Some (n - 55)
      else None)"

definition hex4 :: "char \<Rightarrow> char \<Rightarrow> char \<Rightarrow> char \<Rightarrow> nat option" where
  "hex4 a b c d =
     (case (hex_val a, hex_val b, hex_val c, hex_val d) of
        (Some w, Some x, Some y, Some z) \<Rightarrow> Some (4096 * w + 256 * x + 16 * y + z)
      | _ \<Rightarrow> None)"

definition simple_escape :: "char \<Rightarrow> char option" where
  "simple_escape c =
     (if c = CHR 0x22 \<or> c = CHR 0x5C \<or> c = CHR ''/'' then Some c
      else if c = CHR ''b'' then Some (CHR 0x08)
      else if c = CHR ''f'' then Some (CHR 0x0C)
      else if c = CHR ''n'' then Some (CHR 0x0A)
      else if c = CHR ''r'' then Some (CHR 0x0D)
      else if c = CHR ''t'' then Some (CHR 0x09)
      else None)"

definition cons_char :: "char \<Rightarrow> (string \<times> string) option \<Rightarrow> (string \<times> string) option" where
  "cons_char c m = map_option (\<lambda>(s, r). (c # s, r)) m"

text \<open>The body after the opening quote: the text and what follows the closing quote.\<close>

function json_lex_body :: "string \<Rightarrow> (string \<times> string) option" where
  "json_lex_body s =
     (case s of
        [] \<Rightarrow> None
      | c # r \<Rightarrow>
          if c = CHR 0x22 then Some ([], r)
          else if c = CHR 0x5C then
            (case r of
               [] \<Rightarrow> None
             | e # r1 \<Rightarrow>
                 if e = CHR ''u'' then
                   (case r1 of
                      a # b # x # y # r2 \<Rightarrow>
                        (case hex4 a b x y of
                           None \<Rightarrow> None
                         | Some v \<Rightarrow> if v < 128 then cons_char (char_of v) (json_lex_body r2) else None)
                    | _ \<Rightarrow> None)
                 else (case simple_escape e of
                     None \<Rightarrow> None
                   | Some d \<Rightarrow> cons_char d (json_lex_body r1)))
          else if (of_char c :: nat) < 0x20 then None
          else cons_char c (json_lex_body r))"
  by pat_completeness auto
termination
  by (relation "measure length") auto

declare json_lex_body.simps [simp del]

definition json_lex_string :: "string \<Rightarrow> (string \<times> string) option" where
  "json_lex_string t = (case t of c # r \<Rightarrow> if c = CHR 0x22 then json_lex_body r else None | [] \<Rightarrow> None)"

lemma hex_val_digit: "n < 16 \<Longrightarrow> hex_val (hex_digit n) = Some n"
  unfolding hex_digit_def
  by (auto simp: hex_val_def less_Suc_eq numeral_eq_Suc)

lemma json_lex_body_quote [simp]: "json_lex_body (CHR 0x22 # r) = Some ([], r)"
  by (subst json_lex_body.simps) simp

lemma json_lex_body_escape_char:
  "json_lex_body (json_escape_char c @ r) = cons_char c (json_lex_body r)"
proof -
  let ?uc = "of_char c :: nat"
  have "hex4 (CHR ''0'') (CHR ''0'') (hex_digit (?uc div 16)) (hex_digit (?uc mod 16)) = Some ?uc"
    if "?uc < 32"
  proof -
    have "hex_val (CHR ''0'') = Some 0" by (simp add: hex_val_def)
    moreover have "hex_val (hex_digit (?uc div 16)) = Some (?uc div 16)"
        "hex_val (hex_digit (?uc mod 16)) = Some (?uc mod 16)"
      using that by (simp_all add: hex_val_digit)
    ultimately show ?thesis by (simp add: hex4_def)
  qed
  then show ?thesis
    by (subst json_lex_body.simps)
      (auto simp: json_escape_char_def Let_def simple_escape_def)
qed

lemma json_lex_body_escape:
  "json_lex_body (concat (map json_escape_char s) @ CHR 0x22 # r) = Some (s, r)"
  by (induction s) (simp_all add: json_lex_body_escape_char cons_char_def)

lemma json_lex_escape_string: "json_lex_string (json_escape_string s @ r) = Some (s, r)"
  using json_lex_body_escape [of s r] by (simp add: json_lex_string_def json_escape_string_def)


section \<open>Properties\<close>

text \<open>C34: A JSON lexer reads every literal written by \<open>json_escape_string\<close> back as the original
  string and stops exactly at its end, whatever follows; so no node, topic or type name can break
  out of its literal.  The literal contains no raw control character.\<close>

theorem json_escape_string_roundtrip:
  "json_lex_string (json_escape_string s @ r) = Some (s, r) \<and>
   (\<forall>c \<in> set (json_escape_string s). \<not> (of_char c :: nat) < 0x20)"
proof (intro conjI ballI)
  show "json_lex_string (json_escape_string s @ r) = Some (s, r)"
    by (rule json_lex_escape_string)
next
  have d: "\<not> (of_char (hex_digit n) :: nat) < 32" if "n < 16" for n
    using hex_val_digit [OF that] by (auto simp: hex_val_def Let_def split: if_splits)
  have "\<not> (of_char x :: nat) < 32" if "x \<in> set (json_escape_char c)" for x c
  proof -
    have "(of_char c :: nat) div 16 < 16" "(of_char c :: nat) mod 16 < 16"
      using of_char_less_256 [of c] by (auto intro: less_mult_imp_div_less)
    with that d show ?thesis
      by (auto simp: json_escape_char_def Let_def split: if_splits)
  qed
  then show "\<not> (of_char c :: nat) < 0x20" if "c \<in> set (json_escape_string s)" for c
    using that by (auto simp: json_escape_string_def)
qed

theorem json_escape_string_roundtrip_witness:
  "json_lex_string (json_escape_string [CHR 0x22, CHR 0x01, CHR ''a''] @ '',x'') =
     Some ([CHR 0x22, CHR 0x01, CHR ''a''], '',x'') \<and>
   list_all (\<lambda>c. \<not> (of_char c :: nat) < 0x20)
     (json_escape_string [CHR 0x22, CHR 0x01, CHR ''a''])"
  unfolding list_all_iff by (rule json_escape_string_roundtrip)

end
