(* ===== verification/Graph.thy ===== *)
theory Graph
  imports Node Json_Writer "HOL-Library.Product_Lexorder"
begin

text \<open>
  The runtime-graph observer (\<^verbatim>\<open>graph.hpp\<close>, \<^verbatim>\<open>graph.cpp\<close>): the tables fed by the built-in topics, the
  discovery topic and \<^verbatim>\<open>rosout\<close>, the poll thread, the attribution of endpoints to nodes and the
  snapshot document.

  A GUID is its 16 bytes; on them \<^verbatim>\<open>memcmp\<close> is the order of byte lists by which the tables are sorted
  (\<open>guid_order\<close>).  The deserializers of the
  two message types (generated code) and the take calls of DDS are parameters.
\<close>

section \<open>Helpers\<close>

type_synonym guid = "byte list"

definition kMaxLogs :: nat where "kMaxLogs = 512"
definition kBuiltinBatch :: nat where "kBuiltinBatch = 32"

fun memcmp :: "byte list \<Rightarrow> byte list \<Rightarrow> nat \<Rightarrow> int" where
  "memcmp (a # as) (b # bs) (Suc n) = (if a = b then memcmp as bs n else uint a - uint b)"
| "memcmp as bs n = 0"

definition guid_less :: "guid \<Rightarrow> guid \<Rightarrow> bool" where
  "guid_less a b \<longleftrightarrow> memcmp a b 16 < 0"

definition guid_eq :: "guid \<Rightarrow> guid \<Rightarrow> bool" where
  "guid_eq a b \<longleftrightarrow> a = b"

definition gid_matches :: "byte list \<Rightarrow> guid \<Rightarrow> bool" where
  "gid_matches gid g \<longleftrightarrow> length gid \<ge> 16 \<and> take 16 gid = take 16 g"

lemma memcmp_less_iff:
  "length a = n \<Longrightarrow> length b = n \<Longrightarrow> memcmp a b n < 0 \<longleftrightarrow> a < b"
  by (induction a b n rule: memcmp.induct) (auto simp: word_less_def)

lemma memcmp_eq_iff:
  "n \<le> length a \<Longrightarrow> n \<le> length b \<Longrightarrow> memcmp a b n = 0 \<longleftrightarrow> take n a = take n b"
  by (induction a b n rule: memcmp.induct) (auto simp: word_uint_eq_iff)

text \<open>On GUIDs of 16 bytes \<^verbatim>\<open>GuidLess\<close> is the order of the tables, \<^verbatim>\<open>guid_eq\<close> its equality, and \<^verbatim>\<open>gid_matches\<close>
  the comparison of the first 16 bytes of the longer \<^verbatim>\<open>Gid\<close>.\<close>

lemma guid_order:
  assumes "length a = 16" "length b = 16"
  shows "guid_less a b \<longleftrightarrow> a < b"
    and "guid_eq a b \<longleftrightarrow> memcmp a b 16 = 0"
    and "guid_eq a b \<longleftrightarrow> \<not> guid_less a b \<and> \<not> guid_less b a"
    and "gid_matches gid a \<longleftrightarrow> length gid \<ge> 16 \<and> memcmp gid a 16 = 0"
  using assms memcmp_less_iff [of a 16 b] memcmp_less_iff [of b 16 a]
  by (auto simp: guid_less_def guid_eq_def gid_matches_def memcmp_eq_iff)

definition lower_hex :: "nat \<Rightarrow> char" where
  "lower_hex n = ''0123456789abcdef'' ! n"

definition guid_hex :: "guid \<Rightarrow> string" where
  "guid_hex g = concat (map (\<lambda>b. [lower_hex (unat b div 16), lower_hex (unat b mod 16)]) g)"

definition parse_enclave :: "string \<Rightarrow> string" where
  "parse_enclave user_data =
     (case str_find ''enclave='' user_data of
        None \<Rightarrow> []
      | Some begin_pos \<Rightarrow>
          let name_start = begin_pos + length ''enclave='';
              name_end = (case str_find_from '';'' user_data name_start of
                            None \<Rightarrow> length user_data | Some semi \<Rightarrow> semi)
          in substr user_data name_start (name_end - name_start))"

definition is_plumbing_topic :: "string \<Rightarrow> bool" where
  "is_plumbing_topic dds_topic \<longleftrightarrow>
     dds_topic = ''ros_discovery_info'' \<or> dds_topic = ''rt/rosout'' \<or> dds_topic = ''rt/parameter_events'' \<or>
     starts_with ''DCPS'' dds_topic \<or> starts_with ''d*'' dds_topic"


section \<open>State\<close>

record endpoint_info =
  ei_participant :: guid
  ei_topic :: string
  ei_type :: string
  ei_writer :: bool

record log_msg =
  lg_sec :: "32 word"
  lg_nanosec :: "32 word"
  lg_level :: byte
  lg_name :: string
  lg_msg :: string
  lg_file :: string
  lg_function :: string
  lg_line :: "32 word"

record graph =
  gr_self_guid :: guid
  gr_participants :: "(guid, string) omap"
  gr_endpoints :: "(guid, endpoint_info) omap"
  gr_discovery :: "(guid, participant_entities_info) omap"
  gr_logs :: "log_msg list"

definition graph_init :: "guid \<Rightarrow> graph" where
  "graph_init self = \<lparr>gr_self_guid = self, gr_participants = [], gr_endpoints = [], gr_discovery = [], gr_logs = []\<rparr>"


section \<open>Polling\<close>

text \<open>\<open>pt_user_data\<close> is what \<^verbatim>\<open>dds_qget_userdata\<close> delivers (\<open>None\<close>: no QoS or no user data).\<close>

record participant_sample =
  pt_alive :: bool
  pt_key :: guid
  pt_user_data :: "string option"

definition participant_update :: "participant_sample \<Rightarrow> graph \<Rightarrow> graph" where
  "participant_update s g =
     (if pt_alive s then
        g\<lparr>gr_participants :=
            om_upd (pt_key s) (case pt_user_data s of None \<Rightarrow> [] | Some u \<Rightarrow> parse_enclave u) (gr_participants g)\<rparr>
      else
        g\<lparr>gr_participants := om_erase (pt_key s) (gr_participants g),
          gr_discovery := om_erase (pt_key s) (gr_discovery g),
          gr_endpoints := filter (\<lambda>(k, e). \<not> guid_eq (ei_participant e) (pt_key s)) (gr_endpoints g)\<rparr>)"

definition poll_participants :: "(int + participant_sample list) \<Rightarrow> graph \<Rightarrow> graph" where
  "poll_participants taken g =
     (case taken of Inl n \<Rightarrow> g | Inr samples \<Rightarrow> fold participant_update samples g)"

record endpoint_sample =
  es_alive :: bool
  es_key :: guid
  es_participant_key :: guid
  es_topic_name :: "string option"
  es_type_name :: "string option"

definition endpoint_update :: "bool \<Rightarrow> endpoint_sample \<Rightarrow> graph \<Rightarrow> graph" where
  "endpoint_update writer s g =
     (if es_alive s then
        g\<lparr>gr_endpoints :=
            om_upd (es_key s)
              \<lparr>ei_participant = es_participant_key s,
               ei_topic = (case es_topic_name s of None \<Rightarrow> [] | Some t \<Rightarrow> t),
               ei_type = (case es_type_name s of None \<Rightarrow> [] | Some t \<Rightarrow> t), ei_writer = writer\<rparr> (gr_endpoints g)\<rparr>
      else g\<lparr>gr_endpoints := om_erase (es_key s) (gr_endpoints g)\<rparr>)"

definition poll_builtin :: "bool \<Rightarrow> (int + endpoint_sample list) \<Rightarrow> graph \<Rightarrow> graph" where
  "poll_builtin writer taken g =
     (case taken of Inl n \<Rightarrow> g | Inr samples \<Rightarrow> fold (endpoint_update writer) samples g)"

definition discovery_sample ::
    "participant_entities_info deserializer \<Rightarrow> byte list \<Rightarrow> (graph, unit) eff" where
  "discovery_sample deser pl =
     ebind (elift (cdr_reader_init pl (length pl))) (\<lambda>r.
     ebind (elift (deser r)) (\<lambda>(m, _).
       case m of
         None \<Rightarrow> ereturn ()
       | Some msg \<Rightarrow>
           ebind (elift (mem_read (pi_gid msg) 0 16)) (\<lambda>key.
           emodify (\<lambda>g. g\<lparr>gr_discovery := om_upd key msg (gr_discovery g)\<rparr>))))"

definition poll_discovery ::
    "'q takecdr \<Rightarrow> participant_entities_info deserializer \<Rightarrow> 'q \<Rightarrow> graph \<Rightarrow>
     (nat result \<times> ('q, graph) take_state) option" where
  "poll_discovery tk deser q g = reader_take tk (discovery_sample deser) q g"

text \<open>\<^verbatim>\<open>while (logs.size() > kMaxLogs) logs.pop_front();\<close>\<close>

fun trim_logs :: "'a list \<Rightarrow> 'a list" where
  "trim_logs [] = []"
| "trim_logs (x # xs) = (if length (x # xs) > kMaxLogs then trim_logs xs else x # xs)"

definition push_log :: "log_msg \<Rightarrow> graph \<Rightarrow> graph" where
  "push_log msg g = g\<lparr>gr_logs := trim_logs (gr_logs g @ [msg])\<rparr>"

definition rosout_sample :: "log_msg deserializer \<Rightarrow> byte list \<Rightarrow> (graph, unit) eff" where
  "rosout_sample deser pl =
     ebind (elift (cdr_reader_init pl (length pl))) (\<lambda>r.
     ebind (elift (deser r)) (\<lambda>(m, _).
       case m of None \<Rightarrow> ereturn () | Some msg \<Rightarrow> emodify (push_log msg)))"

definition poll_rosout ::
    "'q takecdr \<Rightarrow> log_msg deserializer \<Rightarrow> 'q \<Rightarrow> graph \<Rightarrow>
     (nat result \<times> ('q, graph) take_state) option" where
  "poll_rosout tk deser q g = reader_take tk (rosout_sample deser) q g"


section \<open>The poll thread\<close>

record 'q graph_world =
  gw_graph :: graph
  gw_running :: bool
  gw_stop_guard :: bool
  gw_discovery_queue :: 'q
  gw_rosout_queue :: 'q

record 'q graph_env =
  ge_wait :: "'q graph_world \<Rightarrow> (int \<times> nat list) \<times> 'q graph_world"
  ge_take_participants :: "'q graph_world \<Rightarrow> (int + participant_sample list) \<times> 'q graph_world"
  ge_take_endpoints :: "bool \<Rightarrow> 'q graph_world \<Rightarrow> (int + endpoint_sample list) \<times> 'q graph_world"
  ge_takecdr :: "'q takecdr"
  ge_deser_discovery :: "participant_entities_info deserializer"
  ge_deser_log :: "log_msg deserializer"

definition kStopSlot :: nat where "kStopSlot = 1"
definition kBiPartSlot :: nat where "kBiPartSlot = 2"
definition kBiPubSlot :: nat where "kBiPubSlot = 3"
definition kBiSubSlot :: nat where "kBiSubSlot = 4"
definition kDiscoverySlot :: nat where "kDiscoverySlot = 5"
definition kRosoutSlot :: nat where "kRosoutSlot = 6"

text \<open>One \<^verbatim>\<open>switch\<close>: the boolean says that \<^verbatim>\<open>run\<close> returns; \<open>None\<close> that a take never ends.\<close>

definition graph_slot :: "'q graph_env \<Rightarrow> nat \<Rightarrow> 'q graph_world \<Rightarrow> (bool result \<times> 'q graph_world) option" where
  "graph_slot ge i w =
     (if i = kStopSlot then
        Some (Inr (fst (guard_take (gw_stop_guard w))), w\<lparr>gw_stop_guard := snd (guard_take (gw_stop_guard w))\<rparr>)
      else if i = kBiPartSlot then
        (case ge_take_participants ge w of (t, w1) \<Rightarrow>
           Some (Inr False, w1\<lparr>gw_graph := poll_participants t (gw_graph w1)\<rparr>))
      else if i = kBiPubSlot then
        (case ge_take_endpoints ge True w of (t, w1) \<Rightarrow>
           Some (Inr False, w1\<lparr>gw_graph := poll_builtin True t (gw_graph w1)\<rparr>))
      else if i = kBiSubSlot then
        (case ge_take_endpoints ge False w of (t, w1) \<Rightarrow>
           Some (Inr False, w1\<lparr>gw_graph := poll_builtin False t (gw_graph w1)\<rparr>))
      else if i = kDiscoverySlot then
        map_option (\<lambda>(r, st). (rbind r (\<lambda>_. Inr False),
            w\<lparr>gw_graph := t_user st, gw_discovery_queue := t_queue st\<rparr>))
          (poll_discovery (ge_takecdr ge) (ge_deser_discovery ge) (gw_discovery_queue w) (gw_graph w))
      else if i = kRosoutSlot then
        map_option (\<lambda>(r, st). (rbind r (\<lambda>_. Inr False),
            w\<lparr>gw_graph := t_user st, gw_rosout_queue := t_queue st\<rparr>))
          (poll_rosout (ge_takecdr ge) (ge_deser_log ge) (gw_rosout_queue w) (gw_graph w))
      else Some (Inr False, w))"

fun graph_slots :: "'q graph_env \<Rightarrow> nat \<Rightarrow> nat list \<Rightarrow> 'q graph_world \<Rightarrow> (bool result \<times> 'q graph_world) option" where
  "graph_slots ge 0 ids w = Some (Inr False, w)"
| "graph_slots ge (Suc n) [] w = Some (Inl (UndefinedBehaviour ''triggered read out of bounds''), w)"
| "graph_slots ge (Suc n) (i # ids) w =
     (case graph_slot ge i w of
        None \<Rightarrow> None
      | Some (Inl e, w1) \<Rightarrow> Some (Inl e, w1)
      | Some (Inr stop, w1) \<Rightarrow> if stop then Some (Inr True, w1) else graph_slots ge n ids w1)"

text \<open>\<^verbatim>\<open>Impl::run\<close>.  An \<open>Inl\<close> result is an exception that leaves the thread function: the process ends.\<close>

partial_function (option) graph_run :: "'q graph_env \<Rightarrow> 'q graph_world \<Rightarrow> (unit result \<times> 'q graph_world) option" where
  "graph_run ge w =
     (if \<not> gw_running w then Some (Inr (), w)
      else case ge_wait ge w of ((n, ids), w1) \<Rightarrow>
        if n < 0 then Some (Inr (), w1)
        else case graph_slots ge (nat n) (take 8 ids) w1 of
            None \<Rightarrow> None
          | Some (r, w2) \<Rightarrow>
              (case r of
                 Inl e \<Rightarrow> Some (Inl e, w2)
               | Inr stop \<Rightarrow> if stop then Some (Inr (), w2) else graph_run ge w2))"

declare graph_run.simps [code]

text \<open>The destructor stops the thread.\<close>

definition graph_stop :: "'q graph_world \<Rightarrow> 'q graph_world" where
  "graph_stop w = w\<lparr>gw_running := False, gw_stop_guard := guard_trigger (gw_stop_guard w)\<rparr>"


section \<open>Attribution\<close>

definition owns :: "guid \<Rightarrow> byte list list \<Rightarrow> bool" where
  "owns endpoint gids \<longleftrightarrow> list_ex (\<lambda>gid. gid_matches gid endpoint) gids"

definition resolve_node :: "graph \<Rightarrow> guid \<Rightarrow> guid \<Rightarrow> (string \<times> string) result" where
  "resolve_node g participant endpoint =
     (case Option.bind (om_find (gr_discovery g) participant)
             (\<lambda>d. find (\<lambda>ni. owns endpoint (ni_writer_gids ni) \<or> owns endpoint (ni_reader_gids ni)) (pi_nodes d)) of
        Some ni \<Rightarrow> rbind (make_fq_node_name (ni_namespace ni) (ni_name ni)) (\<lambda>n. Inr (n, ''discovery''))
      | None \<Rightarrow>
          (case om_find (gr_participants g) participant of
             Some enclave \<Rightarrow>
               if enclave \<noteq> [] then Inr (enclave, ''user_data'')
               else Inr (''participant:'' @ guid_hex participant, ''anonymous'')
           | None \<Rightarrow> Inr (''participant:'' @ guid_hex participant, ''anonymous'')))"

type_synonym node_table = "(string, nat \<times> string) omap"

definition source_rank :: "string \<Rightarrow> nat" where
  "source_rank s = (if s = ''discovery'' then 3 else if s = ''user_data'' then 2 else 1)"

definition note_node :: "string \<Rightarrow> string \<Rightarrow> node_table \<Rightarrow> node_table" where
  "note_node name source nodes =
     (let attrib = (case om_find nodes name of None \<Rightarrow> (0, ''anonymous'') | Some a \<Rightarrow> a)
      in om_upd name (if source_rank source > fst attrib then (source_rank source, source) else attrib) nodes)"

type_synonym live_table = "(guid, endpoint_info \<times> string \<times> string) omap"

fun live_loop :: "graph \<Rightarrow> (guid, endpoint_info) omap \<Rightarrow> live_table \<times> node_table \<Rightarrow> (live_table \<times> node_table) result" where
  "live_loop g [] acc = Inr acc"
| "live_loop g ((k, e) # es) (live, nodes) =
     (if guid_eq (ei_participant e) (gr_self_guid g) then live_loop g es (live, nodes)
      else rbind (resolve_node g (ei_participant e) k) (\<lambda>owner.
        live_loop g es (om_upd k (e, owner) live, note_node (fst owner) (snd owner) nodes)))"

fun note_infos :: "node_entities_info list \<Rightarrow> node_table \<Rightarrow> node_table result" where
  "note_infos [] nodes = Inr nodes"
| "note_infos (ni # nis) nodes =
     rbind (make_fq_node_name (ni_namespace ni) (ni_name ni)) (\<lambda>n. note_infos nis (note_node n ''discovery'' nodes))"

fun discovery_loop :: "guid \<Rightarrow> (guid, participant_entities_info) omap \<Rightarrow> node_table \<Rightarrow> node_table result" where
  "discovery_loop self [] nodes = Inr nodes"
| "discovery_loop self ((k, d) # ds) nodes =
     (if guid_eq k self then discovery_loop self ds nodes
      else rbind (note_infos (pi_nodes d) nodes) (discovery_loop self ds))"

fun participant_loop :: "guid \<Rightarrow> (guid, string) omap \<Rightarrow> node_table \<Rightarrow> node_table" where
  "participant_loop self [] nodes = nodes"
| "participant_loop self ((k, enclave) # ps) nodes =
     (if guid_eq k self \<or> enclave = [] then participant_loop self ps nodes
      else participant_loop self ps (note_node enclave ''user_data'' nodes))"

section \<open>Topics and edges\<close>

record topic_agg =
  ta_type :: string
  ta_writers :: "string list"
  ta_readers :: "string list"

definition topic_add :: "guid \<times> endpoint_info \<times> string \<times> string \<Rightarrow> (string, topic_agg) omap \<Rightarrow> (string, topic_agg) omap" where
  "topic_add entry topics =
     (case entry of (k, info, node, source) \<Rightarrow>
        let agg = (case om_find topics (ei_topic info) of
                     None \<Rightarrow> \<lparr>ta_type = [], ta_writers = [], ta_readers = []\<rparr> | Some a \<Rightarrow> a);
            agg1 = agg\<lparr>ta_type := ei_type info\<rparr>
        in om_upd (ei_topic info)
             (if ei_writer info then agg1\<lparr>ta_writers := os_insert node (ta_writers agg1)\<rparr>
              else agg1\<lparr>ta_readers := os_insert node (ta_readers agg1)\<rparr>) topics)"

definition aggregate_topics :: "live_table \<Rightarrow> (string, topic_agg) omap" where
  "aggregate_topics live = fold topic_add live []"

text \<open>
  The source compares the two kind literals by address, so the order of two edges that differ only in
  the kind is unspecified; the model puts services first.
\<close>

datatype edge_kind = ServiceEdge | TopicEdge

instantiation edge_kind :: linorder
begin

definition less_eq_edge_kind :: "edge_kind \<Rightarrow> edge_kind \<Rightarrow> bool" where
  "less_eq_edge_kind a b \<longleftrightarrow> a = b \<or> a = ServiceEdge"

definition less_edge_kind :: "edge_kind \<Rightarrow> edge_kind \<Rightarrow> bool" where
  "less_edge_kind a b \<longleftrightarrow> a = ServiceEdge \<and> b = TopicEdge"

instance
  by standard (auto simp: less_eq_edge_kind_def less_edge_kind_def intro: edge_kind.exhaust)

end

type_synonym edge = "string \<times> string \<times> string \<times> edge_kind"

definition is_request_topic :: "string \<Rightarrow> bool" where
  "is_request_topic t \<longleftrightarrow> starts_with ''rq/'' t \<and> length t > 10 \<and> ends_with ''Request'' t"

definition is_data_topic :: "string \<Rightarrow> bool" where
  "is_data_topic t \<longleftrightarrow> starts_with ''rt/'' t \<and> length t > 3"

definition service_of :: "string \<Rightarrow> string" where
  "service_of t = ''/'' @ substr t 3 (length t - 3 - 7)"

definition topic_of :: "string \<Rightarrow> string" where
  "topic_of t = ''/'' @ substr_from t 3"

definition topic_edges :: "string \<times> topic_agg \<Rightarrow> edge list" where
  "topic_edges ta =
     (case ta of (t, agg) \<Rightarrow>
        if is_plumbing_topic t then []
        else if is_request_topic t then
          [(c, s, service_of t, ServiceEdge). c \<leftarrow> ta_writers agg, s \<leftarrow> ta_readers agg]
        else if is_data_topic t then
          [(w, r, topic_of t, TopicEdge). w \<leftarrow> ta_writers agg, r \<leftarrow> ta_readers agg]
        else [])"

definition graph_edges :: "(string, topic_agg) omap \<Rightarrow> edge list" where
  "graph_edges topics = fold os_insert (concat (map topic_edges topics)) []"

record graph_snapshot =
  gs_live :: live_table
  gs_nodes :: node_table
  gs_topics :: "(string, topic_agg) omap"
  gs_edges :: "edge list"
  gs_logs :: "log_msg list"

definition snapshot :: "graph \<Rightarrow> graph_snapshot result" where
  "snapshot g =
     rbind (live_loop g (gr_endpoints g) ([], [])) (\<lambda>(live, nodes).
     rbind (discovery_loop (gr_self_guid g) (gr_discovery g) nodes) (\<lambda>nodes1.
       let nodes2 = participant_loop (gr_self_guid g) (gr_participants g) nodes1;
           topics = aggregate_topics live
       in Inr \<lparr>gs_live = live, gs_nodes = nodes2, gs_topics = topics, gs_edges = graph_edges topics,
               gs_logs = gr_logs g\<rparr>))"


section \<open>The document\<close>

definition json_key :: "string \<Rightarrow> string" where
  "json_key k = [CHR 0x22] @ k @ [CHR 0x22] @ '':''"

definition json_raw :: "string \<Rightarrow> string" where
  "json_raw s = [CHR 0x22] @ s @ [CHR 0x22]"

fun dump_items :: "bool \<Rightarrow> string list \<Rightarrow> string" where
  "dump_items first [] = []"
| "dump_items first (b # bs) = (if first then ''{'' else '',{'') @ b @ ''}'' @ dump_items False bs"

fun dump_names_loop :: "bool \<Rightarrow> string list \<Rightarrow> string" where
  "dump_names_loop inner [] = []"
| "dump_names_loop inner (n # ns) = (if inner then [] else '','') @ json_escape_string n @ dump_names_loop False ns"

definition dump_names :: "string list \<Rightarrow> string" where
  "dump_names names = ''['' @ dump_names_loop True names @ '']''"

definition node_json :: "string \<times> nat \<times> string \<Rightarrow> string" where
  "node_json n =
     json_key ''name'' @ json_escape_string (fst n) @ '','' @ json_key ''source'' @ json_escape_string (snd (snd n))"

definition topic_json :: "string \<times> topic_agg \<Rightarrow> string" where
  "topic_json ta =
     json_key ''topic'' @ json_escape_string (topic_of (fst ta)) @
     '','' @ json_key ''type'' @ json_escape_string (ta_type (snd ta)) @
     '','' @ json_key ''publishers'' @ dump_names (ta_writers (snd ta)) @
     '','' @ json_key ''subscriptions'' @ dump_names (ta_readers (snd ta))"

definition service_json :: "string \<times> topic_agg \<Rightarrow> string" where
  "service_json ta =
     json_key ''service'' @ json_escape_string (service_of (fst ta)) @
     '','' @ json_key ''type'' @ json_escape_string (ta_type (snd ta)) @
     '','' @ json_key ''servers'' @ dump_names (ta_readers (snd ta)) @
     '','' @ json_key ''clients'' @ dump_names (ta_writers (snd ta))"

definition kind_name :: "edge_kind \<Rightarrow> string" where
  "kind_name k = (case k of ServiceEdge \<Rightarrow> ''service'' | TopicEdge \<Rightarrow> ''topic'')"

definition edge_json :: "edge \<Rightarrow> string" where
  "edge_json e =
     (case e of (source, target, name, kind) \<Rightarrow>
        json_key ''source'' @ json_escape_string source @ '','' @ json_key ''target'' @ json_escape_string target @
        '','' @ json_key ''topic'' @ json_escape_string name @ '','' @ json_key ''kind'' @ json_escape_string (kind_name kind))"

definition endpoint_json :: "guid \<times> endpoint_info \<times> string \<times> string \<Rightarrow> string" where
  "endpoint_json x =
     (case x of (k, info, node, source) \<Rightarrow>
        json_key ''gid'' @ json_raw (guid_hex k) @ '','' @ json_key ''participant'' @ json_raw (guid_hex (ei_participant info)) @
        '','' @ json_key ''node'' @ json_escape_string node @ '','' @ json_key ''topic'' @ json_escape_string (ei_topic info) @
        '','' @ json_key ''type'' @ json_escape_string (ei_type info) @
        '','' @ json_key ''kind'' @ json_escape_string (if ei_writer info then ''publisher'' else ''subscription''))"

definition log_json :: "log_msg \<Rightarrow> string" where
  "log_json l =
     json_key ''stamp'' @ show_int (sint (lg_sec l) * 1000000000 + uint (lg_nanosec l)) @
     '','' @ json_key ''level'' @ show_nat (unat (lg_level l)) @
     '','' @ json_key ''name'' @ json_escape_string (lg_name l) @ '','' @ json_key ''msg'' @ json_escape_string (lg_msg l) @
     '','' @ json_key ''file'' @ json_escape_string (lg_file l) @
     '','' @ json_key ''function'' @ json_escape_string (lg_function l) @
     '','' @ json_key ''line'' @ show_nat (unat (lg_line l))"

definition snapshot_dump :: "graph_snapshot \<Rightarrow> string" where
  "snapshot_dump s =
     ''{'' @ json_key ''nodes'' @ ''['' @ dump_items True (map node_json (gs_nodes s)) @
     ''],'' @ json_key ''topics'' @ ''['' @
       dump_items True (map topic_json (filter (\<lambda>(t, _). is_data_topic t \<and> \<not> is_plumbing_topic t) (gs_topics s))) @
     ''],'' @ json_key ''services'' @ ''['' @
       dump_items True (map service_json (filter (\<lambda>(t, _). is_request_topic t) (gs_topics s))) @
     ''],'' @ json_key ''edges'' @ ''['' @ dump_items True (map edge_json (gs_edges s)) @
     ''],'' @ json_key ''endpoints'' @ ''['' @ dump_items True (map endpoint_json (gs_live s)) @
     ''],'' @ json_key ''logs'' @ ''['' @ dump_items True (map log_json (gs_logs s)) @ '']}''"

definition snapshot_json :: "graph \<Rightarrow> string result" where
  "snapshot_json g = rbind (snapshot g) (\<lambda>s. Inr (snapshot_dump s))"

section \<open>Tables\<close>

lemma participant_update_other:
  assumes "pt_key t \<noteq> k"
  shows "om_find (gr_participants (participant_update t g)) k = om_find (gr_participants g) k \<and>
    om_find (gr_discovery (participant_update t g)) k = om_find (gr_discovery g) k \<and>
    snd ` set (gr_endpoints (participant_update t g)) \<subseteq> snd ` set (gr_endpoints g)"
  using assms by (auto simp: participant_update_def)

lemma participants_fold_other:
  assumes "\<forall>t \<in> set ys. pt_key t \<noteq> k"
  shows "om_find (gr_participants (fold participant_update ys g)) k = om_find (gr_participants g) k \<and>
    om_find (gr_discovery (fold participant_update ys g)) k = om_find (gr_discovery g) k \<and>
    snd ` set (gr_endpoints (fold participant_update ys g)) \<subseteq> snd ` set (gr_endpoints g)"
  using assms
proof (induction ys arbitrary: g)
  case (Cons y ys)
  then have "pt_key y \<noteq> k" "\<forall>t \<in> set ys. pt_key t \<noteq> k" by simp_all
  then have IH: "om_find (gr_participants (fold participant_update ys (participant_update y g))) k =
      om_find (gr_participants g) k"
    "om_find (gr_discovery (fold participant_update ys (participant_update y g))) k = om_find (gr_discovery g) k"
    and sub: "snd ` set (gr_endpoints (fold participant_update ys (participant_update y g))) \<subseteq>
      snd ` set (gr_endpoints (participant_update y g))"
    "snd ` set (gr_endpoints (participant_update y g)) \<subseteq> snd ` set (gr_endpoints g)"
    using Cons.IH [of "participant_update y g"] participant_update_other [of y k g] by simp_all
  from subset_trans [OF sub] IH show ?case unfolding fold_simps by blast
qed simp


definition demo_graph :: graph where
  "demo_graph =
     \<lparr>gr_self_guid = replicate 16 0,
      gr_participants = [(replicate 16 1, ''/talker''), (replicate 16 2, ''/listener'')],
      gr_endpoints =
        [(replicate 16 3, \<lparr>ei_participant = replicate 16 1, ei_topic = ''rt/chatter'', ei_type = ''T'', ei_writer = True\<rparr>),
         (replicate 16 4, \<lparr>ei_participant = replicate 16 2, ei_topic = ''rt/chatter'', ei_type = ''T'', ei_writer = False\<rparr>)],
      gr_discovery = [], gr_logs = []\<rparr>"


lemma trim_logs_eq: "trim_logs xs = drop (length xs - 512) xs"
proof (induction xs)
  case (Cons x xs)
  show ?case
  proof (cases "length xs < 512")
    case False
    then have "length (x # xs) - 512 = Suc (length xs - 512)" by simp
    with False Cons show ?thesis by (simp add: kMaxLogs_def del: length_Cons)
  qed (simp add: kMaxLogs_def)
qed simp

lemma drop_ring:
  "drop (length (drop (length l - 512) l @ [m]) - 512) (drop (length l - 512) l @ [m]) =
     drop (length (l @ [m]) - 512) (l @ [m])"
proof (cases "length l < 512")
  case False
  let ?j = "length l - 512"
  have "drop ?j l @ [m] = drop ?j (l @ [m])" by simp
  moreover have "length (drop ?j l @ [m]) - 512 = 1" "length (l @ [m]) - 512 = 1 + ?j" using False by simp_all
  ultimately show ?thesis by (metis drop_drop)
qed simp

lemma push_logs_eq:
  assumes "length (gr_logs g) \<le> 512"
  shows "gr_logs (fold push_log ms g) = drop (length (gr_logs g) + length ms - 512) (gr_logs g @ ms)"
proof (induction ms rule: rev_induct)
  case Nil
  then show ?case using assms by simp
next
  case (snoc m ms)
  let ?l = "gr_logs g @ ms"
  have "gr_logs (push_log m h) = trim_logs (gr_logs h @ [m])" for h by (simp add: push_log_def)
  then have "gr_logs (fold push_log (ms @ [m]) g) = trim_logs (drop (length ?l - 512) ?l @ [m])"
    using snoc by simp
  also have "\<dots> = drop (length (?l @ [m]) - 512) (?l @ [m])"
    unfolding trim_logs_eq by (rule drop_ring)
  finally show ?case by simp
qed

text \<open>The log table is a ring of the 512 most recent records: after any number of records it holds
  the last 512 of them (all, when there are fewer), oldest first.\<close>

theorem logs_keep_latest:
  assumes "length (gr_logs g) \<le> 512"
  shows "gr_logs (fold push_log ms g) = drop (length (gr_logs g @ ms) - 512) (gr_logs g @ ms) \<and>
    length (gr_logs (fold push_log ms g)) = min 512 (length (gr_logs g @ ms))"
  using push_logs_eq [OF assms, of ms] by simp

definition demo_log :: log_msg where
  "demo_log = \<lparr>lg_sec = 1, lg_nanosec = 2, lg_level = 20, lg_name = ''talker'', lg_msg = ''hi'', lg_file = ''f'',
     lg_function = ''g'', lg_line = 3\<rparr>"

theorem logs_keep_latest_witness:
  "length (gr_logs (fold push_log (replicate 600 demo_log) demo_graph)) = 512"
  using logs_keep_latest [of demo_graph "replicate 600 demo_log"] by (simp add: demo_graph_def)


section \<open>Identity in the user data\<close>

text \<open>The identity a node puts into its participant's user data is what the observer reads out of it, up
  to the first semicolon.\<close>

theorem enclave_roundtrip:
  "parse_enclave (participant_user_data e) = takeWhile (\<lambda>c. c \<noteq> CHR '';'') e"
proof -
  have p: "str_find ''enclave='' (''enclave='' @ e @ '';'') = Some 0" by simp
  obtain k where k: "str_find '';'' (e @ '';'') = Some k"
    using str_find_char_None_iff [of "CHR '';''" "e @ '';''"] by fastforce
  have "k < length (e @ '';'')" "(e @ '';'') ! k = CHR '';''" "\<forall>j < k. (e @ '';'') ! j \<noteq> CHR '';''"
    using str_find_char_SomeD [OF k] by auto
  then have le: "k \<le> length e" and semi: "k < length e \<Longrightarrow> e ! k = CHR '';''"
    and before: "\<And>i. i < k \<Longrightarrow> i < length e \<Longrightarrow> e ! i \<noteq> CHR '';''"
    by (auto simp: nth_append)
  have "takeWhile (\<lambda>c. c \<noteq> CHR '';'') e = take k e"
    by (rule takeWhile_eq_take_P_nth) (use semi before in auto)
  with le show ?thesis
    using p k by (simp add: parse_enclave_def participant_user_data_def str_find_from_def substr_def)
qed

section \<open>Live endpoints\<close>

lemma live_loop_set:
  assumes "live_loop g es (live, nodes) = Inr (live', nodes')" "distinct (map fst es)"
    and "fst ` set es \<inter> set (om_keys live) = {}"
  shows "set live' = set live \<union>
    {(k, e, n). (k, e) \<in> set es \<and> ei_participant e \<noteq> gr_self_guid g \<and> resolve_node g (ei_participant e) k = Inr n}"
  using assms
proof (induction es arbitrary: live nodes)
  case (Cons x es)
  obtain k e where x: "x = (k, e)" by (cases x)
  show ?case
  proof (cases "ei_participant e = gr_self_guid g")
    case True
    then have "live_loop g es (live, nodes) = Inr (live', nodes')" using Cons.prems(1) by (simp add: x guid_eq_def)
    from Cons.IH [OF this] Cons.prems(2,3) True show ?thesis by (auto simp: x)
  next
    case False
    then obtain n where n: "resolve_node g (ei_participant e) k = Inr n"
      and rec: "live_loop g es (om_upd k (e, n) live, note_node (fst n) (snd n) nodes) = Inr (live', nodes')"
      using Cons.prems(1) by (auto simp: x guid_eq_def rbind_eq_Inr_iff)
    have k: "k \<notin> set (om_keys live)" "k \<notin> fst ` set es" "distinct (map fst es)"
      using Cons.prems(2,3) by (auto simp: x)
    have "fst ` set es \<inter> set (om_keys (om_upd k (e, n) live)) = {}" using k Cons.prems(3) by (auto simp: x)
    from Cons.IH [OF rec k(3) this] k(1) n False show ?thesis
      by (auto simp: x set_om_upd_fresh)
  qed
qed auto

text \<open>The snapshot attributes every endpoint of every participant but the observer's own, exactly once
  and to the owner \<^verbatim>\<open>resolve_node\<close> gives; the observer's own endpoints appear nowhere.\<close>

theorem snapshot_live_exact:
  assumes "om_ok (gr_endpoints g)" "snapshot g = Inr s"
  shows "(k, e, n) \<in> set (gs_live s) \<longleftrightarrow>
    om_find (gr_endpoints g) k = Some e \<and> ei_participant e \<noteq> gr_self_guid g \<and>
    resolve_node g (ei_participant e) k = Inr n"
proof -
  obtain live nodes where "live_loop g (gr_endpoints g) ([], []) = Inr (live, nodes)" "gs_live s = live"
    using assms(2) by (auto simp: snapshot_def rbind_eq_Inr_iff Let_def split: prod.splits)
  then show ?thesis
    using live_loop_set [of g "gr_endpoints g" "[]" "[]" live nodes] om_ok_distinct [OF assms(1)]
      om_in_set_iff [OF assms(1)] by (auto simp: om_keys_def)
qed

lemma demo_snapshot: "\<exists>s. snapshot demo_graph = Inr s"
proof -
  have "\<not> isl (snapshot demo_graph)" by code_simp
  then show ?thesis by (cases "snapshot demo_graph") auto
qed

theorem snapshot_live_exact_witness:
  "\<exists>s. snapshot demo_graph = Inr s \<and>
     (replicate 16 3, \<lparr>ei_participant = replicate 16 1, ei_topic = ''rt/chatter'', ei_type = ''T'', ei_writer = True\<rparr>,
      ''/talker'', ''user_data'') \<in> set (gs_live s)"
proof -
  obtain s where s: "snapshot demo_graph = Inr s" using demo_snapshot by blast
  let ?e = "\<lparr>ei_participant = replicate 16 1, ei_topic = ''rt/chatter'', ei_type = ''T'', ei_writer = True\<rparr>"
  have "om_ok (gr_endpoints demo_graph)" "om_find (gr_endpoints demo_graph) (replicate 16 3) = Some ?e"
    "ei_participant ?e \<noteq> gr_self_guid demo_graph"
    "resolve_node demo_graph (ei_participant ?e) (replicate 16 3) = Inr (''/talker'', ''user_data'')"
    by code_simp+
  with snapshot_live_exact [OF _ s, of "replicate 16 3" ?e] s show ?thesis by blast
qed


section \<open>Edges\<close>

definition writers_of :: "(string, topic_agg) omap \<Rightarrow> string \<Rightarrow> string set" where
  "writers_of m t = (case om_find m t of None \<Rightarrow> {} | Some a \<Rightarrow> set (ta_writers a))"

definition readers_of :: "(string, topic_agg) omap \<Rightarrow> string \<Rightarrow> string set" where
  "readers_of m t = (case om_find m t of None \<Rightarrow> {} | Some a \<Rightarrow> set (ta_readers a))"

lemma topic_add_sets:
  "writers_of (topic_add (k, e, n, src) m) t = writers_of m t \<union> (if ei_topic e = t \<and> ei_writer e then {n} else {})"
  "readers_of (topic_add (k, e, n, src) m) t = readers_of m t \<union> (if ei_topic e = t \<and> \<not> ei_writer e then {n} else {})"
  by (auto simp: topic_add_def writers_of_def readers_of_def Let_def split: option.splits)

lemma topic_add_ok: "om_ok m \<Longrightarrow> om_ok (topic_add x m)"
  by (auto simp: topic_add_def Let_def split: prod.splits)

lemma aggregate_ok: "om_ok (aggregate_topics live)"
proof -
  have "om_ok m \<Longrightarrow> om_ok (fold topic_add live m)" for m
    by (induction live arbitrary: m) (simp_all add: topic_add_ok)
  then show ?thesis by (simp add: aggregate_topics_def)
qed

lemma aggregate_sets:
  "writers_of (aggregate_topics live) t = {n. \<exists>k e src. (k, e, n, src) \<in> set live \<and> ei_topic e = t \<and> ei_writer e}"
  "readers_of (aggregate_topics live) t = {n. \<exists>k e src. (k, e, n, src) \<in> set live \<and> ei_topic e = t \<and> \<not> ei_writer e}"
proof -
  have "writers_of (fold topic_add live m) t =
      writers_of m t \<union> {n. \<exists>k e src. (k, e, n, src) \<in> set live \<and> ei_topic e = t \<and> ei_writer e}" for m
  proof (induction live arbitrary: m)
    case (Cons x live)
    obtain k e n src where "x = (k, e, n, src)" by (metis prod_cases4)
    with Cons show ?case by (auto simp: topic_add_sets)
  qed simp
  then show "writers_of (aggregate_topics live) t = {n. \<exists>k e src. (k, e, n, src) \<in> set live \<and> ei_topic e = t \<and> ei_writer e}"
    by (simp add: aggregate_topics_def) (simp add: writers_of_def)
  have "readers_of (fold topic_add live m) t =
      readers_of m t \<union> {n. \<exists>k e src. (k, e, n, src) \<in> set live \<and> ei_topic e = t \<and> \<not> ei_writer e}" for m
  proof (induction live arbitrary: m)
    case (Cons x live)
    obtain k e n src where "x = (k, e, n, src)" by (metis prod_cases4)
    with Cons show ?case by (auto simp: topic_add_sets)
  qed simp
  then show "readers_of (aggregate_topics live) t = {n. \<exists>k e src. (k, e, n, src) \<in> set live \<and> ei_topic e = t \<and> \<not> ei_writer e}"
    by (simp add: aggregate_topics_def) (simp add: readers_of_def)
qed

lemma data_not_request: "is_data_topic t \<Longrightarrow> \<not> is_request_topic t"
  by (cases t; cases "tl t") (auto simp: is_data_topic_def is_request_topic_def)

lemma set_topic_edges:
  "(a, b, n, k) \<in> set (topic_edges (t, agg)) \<longleftrightarrow>
     \<not> is_plumbing_topic t \<and> a \<in> set (ta_writers agg) \<and> b \<in> set (ta_readers agg) \<and>
     (case k of
        ServiceEdge \<Rightarrow> is_request_topic t \<and> n = service_of t
      | TopicEdge \<Rightarrow> is_data_topic t \<and> n = topic_of t)"
  by (cases k) (auto simp: topic_edges_def data_not_request)

lemma edges_of_topic:
  assumes "om_ok m"
  shows "(a, b, n, k) \<in> set (graph_edges m) \<longleftrightarrow>
    (\<exists>t. \<not> is_plumbing_topic t \<and> a \<in> writers_of m t \<and> b \<in> readers_of m t \<and>
       (case k of
          ServiceEdge \<Rightarrow> is_request_topic t \<and> n = service_of t
        | TopicEdge \<Rightarrow> is_data_topic t \<and> n = topic_of t))"
proof -
  have "(a, b, n, k) \<in> set (graph_edges m) \<longleftrightarrow> (\<exists>t agg. om_find m t = Some agg \<and> (a, b, n, k) \<in> set (topic_edges (t, agg)))"
    using om_in_set_iff [OF assms] by (auto simp: graph_edges_def)
  also have "\<dots> \<longleftrightarrow> (\<exists>t. \<not> is_plumbing_topic t \<and> a \<in> writers_of m t \<and> b \<in> readers_of m t \<and>
       (case k of
          ServiceEdge \<Rightarrow> is_request_topic t \<and> n = service_of t
        | TopicEdge \<Rightarrow> is_data_topic t \<and> n = topic_of t))"
    unfolding set_topic_edges
    by (intro ex_cong1) (auto simp: writers_of_def readers_of_def split: option.splits)
  finally show ?thesis .
qed

text \<open>C33: The edges are exactly the data flow between live endpoints: a topic edge from one node to another
  for every publisher and subscription of a data topic outside the plumbing, a service edge for
  every client and server of a request topic, each once and in increasing order.\<close>

theorem snapshot_edges_exact:
  assumes "snapshot g = Inr s"
  shows "sorted_wrt (<) (gs_edges s) \<and>
    ((a, b, n, k) \<in> set (gs_edges s) \<longleftrightarrow>
      (\<exists>i e src j f src'. (i, e, a, src) \<in> set (gs_live s) \<and> (j, f, b, src') \<in> set (gs_live s) \<and>
         ei_writer e \<and> \<not> ei_writer f \<and> ei_topic e = ei_topic f \<and> \<not> is_plumbing_topic (ei_topic e) \<and>
         (case k of
            ServiceEdge \<Rightarrow> is_request_topic (ei_topic e) \<and> n = service_of (ei_topic e)
          | TopicEdge \<Rightarrow> is_data_topic (ei_topic e) \<and> n = topic_of (ei_topic e))))"
proof -
  have e: "gs_edges s = graph_edges (aggregate_topics (gs_live s))"
    using assms by (auto simp: snapshot_def rbind_eq_Inr_iff Let_def split: prod.splits)
  have "sorted_wrt (<) (gs_edges s)"
    unfolding e graph_edges_def by (rule sorted_fold_os_insert) simp
  then show ?thesis
    unfolding e edges_of_topic [OF aggregate_ok] aggregate_sets by auto metis+
qed

theorem snapshot_edges_exact_witness:
  "\<exists>s. snapshot demo_graph = Inr s \<and> (''/talker'', ''/listener'', ''/chatter'', TopicEdge) \<in> set (gs_edges s)"
proof -
  obtain s where s: "snapshot demo_graph = Inr s" using demo_snapshot by blast
  let ?e = "\<lambda>p w. \<lparr>ei_participant = replicate 16 p, ei_topic = ''rt/chatter'', ei_type = ''T'', ei_writer = w\<rparr>"
  have "case snapshot demo_graph of Inl _ \<Rightarrow> False | Inr s \<Rightarrow>
      (replicate 16 3, ?e 1 True, ''/talker'', ''user_data'') \<in> set (gs_live s) \<and>
      (replicate 16 4, ?e 2 False, ''/listener'', ''user_data'') \<in> set (gs_live s)" by code_simp
  then have live: "(replicate 16 3, ?e 1 True, ''/talker'', ''user_data'') \<in> set (gs_live s)"
    "(replicate 16 4, ?e 2 False, ''/listener'', ''user_data'') \<in> set (gs_live s)" using s by simp_all
  have t: "\<not> is_plumbing_topic ''rt/chatter''" "is_data_topic ''rt/chatter''" "topic_of ''rt/chatter'' = ''/chatter''"
    by code_simp+
  have "\<exists>i e src j f src'. (i, e, ''/talker'', src) \<in> set (gs_live s) \<and> (j, f, ''/listener'', src') \<in> set (gs_live s) \<and>
         ei_writer e \<and> \<not> ei_writer f \<and> ei_topic e = ei_topic f \<and> \<not> is_plumbing_topic (ei_topic e) \<and>
         (case TopicEdge of
            ServiceEdge \<Rightarrow> is_request_topic (ei_topic e) \<and> ''/chatter'' = service_of (ei_topic e)
          | TopicEdge \<Rightarrow> is_data_topic (ei_topic e) \<and> ''/chatter'' = topic_of (ei_topic e))"
    by (rule exI, rule exI, rule exI, rule exI, rule exI, rule exI,
        rule conjI [OF live(1)], rule conjI [OF live(2)]) (simp add: t)
  with snapshot_edges_exact [OF s, of "''/talker''" "''/listener''" "''/chatter''" TopicEdge] s
  show ?thesis by blast
qed


section \<open>Node names from the wire\<close>

definition valid_node_info :: "node_entities_info \<Rightarrow> bool" where
  "valid_node_info ni \<longleftrightarrow> \<not> isl (make_fq_node_name (ni_namespace ni) (ni_name ni))"

definition peers_valid :: "graph \<Rightarrow> bool" where
  "peers_valid g \<longleftrightarrow>
     (\<forall>k d ni. (k, d) \<in> set (gr_discovery g) \<longrightarrow> k \<noteq> gr_self_guid g \<longrightarrow> ni \<in> set (pi_nodes d) \<longrightarrow> valid_node_info ni)"

lemma valid_node_infoE:
  "valid_node_info ni \<Longrightarrow> (\<And>n. make_fq_node_name (ni_namespace ni) (ni_name ni) = Inr n \<Longrightarrow> P) \<Longrightarrow> P"
  by (cases "make_fq_node_name (ni_namespace ni) (ni_name ni)") (auto simp: valid_node_info_def)

lemma note_infos_total: "(\<exists>x. note_infos nis m = Inr x) \<longleftrightarrow> (\<forall>ni \<in> set nis. valid_node_info ni)"
proof (induction nis arbitrary: m)
  case (Cons ni nis)
  then show ?case
    by (cases "make_fq_node_name (ni_namespace ni) (ni_name ni)") (auto simp: valid_node_info_def)
qed simp

lemma discovery_loop_total:
  "(\<exists>x. discovery_loop self ds m = Inr x) \<longleftrightarrow>
     (\<forall>k d. (k, d) \<in> set ds \<longrightarrow> k \<noteq> self \<longrightarrow> (\<forall>ni \<in> set (pi_nodes d). valid_node_info ni))"
proof (induction ds arbitrary: m)
  case (Cons x ds)
  obtain k d where x: "x = (k, d)" by (cases x)
  show ?case
  proof (cases "k = self")
    case True
    with Cons show ?thesis by (auto simp: x guid_eq_def)
  next
    case False
    then have "(\<exists>x. discovery_loop self ((k, d) # ds) m = Inr x) \<longleftrightarrow>
        (\<exists>y. note_infos (pi_nodes d) m = Inr y) \<and>
        (\<forall>k d. (k, d) \<in> set ds \<longrightarrow> k \<noteq> self \<longrightarrow> (\<forall>ni \<in> set (pi_nodes d). valid_node_info ni))"
      using Cons by (auto simp: guid_eq_def rbind_eq_Inr_iff)
    with False show ?thesis by (auto simp: x note_infos_total)
  qed
qed simp

lemma resolve_node_total:
  assumes "peers_valid g" "p \<noteq> gr_self_guid g"
  shows "\<exists>x. resolve_node g p k = Inr x"
proof -
  let ?o = "\<lambda>ni. owns k (ni_writer_gids ni) \<or> owns k (ni_reader_gids ni)"
  show ?thesis
  proof (cases "Option.bind (om_find (gr_discovery g) p) (\<lambda>d. find ?o (pi_nodes d))")
    case (Some ni)
    then obtain d where "om_find (gr_discovery g) p = Some d" "find ?o (pi_nodes d) = Some ni"
      by (auto simp: bind_eq_Some_conv)
    then have "(p, d) \<in> set (gr_discovery g)" "ni \<in> set (pi_nodes d)"
      by (auto simp: om_find_in_set find_Some_iff)
    with assms have "valid_node_info ni" by (auto simp: peers_valid_def)
    with Some show ?thesis by (auto simp: resolve_node_def elim: valid_node_infoE)
  qed (auto simp: resolve_node_def split: option.splits)
qed

lemma live_loop_total:
  "peers_valid g \<Longrightarrow> \<exists>x. live_loop g es acc = Inr x"
proof (induction es arbitrary: acc)
  case (Cons y es)
  obtain k e where y: "y = (k, e)" by (cases y)
  obtain live nodes where acc: "acc = (live, nodes)" by (cases acc)
  show ?case
    using resolve_node_total [OF Cons.prems, of "ei_participant e" k] Cons
    by (auto simp: y acc guid_eq_def)
qed auto

text \<open>The snapshot succeeds exactly when every node name any other participant has announced is
  acceptable: one announced name with an empty or slashed token or a malformed namespace makes
  every snapshot throw.\<close>

theorem snapshot_fails_on_invalid_peer:
  "(\<exists>s. snapshot g = Inr s) \<longleftrightarrow> peers_valid g"
proof
  assume "\<exists>s. snapshot g = Inr s"
  then have "\<exists>m x. discovery_loop (gr_self_guid g) (gr_discovery g) m = Inr x"
    by (auto simp: snapshot_def rbind_eq_Inr_iff split: prod.splits)
  then obtain m where "\<exists>x. discovery_loop (gr_self_guid g) (gr_discovery g) m = Inr x" by blast
  then show "peers_valid g" unfolding discovery_loop_total peers_valid_def by blast
next
  assume valid: "peers_valid g"
  obtain live nodes where "live_loop g (gr_endpoints g) ([], []) = Inr (live, nodes)"
    using live_loop_total [OF valid, of "gr_endpoints g" "([], [])"] by auto
  moreover obtain x where "discovery_loop (gr_self_guid g) (gr_discovery g) nodes = Inr x"
    using valid discovery_loop_total [of "gr_self_guid g" "gr_discovery g" nodes]
    unfolding peers_valid_def by blast
  ultimately show "\<exists>s. snapshot g = Inr s" by (simp add: snapshot_def Let_def)
qed

definition ranked :: "node_table \<Rightarrow> bool" where
  "ranked m \<longleftrightarrow> (\<forall>n r src. om_find m n = Some (r, src) \<longrightarrow> r = source_rank src)"

text \<open>\<open>better m m'\<close>: every node of \<open>m\<close> is in \<open>m'\<close> with a source that ranks at least as high.\<close>

definition better :: "node_table \<Rightarrow> node_table \<Rightarrow> bool" where
  "better m m' \<longleftrightarrow> (\<forall>n r src. om_find m n = Some (r, src) \<longrightarrow>
     (\<exists>r' src'. om_find m' n = Some (r', src') \<and> r \<le> r'))"

lemma better_refl [simp]: "better m m"
  by (auto simp: better_def)

lemma better_trans: "better a b \<Longrightarrow> better b c \<Longrightarrow> better a c"
  unfolding better_def by (meson le_trans)

lemma source_rank_bounds: "1 \<le> source_rank s" "source_rank s \<le> 3"
  by (simp_all add: source_rank_def)

lemma note_node_step:
  assumes "ranked m"
  shows "ranked (note_node n s m) \<and> better m (note_node n s m) \<and>
    (\<exists>r src. om_find (note_node n s m) n = Some (r, src) \<and> source_rank s \<le> r)"
proof (cases "om_find m n")
  case None
  then show ?thesis
    using assms source_rank_bounds(1) [of s]
    by (auto simp: note_node_def ranked_def better_def Let_def split: if_splits)
next
  case (Some a)
  then show ?thesis
    using assms by (cases a) (auto simp: note_node_def ranked_def better_def Let_def split: if_splits)
qed

lemma live_loop_nodes:
  assumes "live_loop g es (live, nodes) = Inr (live', nodes')" "ranked nodes"
  shows "ranked nodes' \<and> better nodes nodes'"
  using assms
proof (induction es arbitrary: live nodes)
  case (Cons y es)
  obtain k e where y: "y = (k, e)" by (cases y)
  show ?case
  proof (cases "guid_eq (ei_participant e) (gr_self_guid g)")
    case True
    with Cons show ?thesis by (simp add: y)
  next
    case False
    then obtain n where rec: "live_loop g es (om_upd k (e, n) live, note_node (fst n) (snd n) nodes) = Inr (live', nodes')"
      using Cons.prems(1) by (auto simp: y rbind_eq_Inr_iff)
    note step = note_node_step [OF Cons.prems(2), of "fst n" "snd n"]
    from Cons.IH [OF rec] step show ?thesis using better_trans by blast
  qed
qed simp

lemma note_infos_nodes:
  assumes "note_infos nis m = Inr m'" "ranked m"
  shows "ranked m' \<and> better m m' \<and>
    (\<forall>ni n. ni \<in> set nis \<and> make_fq_node_name (ni_namespace ni) (ni_name ni) = Inr n \<longrightarrow>
       (\<exists>src. om_find m' n = Some (3, src)))"
  using assms
proof (induction nis arbitrary: m)
  case (Cons ni nis)
  then obtain x where x: "make_fq_node_name (ni_namespace ni) (ni_name ni) = Inr x"
    and rec: "note_infos nis (note_node x ''discovery'' m) = Inr m'"
    by (auto simp: rbind_eq_Inr_iff)
  note step = note_node_step [OF Cons.prems(2), of x "''discovery''"]
  have rank: "source_rank ''discovery'' = 3" by (simp add: source_rank_def)
  from Cons.IH [OF rec] step have IH: "ranked m'" "better (note_node x ''discovery'' m) m'" "better m m'"
    "\<forall>ni n. ni \<in> set nis \<and> make_fq_node_name (ni_namespace ni) (ni_name ni) = Inr n \<longrightarrow>
       (\<exists>src. om_find m' n = Some (3, src))"
    using better_trans by blast+
  obtain r src where "om_find (note_node x ''discovery'' m) x = Some (r, src)" "3 \<le> r" using step rank by auto
  with IH(2) obtain r' src' where r': "om_find m' x = Some (r', src')" "3 \<le> r'"
    unfolding better_def by (meson le_trans)
  then have "r' = 3" using IH(1) source_rank_bounds(2) [of src'] by (auto simp: ranked_def)
  with r' IH x show ?case by auto
qed simp

lemma discovery_loop_nodes:
  assumes "discovery_loop self ds m = Inr m'" "ranked m"
  shows "ranked m' \<and> better m m' \<and>
    (\<forall>k d ni n. (k, d) \<in> set ds \<and> k \<noteq> self \<and> ni \<in> set (pi_nodes d) \<and>
       make_fq_node_name (ni_namespace ni) (ni_name ni) = Inr n \<longrightarrow> (\<exists>r src. om_find m' n = Some (r, src) \<and> 3 \<le> r))"
  using assms
proof (induction ds arbitrary: m)
  case (Cons y ds)
  obtain k d where y: "y = (k, d)" by (cases y)
  show ?case
  proof (cases "k = self")
    case True
    with Cons show ?thesis by (auto simp: y guid_eq_def)
  next
    case False
    then obtain m1 where m1: "note_infos (pi_nodes d) m = Inr m1" and rec: "discovery_loop self ds m1 = Inr m'"
      using Cons.prems(1) by (auto simp: y guid_eq_def rbind_eq_Inr_iff)
    note ni = note_infos_nodes [OF m1 Cons.prems(2)]
    note IH = Cons.IH [OF rec conjunct1 [OF ni]]
    have "\<exists>r src. om_find m' n = Some (r, src) \<and> 3 \<le> r"
      if "ni \<in> set (pi_nodes d)" "make_fq_node_name (ni_namespace ni) (ni_name ni) = Inr n" for ni n
      using ni that IH unfolding better_def by blast
    with IH ni better_trans show ?thesis by (auto simp: y)
  qed
qed simp

lemma participant_loop_nodes:
  "ranked m \<Longrightarrow> ranked (participant_loop self ps m) \<and> better m (participant_loop self ps m)"
proof (induction ps arbitrary: m)
  case (Cons y ps)
  obtain k e where y: "y = (k, e)" by (cases y)
  show ?case
    using Cons note_node_step [OF Cons.prems, of e "''user_data''"] better_trans by (auto simp: y)
qed simp

text \<open>Every node a peer announces is in the snapshot, marked as known from discovery, whatever weaker
  sources say about the same name.\<close>

theorem snapshot_nodes_announced:
  assumes "snapshot g = Inr s" "(k, d) \<in> set (gr_discovery g)" "k \<noteq> gr_self_guid g"
    and "ni \<in> set (pi_nodes d)" "make_fq_node_name (ni_namespace ni) (ni_name ni) = Inr n"
  shows "om_find (gs_nodes s) n = Some (3, ''discovery'')"
proof -
  obtain live nodes nodes1 where live: "live_loop g (gr_endpoints g) ([], []) = Inr (live, nodes)"
    and disc: "discovery_loop (gr_self_guid g) (gr_discovery g) nodes = Inr nodes1"
    and res: "gs_nodes s = participant_loop (gr_self_guid g) (gr_participants g) nodes1"
    using assms(1) by (auto simp: snapshot_def rbind_eq_Inr_iff Let_def split: prod.splits)
  have "ranked []" by (simp add: ranked_def)
  from live_loop_nodes [OF live this] have r0: "ranked nodes" by blast
  from discovery_loop_nodes [OF disc r0] assms(2-5) obtain r src where
    n1: "ranked nodes1" "om_find nodes1 n = Some (r, src)" "3 \<le> r" by blast
  from participant_loop_nodes [OF n1(1), of "gr_self_guid g" "gr_participants g"]
  have "ranked (gs_nodes s)" "better nodes1 (gs_nodes s)" unfolding res by blast+
  with n1 obtain r' src' where "om_find (gs_nodes s) n = Some (r', src')" "3 \<le> r'" "r' = source_rank src'"
    unfolding better_def ranked_def by (meson le_trans)
  then show ?thesis by (auto simp: source_rank_def split: if_splits)
qed

definition announced_graph :: graph where
  "announced_graph = demo_graph\<lparr>gr_discovery := [(replicate 16 1, \<lparr>pi_gid = replicate 16 1,
     pi_nodes = [\<lparr>ni_namespace = ''/'', ni_name = ''talker'', ni_reader_gids = [], ni_writer_gids = []\<rparr>]\<rparr>)]\<rparr>"

theorem snapshot_nodes_announced_witness:
  "\<exists>s. snapshot announced_graph = Inr s \<and> om_find (gs_nodes s) ''/talker'' = Some (3, ''discovery'')"
proof -
  have "\<not> isl (snapshot announced_graph)" by code_simp
  then obtain s where s: "snapshot announced_graph = Inr s" by (cases "snapshot announced_graph") auto
  let ?ni = "\<lparr>ni_namespace = ''/'', ni_name = ''talker'', ni_reader_gids = [], ni_writer_gids = []\<rparr>"
  have "make_fq_node_name (ni_namespace ?ni) (ni_name ?ni) = Inr ''/talker''" by code_simp
  from snapshot_nodes_announced [OF s _ _ _ this, of "replicate 16 1" "\<lparr>pi_gid = replicate 16 1, pi_nodes = [?ni]\<rparr>"] s
  show ?thesis by (simp add: announced_graph_def demo_graph_def)
qed


section \<open>A malformed sample and the poll thread\<close>

text \<open>The callbacks of the poll thread catch nothing: a valid sample on \<^verbatim>\<open>ros_discovery_info\<close> whose payload
  is shorter than the encapsulation header throws out of the thread function.\<close>

theorem malformed_sample_ends_poll_thread:
  assumes "gw_running w" "ge_wait ge w = ((1, [kDiscoverySlot]), w)"
    and "ge_takecdr ge (gw_discovery_queue w) = (Inr (x # xs), q)" "length (x # xs) \<le> 16"
    and "s_valid x" "length (s_payload x) < 4"
  shows "\<exists>w'. graph_run ge w =
    Some (Inl (InvalidArguments ''CDR buffer too small for encapsulation header''), w')"
proof -
  let ?e = "InvalidArguments ''CDR buffer too small for encapsulation header''"
  let ?st = "\<lparr>t_queue = q, t_unref = 0, t_user = gw_graph w\<rparr>"
  have "discovery_sample (ge_deser_discovery ge) (s_payload x) (gw_graph w) = (Inl ?e, gw_graph w)"
    using assms(6) by (simp add: discovery_sample_def cdr_reader_init_def)
  then have "efor (take_sample (discovery_sample (ge_deser_discovery ge))) ([] @ x # xs) ?st = (Inl ?e, ?st)"
    using take_samples_throw [of "discovery_sample (ge_deser_discovery ge)" "[]" ?st "gw_graph w" x ?e "gw_graph w" xs]
      assms(5) by simp
  then have poll: "poll_discovery (ge_takecdr ge) (ge_deser_discovery ge) (gw_discovery_queue w) (gw_graph w) =
      Some (Inl ?e, ?st)"
    unfolding poll_discovery_def reader_take_def
    by (subst take_loop.simps) (use assms(3,4) in simp)
  have "graph_slot ge kDiscoverySlot w = Some (Inl ?e, w\<lparr>gw_graph := gw_graph w, gw_discovery_queue := q\<rparr>)"
    unfolding graph_slot_def by (simp add: poll kDiscoverySlot_def kStopSlot_def kBiPartSlot_def kBiPubSlot_def kBiSubSlot_def)
  then show ?thesis
    using assms(1,2) by (subst graph_run.simps) simp
qed

definition demo_graph_env :: "sample list graph_env" where
  "demo_graph_env =
     \<lparr>ge_wait = (\<lambda>w. ((1, [kDiscoverySlot]), w)), ge_take_participants = (\<lambda>w. (Inr [], w)),
      ge_take_endpoints = (\<lambda>_ w. (Inr [], w)), ge_takecdr = list_takecdr,
      ge_deser_discovery = (\<lambda>r. Inr (None, r)), ge_deser_log = (\<lambda>r. Inr (None, r))\<rparr>"

theorem malformed_sample_ends_poll_thread_witness:
  "\<exists>w'. graph_run demo_graph_env \<lparr>gw_graph = demo_graph, gw_running = True, gw_stop_guard = False,
      gw_discovery_queue = [\<lparr>s_valid = True, s_payload = [0, 1]\<rparr>], gw_rosout_queue = []\<rparr> =
    Some (Inl (InvalidArguments ''CDR buffer too small for encapsulation header''), w')"
  by (rule malformed_sample_ends_poll_thread [of _ _ "\<lparr>s_valid = True, s_payload = [0, 1]\<rparr>" "[]" "[]"])
    (simp_all add: demo_graph_env_def list_takecdr_def)

end
