(* ===== verification/Graph_Monitor.thy ===== *)
theory Graph_Monitor
  imports Graph
begin

text \<open>
  The life cycle of the graph observer (\<^verbatim>\<open>GraphMonitor\<close> of \<^verbatim>\<open>graph.cpp\<close>): the constructor of \<^verbatim>\<open>Impl\<close>
  with every failing call and the destructors that run then, the waitset slots the poll thread
  switches on, and the shutdown of the thread.  The tables and the poll thread itself are in the
  theory \<open>Graph\<close>.
\<close>

section \<open>Construction and destruction\<close>

text \<open>What CycloneDDS answers; \<open>mc_self_guid\<close> is the value of \<^verbatim>\<open>self_guid\<close> after \<^verbatim>\<open>dds_get_guid\<close>, whose
  return code is not looked at; the type names are generated code.\<close>

record monitor_calls =
  mc_env :: env
  mc_precondition :: int
  mc_participant :: participant_calls
  mc_guard :: dds_entity
  mc_self_guid :: guid
  mc_bi_part :: dds_entity
  mc_bi_pub :: dds_entity
  mc_bi_sub :: dds_entity
  mc_rc_part :: dds_entity
  mc_rc_pub :: dds_entity
  mc_rc_sub :: dds_entity
  mc_discovery_type :: string
  mc_discovery :: reader_calls
  mc_rosout_type :: string
  mc_rosout :: reader_calls
  mc_waitset :: dds_entity
  mc_attach :: "dds_entity \<Rightarrow> nat \<Rightarrow> int"

record monitor =
  gm_ppant :: participant
  gm_discovery_rd :: reader
  gm_rosout_rd :: reader
  gm_stop_guard :: dds_entity
  gm_waitset :: dds_entity
  gm_slots :: "(dds_entity \<times> nat) list"
  gm_graph :: graph

text \<open>Handles returned by a group of calls; a negative one is an error code.\<close>

definition note_all :: "dds_entity list \<Rightarrow> unit dds" where
  "note_all hs = efor note_created hs"

definition monitor_slots :: "monitor_calls \<Rightarrow> dds_entity \<Rightarrow> reader \<Rightarrow> reader \<Rightarrow> (dds_entity \<times> nat) list" where
  "monitor_slots mc g drd rrd =
     [(g, kStopSlot), (mc_rc_part mc, kBiPartSlot), (mc_rc_pub mc, kBiPubSlot), (mc_rc_sub mc, kBiSubSlot),
      (rc_handle drd, kDiscoverySlot), (rc_handle rrd, kRosoutSlot)]"

definition monitor_waitset :: "monitor_calls \<Rightarrow> dds_entity \<Rightarrow> reader \<Rightarrow> reader \<Rightarrow> (dds_entity \<times> nat) list dds" where
  "monitor_waitset mc g drd rrd =
     (let slots = monitor_slots mc g drd rrd in
      ebind (note_created (mc_waitset mc)) (\<lambda>_.
      ebind (require (\<not> (mc_waitset mc < 0 \<or> list_ex (\<lambda>(h, slot). mc_attach mc h slot < 0) slots))
               (InternalError ''failed to set up the graph waitset'')) (\<lambda>_.
      ereturn slots)))"

text \<open>The two readers; the first is released when the second cannot be made.\<close>

definition monitor_readers :: "monitor_calls \<Rightarrow> (reader \<times> reader) dds" where
  "monitor_readers mc =
     ebind (reader_ctor ''ros_discovery_info'' (mc_discovery_type mc)
              (keep_last 1 (set_transient_local qos_init)) (mc_discovery mc)) (\<lambda>drd.
     ebind (ecatch (ebind (elift (ros_to_dds_topic_name ''/rosout'')) (\<lambda>topic.
                    reader_ctor topic (mc_rosout_type mc)
                      (keep_last (of_nat kMaxLogs) (set_transient_local qos_init)) (mc_rosout mc)))
              (\<lambda>e. ebind (reader_dtor drd) (\<lambda>_. ethrow e))) (\<lambda>rrd.
     ereturn (drd, rrd)))"

definition monitor_body :: "monitor_calls \<Rightarrow> participant \<Rightarrow> dds_entity \<Rightarrow> monitor dds" where
  "monitor_body mc pp g =
     ebind (note_all [mc_bi_part mc, mc_bi_pub mc, mc_bi_sub mc]) (\<lambda>_.
     ebind (require (\<not> (mc_bi_part mc < 0 \<or> mc_bi_pub mc < 0 \<or> mc_bi_sub mc < 0))
              (InternalError ''failed to create built-in topic readers'')) (\<lambda>_.
     ebind (note_all [mc_rc_part mc, mc_rc_pub mc, mc_rc_sub mc]) (\<lambda>_.
     ebind (monitor_readers mc) (\<lambda>(drd, rrd).
     ebind (ecatch (monitor_waitset mc g drd rrd)
              (\<lambda>e. ebind (reader_dtor rrd) (\<lambda>_. ebind (reader_dtor drd) (\<lambda>_. ethrow e)))) (\<lambda>slots.
     ereturn \<lparr>gm_ppant = pp, gm_discovery_rd = drd, gm_rosout_rd = rrd, gm_stop_guard = g,
       gm_waitset = mc_waitset mc, gm_slots = slots, gm_graph = graph_init (mc_self_guid mc)\<rparr>)))))"

text \<open>The members \<^verbatim>\<open>ppant\<close> and \<^verbatim>\<open>stop_guard\<close> are constructed before the body runs; when it throws, the
  members are destroyed in reverse order, but \<^verbatim>\<open>~Impl\<close> does not run.\<close>

definition monitor_impl_ctor :: "monitor_calls \<Rightarrow> monitor building" where
  "monitor_impl_ctor mc =
     ebind (on_ctx (context_instance (mc_env mc))) (\<lambda>ctx.
     ebind (on_calls (participant_ctor (mc_precondition mc) (mc_participant mc))) (\<lambda>pp.
     ebind (ecatch (on_calls (guard_ctor (mc_guard mc)))
              (\<lambda>e. ebind (on_calls (participant_dtor pp)) (\<lambda>_. ethrow e))) (\<lambda>g.
     ecatch (on_calls (monitor_body mc pp g))
       (\<lambda>e. ebind (on_calls (guard_dtor g)) (\<lambda>_. ebind (on_calls (participant_dtor pp)) (\<lambda>_. ethrow e))))))"

text \<open>\<^verbatim>\<open>~Impl\<close> after the thread has been joined: the waitset, then the members.\<close>

definition monitor_impl_dtor :: "monitor \<Rightarrow> unit dds" where
  "monitor_impl_dtor m =
     ebind (deleted (gm_waitset m)) (\<lambda>_.
     ebind (guard_dtor (gm_stop_guard m)) (\<lambda>_.
     ebind (reader_dtor (gm_rosout_rd m)) (\<lambda>_.
     ebind (reader_dtor (gm_discovery_rd m)) (\<lambda>_.
     participant_dtor (gm_ppant m)))))"

text \<open>The public constructor: \<open>thread_ok\<close> says whether \<^verbatim>\<open>std::thread\<close> could be started.\<close>

definition graph_monitor_ctor :: "monitor_calls \<Rightarrow> bool \<Rightarrow> monitor building" where
  "graph_monitor_ctor mc thread_ok =
     ebind (monitor_impl_ctor mc) (\<lambda>m.
     if thread_ok then ereturn m
     else ebind (on_calls (monitor_impl_dtor m)) (\<lambda>_. ethrow (OtherException ''std::system_error'')))"


section \<open>Traces of the constructor\<close>

lemma note_all_run: "note_all hs tr = (Inr (), tr @ map Created [h \<leftarrow> hs. 0 \<le> h])"
  unfolding note_all_def
  by (induction hs arbitrary: tr) (auto simp: note_created_def created_def ebind_def)

lemma reader_ctor_cases:
  assumes "reader_ctor t ty q rc tr = (r, tr')"
  shows "(\<exists>e. r = Inl e \<and> \<not> is_ub e \<and>
      (tr' = tr \<or> tr' = tr @ [Created (rdc_topic rc)] \<or> tr' = tr @ [Created (rdc_topic rc), Created (rdc_reader rc)])) \<or>
    (r = Inr \<lparr>rd_handle = rdc_reader rc, rc_handle = rdc_condition rc\<rparr> \<and> 0 \<le> rdc_reader rc \<and> 0 \<le> rdc_condition rc \<and>
     tr' = tr @ [Created (rdc_topic rc), Created (rdc_reader rc), Created (rdc_condition rc)])"
  using assms by (auto simp: reader_ctor_def entity_simps split: if_splits)

lemma set_unreleased: "set (unreleased tr) = {h. Created h \<in> set tr \<and> Deleted h \<notin> set tr}"
  by (auto simp: unreleased_def split: dds_call.splits)

lemma rosout_topic: "ros_to_dds_topic_name ''/rosout'' = Inr ''rt/rosout''"
  by code_simp

definition calls_of :: "reader_calls \<Rightarrow> dds_entity set" where
  "calls_of rc = {rdc_topic rc, rdc_reader rc}"

text \<open>The calls of a constructor step: what it created and deleted, by its outcome.\<close>

definition monitor_trace :: "dds_call list \<Rightarrow> dds_entity set \<Rightarrow> dds_entity set \<Rightarrow> dds_call list \<Rightarrow> bool" where
  "monitor_trace tr kept gone tr' \<longleftrightarrow>
     (\<forall>h. Created h \<in> set tr' \<longrightarrow> Created h \<in> set tr \<or> h \<in> kept \<or> h \<in> gone \<and> Deleted h \<in> set tr') \<and>
     (\<forall>h. Deleted h \<in> set tr' \<longrightarrow> Deleted h \<in> set tr \<or> h \<in> gone) \<and> set tr \<subseteq> set tr'"

lemma monitor_trace_refl: "monitor_trace tr {} {} tr"
  by (simp add: monitor_trace_def)

lemma monitor_trace_create:
  "monitor_trace tr K G tr' \<Longrightarrow> monitor_trace tr (K \<union> set hs) G (tr' @ map Created hs)"
  by (auto simp: monitor_trace_def)

lemma monitor_trace_delete:
  "monitor_trace tr K G tr' \<Longrightarrow> monitor_trace tr (K - set ds) (G \<union> set ds) (tr' @ map Deleted ds)"
  by (auto simp: monitor_trace_def)

lemma monitor_trace_mono:
  "monitor_trace tr K G tr' \<Longrightarrow> K \<subseteq> K' \<Longrightarrow> G \<subseteq> G' \<Longrightarrow> monitor_trace tr K' G' tr'"
  unfolding monitor_trace_def by blast

lemma monitor_trace_trans:
  "monitor_trace tr K G tr' \<Longrightarrow> monitor_trace tr' K' G' tr'' \<Longrightarrow> monitor_trace tr (K \<union> K') (G \<union> G') tr''"
  unfolding monitor_trace_def by (meson UnCI subset_trans subsetD)

lemma monitor_readers_cases:
  assumes "monitor_readers mc tr = (r, tr')"
  defines "d \<equiv> mc_discovery mc" and "l \<equiv> mc_rosout mc"
  shows "(\<exists>e. r = Inl e \<and> \<not> is_ub e \<and>
      monitor_trace tr (calls_of d \<union> calls_of l) {rdc_condition d, rdc_reader d} tr') \<or>
    (r = Inr (\<lparr>rd_handle = rdc_reader d, rc_handle = rdc_condition d\<rparr>, \<lparr>rd_handle = rdc_reader l, rc_handle = rdc_condition l\<rparr>) \<and>
     0 \<le> rdc_reader d \<and> 0 \<le> rdc_condition d \<and> 0 \<le> rdc_reader l \<and> 0 \<le> rdc_condition l \<and>
     tr' = tr @ map Created [rdc_topic d, rdc_reader d, rdc_condition d, rdc_topic l, rdc_reader l, rdc_condition l])"
proof -
  let ?q1 = "keep_last 1 (set_transient_local qos_init)" and ?q2 = "keep_last (of_nat kMaxLogs) (set_transient_local qos_init)"
  obtain r1 tr1 where one: "reader_ctor ''ros_discovery_info'' (mc_discovery_type mc) ?q1 d tr = (r1, tr1)" by fastforce
  obtain r2 tr2 where two: "reader_ctor ''rt/rosout'' (mc_rosout_type mc) ?q2 l tr1 = (r2, tr2)" by fastforce
  show ?thesis
    using assms(1) one two reader_ctor_cases [OF one] reader_ctor_cases [OF two]
    by (auto simp: monitor_readers_def d_def [symmetric] l_def [symmetric] rosout_topic ebind_def ecatch_def
        reader_dtor_def deleted_def monitor_trace_def calls_of_def)
qed

definition monitor_children :: "monitor_calls \<Rightarrow> dds_entity set" where
  "monitor_children mc =
     {mc_bi_part mc, mc_bi_pub mc, mc_bi_sub mc, mc_rc_part mc, mc_rc_pub mc, mc_rc_sub mc} \<union>
     calls_of (mc_discovery mc) \<union> calls_of (mc_rosout mc)"

definition monitor_conditions :: "monitor_calls \<Rightarrow> dds_entity set" where
  "monitor_conditions mc =
     {rdc_condition (mc_discovery mc), rdc_reader (mc_discovery mc), rdc_condition (mc_rosout mc), rdc_reader (mc_rosout mc)}"

text \<open>The outcome of the body: everything it created is a child of the participant, or was given back, or
  is the waitset.\<close>

definition waitset_error :: rcl_error where
  "waitset_error = InternalError ''failed to set up the graph waitset''"

lemma monitor_waitset_cases:
  assumes "monitor_waitset mc g drd rrd tr = (r, tr')"
  shows "(r = Inl waitset_error \<and> tr' = tr @ map Created [h \<leftarrow> [mc_waitset mc]. 0 \<le> h]) \<or>
    (r = Inr (monitor_slots mc g drd rrd) \<and> 0 \<le> mc_waitset mc \<and> tr' = tr @ map Created [mc_waitset mc] \<and>
     list_all (\<lambda>(h, slot). 0 \<le> mc_attach mc h slot) (monitor_slots mc g drd rrd))"
proof -
  have "list_all (\<lambda>(h, slot). 0 \<le> mc_attach mc h slot) xs \<longleftrightarrow> \<not> list_ex (\<lambda>(h, slot). mc_attach mc h slot < 0) xs" for xs
    by (induction xs) auto
  then show ?thesis
    using assms by (auto simp: monitor_waitset_def Let_def note_created_def created_def require_def ebind_def
        waitset_error_def split: if_splits)
qed

lemma monitor_body_cases:
  assumes "monitor_body mc pp g tr = (r, tr')"
  shows "(\<exists>e. r = Inl e \<and> \<not> is_ub e \<and>
      (monitor_trace tr (monitor_children mc) (monitor_conditions mc) tr' \<or>
       e = waitset_error \<and>
       monitor_trace tr (insert (mc_waitset mc) (monitor_children mc)) (monitor_conditions mc) tr')) \<or>
    (\<exists>m. r = Inr m \<and> gm_ppant m = pp \<and> gm_stop_guard m = g \<and> gm_waitset m = mc_waitset mc \<and>
      gm_graph m = graph_init (mc_self_guid mc) \<and>
      gm_slots m = monitor_slots mc g (gm_discovery_rd m) (gm_rosout_rd m) \<and>
      list_all (\<lambda>(h, slot). 0 \<le> mc_attach mc h slot) (gm_slots m) \<and> 0 \<le> mc_waitset mc \<and>
      {rd_handle (gm_discovery_rd m), rc_handle (gm_discovery_rd m), rd_handle (gm_rosout_rd m), rc_handle (gm_rosout_rd m)} =
        monitor_conditions mc \<and> (\<forall>h \<in> monitor_conditions mc. 0 \<le> h) \<and>
      monitor_trace tr (insert (mc_waitset mc) (monitor_children mc \<union> monitor_conditions mc)) {} tr')"
proof -
  let ?bi = "[mc_bi_part mc, mc_bi_pub mc, mc_bi_sub mc]" and ?rc = "[mc_rc_part mc, mc_rc_pub mc, mc_rc_sub mc]"
  let ?tr = "tr @ map Created [h \<leftarrow> ?bi. 0 \<le> h] @ map Created [h \<leftarrow> ?rc. 0 \<le> h]"
  obtain r1 tr1 where rds: "monitor_readers mc ?tr = (r1, tr1)" by fastforce
  show ?thesis
  proof (cases "mc_bi_part mc < 0 \<or> mc_bi_pub mc < 0 \<or> mc_bi_sub mc < 0")
    case True
    then show ?thesis
      using assms by (auto simp: monitor_body_def note_all_run require_def ebind_def monitor_trace_def
          monitor_children_def waitset_error_def)
  next
    case False
    have run: "monitor_body mc pp g tr =
        ebind (\<lambda>_. (r1, tr1)) (\<lambda>(drd, rrd).
          ebind (ecatch (monitor_waitset mc g drd rrd)
              (\<lambda>e. ebind (reader_dtor rrd) (\<lambda>_. ebind (reader_dtor drd) (\<lambda>_. ethrow e)))) (\<lambda>slots.
          ereturn \<lparr>gm_ppant = pp, gm_discovery_rd = drd, gm_rosout_rd = rrd, gm_stop_guard = g,
            gm_waitset = mc_waitset mc, gm_slots = slots, gm_graph = graph_init (mc_self_guid mc)\<rparr>)) tr"
      using rds False by (simp add: monitor_body_def note_all_run require_def ebind_def)
    let ?d = "mc_discovery mc" and ?l = "mc_rosout mc"
    let ?drd = "\<lparr>rd_handle = rdc_reader ?d, rc_handle = rdc_condition ?d\<rparr>"
      and ?rrd = "\<lparr>rd_handle = rdc_reader ?l, rc_handle = rdc_condition ?l\<rparr>"
    have start: "monitor_trace tr (set [h \<leftarrow> ?bi. 0 \<le> h] \<union> set [h \<leftarrow> ?rc. 0 \<le> h]) {} ?tr"
      using monitor_trace_create [OF monitor_trace_create [OF monitor_trace_refl]] by simp
    from monitor_readers_cases [OF rds] show ?thesis
    proof (elim disjE exE conjE)
      fix e
      assume e: "r1 = Inl e" "\<not> is_ub e"
        and t: "monitor_trace ?tr (calls_of ?d \<union> calls_of ?l) {rdc_condition ?d, rdc_reader ?d} tr1"
      have "monitor_trace tr (monitor_children mc) (monitor_conditions mc) tr1"
        by (rule monitor_trace_mono [OF monitor_trace_trans [OF start t]])
          (auto simp: monitor_children_def monitor_conditions_def)
      with e assms show ?thesis unfolding run by (auto simp: ebind_def)
    next
      let ?hs = "[rdc_topic ?d, rdc_reader ?d, rdc_condition ?d, rdc_topic ?l, rdc_reader ?l, rdc_condition ?l]"
      assume r1: "r1 = Inr (?drd, ?rrd)" and tr1: "tr1 = ?tr @ map Created ?hs"
        and pos: "0 \<le> rdc_reader ?d" "0 \<le> rdc_condition ?d" "0 \<le> rdc_reader ?l" "0 \<le> rdc_condition ?l"
      obtain r2 tr2 where ws: "monitor_waitset mc g ?drd ?rrd tr1 = (r2, tr2)" by fastforce
      have made: "monitor_trace tr (set [h \<leftarrow> ?bi. 0 \<le> h] \<union> set [h \<leftarrow> ?rc. 0 \<le> h] \<union> set ?hs \<union> set ws) {}
          (tr1 @ map Created ws)" for ws
        unfolding tr1 by (intro monitor_trace_create start)
      from monitor_waitset_cases [OF ws] show ?thesis
      proof (elim disjE conjE)
        let ?ds = "[rdc_condition ?l, rdc_reader ?l, rdc_condition ?d, rdc_reader ?d]"
        assume r2: "r2 = Inl waitset_error" and tr2: "tr2 = tr1 @ map Created [h \<leftarrow> [mc_waitset mc]. 0 \<le> h]"
        have "monitor_body mc pp g tr = (Inl waitset_error, tr2 @ map Deleted ?ds)"
          using pos unfolding run
          by (simp add: r1 ws r2 ebind_def ecatch_def reader_dtor_def deleted_def waitset_error_def)
        moreover have "monitor_trace tr (insert (mc_waitset mc) (monitor_children mc)) (monitor_conditions mc)
            (tr2 @ map Deleted ?ds)"
          unfolding tr2 by (rule monitor_trace_mono [OF monitor_trace_delete [OF made]])
            (auto simp: monitor_children_def monitor_conditions_def calls_of_def)
        ultimately show ?thesis using assms by (simp add: waitset_error_def)
      next
        assume ok: "r2 = Inr (monitor_slots mc g ?drd ?rrd)" "0 \<le> mc_waitset mc" "tr2 = tr1 @ map Created [mc_waitset mc]"
          "list_all (\<lambda>(h, slot). 0 \<le> mc_attach mc h slot) (monitor_slots mc g ?drd ?rrd)"
        have "monitor_trace tr (insert (mc_waitset mc) (monitor_children mc \<union> monitor_conditions mc)) {} tr2"
          unfolding ok(3) by (rule monitor_trace_mono [OF made])
            (auto simp: monitor_children_def monitor_conditions_def calls_of_def)
        then show ?thesis
          using assms pos ok(1,2,4) unfolding run
          by (auto simp: r1 ws ebind_def ecatch_def monitor_conditions_def)
      qed
    qed
  qed
qed

lemma monitor_impl_dtor_set:
  assumes "{rd_handle (gm_discovery_rd m), rc_handle (gm_discovery_rd m), rd_handle (gm_rosout_rd m),
      rc_handle (gm_rosout_rd m)} = C" "\<forall>h \<in> C. 0 \<le> h" "0 \<le> gm_stop_guard m" "0 \<le> pp_handle (gm_ppant m)"
  shows "set (snd (monitor_impl_dtor m tr)) =
    set tr \<union> Deleted ` ({gm_waitset m, gm_stop_guard m, pp_handle (gm_ppant m)} \<union> C)"
proof -
  have "0 \<le> rd_handle (gm_discovery_rd m)" "0 \<le> rc_handle (gm_discovery_rd m)"
    "0 \<le> rd_handle (gm_rosout_rd m)" "0 \<le> rc_handle (gm_rosout_rd m)"
    using assms(1,2) by auto
  then show ?thesis
    using assms(3,4) unfolding assms(1) [symmetric]
    by (auto simp: monitor_impl_dtor_def ebind_def deleted_def guard_dtor_def reader_dtor_def participant_dtor_def)
qed

lemma monitor_impl_ctor_cases:
  assumes "monitor_impl_ctor mc w = (r, w')" "nw_calls w = []"
    and "pc_publisher (mc_participant mc) \<ge> 0" "pc_subscriber (mc_participant mc) \<ge> 0"
  defines "pc \<equiv> mc_participant mc"
  defines "kids \<equiv> {pc_publisher pc, pc_subscriber pc} \<union> monitor_children mc"
  shows "(\<exists>e. r = Inl e \<and> \<not> is_ub e \<and>
      (set (unreleased (nw_calls w')) \<subseteq> kids \<or>
       e = waitset_error \<and> set (unreleased (nw_calls w')) \<subseteq> insert (mc_waitset mc) kids)) \<or>
    (\<exists>m. r = Inr m \<and> 0 \<le> mc_waitset mc \<and> gm_graph m = graph_init (mc_self_guid mc) \<and>
      gm_slots m = monitor_slots mc (mc_guard mc) (gm_discovery_rd m) (gm_rosout_rd m) \<and>
      list_all (\<lambda>(h, slot). 0 \<le> mc_attach mc h slot) (gm_slots m) \<and>
      set (unreleased (snd (monitor_impl_dtor m (nw_calls w')))) \<subseteq> kids)"
proof -
  let ?pp = "\<lparr>pp_handle = pc_participant pc, pub_handle = pc_publisher pc, sub_handle = pc_subscriber pc\<rparr>"
  let ?t0 = "[Created (pc_participant pc), Created (pc_publisher pc), Created (pc_subscriber pc)]"
  let ?t1 = "?t0 @ [Created (mc_guard mc)]"
  obtain x g1 where x: "context_instance (mc_env mc) (nw_ctx w) = (x, g1)" by fastforce
  obtain rp tp where p: "participant_ctor (mc_precondition mc) pc [] = (rp, tp)" by fastforce
  from participant_ctor_cases [OF p assms(3,4) [folded pc_def]] show ?thesis
  proof (elim disjE exE conjE)
    fix e
    assume "rp = Inl e" "\<not> is_ub e" "tp = []"
    then show ?thesis
      using assms(1,2) x p by (auto simp: monitor_impl_ctor_def ebind_def on_ctx_def on_calls_def pc_def unreleased_def)
  next
    assume rp: "rp = Inr ?pp" and pos: "0 \<le> pc_participant pc" and tp: "tp = [] @ ?t0"
    show ?thesis
    proof (cases "0 \<le> mc_guard mc")
      case False
      then show ?thesis
        using assms(1,2) x p pos
        by (auto simp: monitor_impl_ctor_def ebind_def on_ctx_def on_calls_def pc_def [symmetric] rp tp guard_ctor_def
            entity_simps ecatch_def participant_dtor_def set_unreleased kids_def)
    next
      case True
      obtain rb tb where b: "monitor_body mc ?pp (mc_guard mc) ?t1 = (rb, tb)" by fastforce
      have run: "monitor_impl_ctor mc w =
          ecatch (\<lambda>w. (rb, w\<lparr>nw_calls := tb\<rparr>)) (\<lambda>e. ebind (on_calls (guard_dtor (mc_guard mc)))
            (\<lambda>_. ebind (on_calls (participant_dtor ?pp)) (\<lambda>_. ethrow e))) (w\<lparr>nw_ctx := g1, nw_calls := ?t1\<rparr>)"
        using assms(2) x p True b
        by (simp add: monitor_impl_ctor_def ebind_def on_ctx_def on_calls_def pc_def [symmetric] rp tp guard_ctor_def
            entity_simps ecatch_def)
      have fail: "set (unreleased (nw_calls w')) \<subseteq> {pc_publisher pc, pc_subscriber pc} \<union> K \<and> r = Inl e"
        if "rb = Inl e" "\<not> is_ub e" "monitor_trace ?t1 K G tb" for e K G
        using assms(1) that True pos unfolding run
        by (auto simp: ecatch_def ebind_def on_calls_def guard_dtor_def participant_dtor_def deleted_def
            set_unreleased monitor_trace_def)
      from monitor_body_cases [OF b] show ?thesis
      proof (elim disjE exE conjE)
        fix e
        assume "rb = Inl e" "\<not> is_ub e" "monitor_trace ?t1 (monitor_children mc) (monitor_conditions mc) tb"
        from fail [OF this] this(2) show ?thesis by (auto simp: kids_def)
      next
        fix e
        assume e: "rb = Inl e" "\<not> is_ub e" and w: "e = waitset_error"
          and t: "monitor_trace ?t1 (insert (mc_waitset mc) (monitor_children mc)) (monitor_conditions mc) tb"
        from fail [OF e t] e(2) w show ?thesis by (auto simp: kids_def)
      next
        fix m
        assume m: "rb = Inr m" "gm_ppant m = ?pp" "gm_stop_guard m = mc_guard mc" "gm_waitset m = mc_waitset mc"
            "gm_graph m = graph_init (mc_self_guid mc)"
            "gm_slots m = monitor_slots mc (mc_guard mc) (gm_discovery_rd m) (gm_rosout_rd m)"
            "list_all (\<lambda>(h, slot). 0 \<le> mc_attach mc h slot) (gm_slots m)" "0 \<le> mc_waitset mc"
          and c: "{rd_handle (gm_discovery_rd m), rc_handle (gm_discovery_rd m), rd_handle (gm_rosout_rd m),
              rc_handle (gm_rosout_rd m)} = monitor_conditions mc" "\<forall>h \<in> monitor_conditions mc. 0 \<le> h"
          and t: "monitor_trace ?t1 (insert (mc_waitset mc) (monitor_children mc \<union> monitor_conditions mc)) {} tb"
        have "r = Inr m" "nw_calls w' = tb" using assms(1) m(1) unfolding run by (auto simp: ecatch_def)
        moreover have dtor: "set (snd (monitor_impl_dtor m tb)) = set tb \<union>
            Deleted ` ({mc_waitset mc, mc_guard mc, pc_participant pc} \<union> monitor_conditions mc)"
          using monitor_impl_dtor_set [OF c, of tb] True pos by (simp add: m(2-4))
        moreover have "set (unreleased (snd (monitor_impl_dtor m tb))) \<subseteq> kids"
          using t unfolding set_unreleased dtor kids_def by (auto simp: monitor_trace_def)
        ultimately show ?thesis using m by auto
      qed
    qed
  qed
qed

section \<open>Properties\<close>

text \<open>A graph monitor that cannot be built leaves nothing behind but children of its (deleted)
  participant, except the waitset when attaching to it failed; one that is built waits on its stop guard,
  the three built-in readers, the discovery and the log topic, each under the slot the poll thread
  switches on, and its destructor releases everything else, also when the thread could not be started.\<close>

theorem monitor_ctor_cleans_up:
  assumes "graph_monitor_ctor mc thread_ok w = (r, w')" "nw_calls w = []"
    and "pc_publisher (mc_participant mc) \<ge> 0" "pc_subscriber (mc_participant mc) \<ge> 0"
    and "kids = {pc_publisher (mc_participant mc), pc_subscriber (mc_participant mc)} \<union> monitor_children mc"
  shows "case r of
      Inl e \<Rightarrow> set (unreleased (nw_calls w')) \<subseteq> kids \<or>
        e = waitset_error \<and> set (unreleased (nw_calls w')) \<subseteq> insert (mc_waitset mc) kids
    | Inr m \<Rightarrow> thread_ok \<and> gm_graph m = graph_init (mc_self_guid mc) \<and>
        map snd (gm_slots m) = [1, 2, 3, 4, 5, 6] \<and>
        (\<forall>(h, slot) \<in> set (gm_slots m). 0 \<le> mc_attach mc h slot) \<and>
        map fst (gm_slots m) = [mc_guard mc, mc_rc_part mc, mc_rc_pub mc, mc_rc_sub mc,
          rc_handle (gm_discovery_rd m), rc_handle (gm_rosout_rd m)] \<and>
        set (unreleased (snd (monitor_impl_dtor m (nw_calls w')))) \<subseteq> kids"
proof -
  obtain r1 w1 where run: "monitor_impl_ctor mc w = (r1, w1)" by fastforce
  have ids: "map snd (monitor_slots mc g d l) = [1, 2, 3, 4, 5, 6]"
    "map fst (monitor_slots mc g d l) =
      [g, mc_rc_part mc, mc_rc_pub mc, mc_rc_sub mc, rc_handle d, rc_handle l]" for g d l
    by (simp_all add: monitor_slots_def kStopSlot_def kBiPartSlot_def kBiPubSlot_def kBiSubSlot_def
        kDiscoverySlot_def kRosoutSlot_def)
  from monitor_impl_ctor_cases [OF run assms(2-4)] show ?thesis
  proof (elim disjE exE conjE)
    fix e
    assume "r1 = Inl e" "set (unreleased (nw_calls w1)) \<subseteq>
      {pc_publisher (mc_participant mc), pc_subscriber (mc_participant mc)} \<union> monitor_children mc"
    then show ?thesis using assms(1,5) run by (auto simp: graph_monitor_ctor_def ebind_def)
  next
    fix e
    assume "r1 = Inl e" "e = waitset_error" "set (unreleased (nw_calls w1)) \<subseteq> insert (mc_waitset mc)
      ({pc_publisher (mc_participant mc), pc_subscriber (mc_participant mc)} \<union> monitor_children mc)"
    then show ?thesis using assms(1,5) run by (auto simp: graph_monitor_ctor_def ebind_def)
  next
    fix m
    assume m: "r1 = Inr m" "gm_graph m = graph_init (mc_self_guid mc)"
      "gm_slots m = monitor_slots mc (mc_guard mc) (gm_discovery_rd m) (gm_rosout_rd m)"
      "list_all (\<lambda>(h, slot). 0 \<le> mc_attach mc h slot) (gm_slots m)"
      "set (unreleased (snd (monitor_impl_dtor m (nw_calls w1)))) \<subseteq>
        {pc_publisher (mc_participant mc), pc_subscriber (mc_participant mc)} \<union> monitor_children mc"
    obtain u tr where d: "monitor_impl_dtor m (nw_calls w1) = (u, tr)" by fastforce
    then have "u = Inr ()"
      by (auto simp: monitor_impl_dtor_def ebind_def guard_dtor_def reader_dtor_def participant_dtor_def deleted_def
          split: if_splits)
    with m(1,5) d assms(1,5) run have "\<not> thread_ok \<Longrightarrow> ?thesis"
      by (auto simp: graph_monitor_ctor_def ebind_def on_calls_def)
    moreover have "thread_ok \<Longrightarrow> r = Inr m \<and> w' = w1"
      using m(1) run assms(1) by (auto simp: graph_monitor_ctor_def ebind_def)
    ultimately show ?thesis
      using m(2,4,5) assms(5) ids [of "mc_guard mc" "gm_discovery_rd m" "gm_rosout_rd m", folded m(3)]
      by (cases thread_ok) (auto simp: list_all_iff)
  qed
qed

definition demo_monitor :: monitor_calls where
  "demo_monitor =
     \<lparr>mc_env = (\<lambda>_. None), mc_precondition = - 4,
      mc_participant = \<lparr>pc_domain = 0, pc_qos = True, pc_participant = 1, pc_publisher = 2, pc_subscriber = 3\<rparr>,
      mc_guard = 4, mc_self_guid = replicate 16 9, mc_bi_part = 5, mc_bi_pub = 6, mc_bi_sub = 7,
      mc_rc_part = 8, mc_rc_pub = 9, mc_rc_sub = 10, mc_discovery_type = ''D'',
      mc_discovery = \<lparr>rdc_sertype = True, rdc_qos = True, rdc_topic = 11, rdc_reader = 12, rdc_condition = 13\<rparr>,
      mc_rosout_type = ''L'',
      mc_rosout = \<lparr>rdc_sertype = True, rdc_qos = True, rdc_topic = 14, rdc_reader = 15, rdc_condition = 16\<rparr>,
      mc_waitset = 17, mc_attach = (\<lambda>h slot. if slot = kRosoutSlot then - 1 else 0)\<rparr>"

definition demo_build :: node_world where
  "demo_build = \<lparr>nw_ctx = ctx_globals_init, nw_calls = [], nw_wire = []\<rparr>"

text \<open>The waitset belongs to no participant and \<^verbatim>\<open>~Impl\<close> does not run for a constructor that throws:
  a refused attachment leaks it.\<close>

theorem monitor_waitset_leak:
  "\<exists>w'. graph_monitor_ctor demo_monitor True demo_build = (Inl waitset_error, w') \<and>
     17 \<in> set (unreleased (nw_calls w'))"
  by (auto simp: graph_monitor_ctor_def monitor_impl_ctor_def ebind_def on_ctx_def on_calls_def demo_monitor_def
      demo_build_def context_instance_def ctx_globals_init_def participant_ctor_def guard_ctor_def monitor_body_def note_all_run
      monitor_readers_def reader_ctor_def rosout_topic ecatch_def monitor_waitset_def monitor_slots_def
      kStopSlot_def kBiPartSlot_def kBiPubSlot_def kBiSubSlot_def kDiscoverySlot_def kRosoutSlot_def
      reader_dtor_def guard_dtor_def participant_dtor_def set_unreleased waitset_error_def entity_simps Let_def)

theorem monitor_ctor_cleans_up_witness:
  "\<exists>r w'. graph_monitor_ctor demo_monitor True demo_build = (r, w') \<and>
    (case r of
      Inl e \<Rightarrow> set (unreleased (nw_calls w')) \<subseteq> {2, 3, 5, 6, 7, 8, 9, 10, 11, 12, 14, 15, 17}
    | Inr m \<Rightarrow> map snd (gm_slots m) = [1, 2, 3, 4, 5, 6])"
proof -
  obtain r w' where run: "graph_monitor_ctor demo_monitor True demo_build = (r, w')" by fastforce
  have k: "monitor_children demo_monitor = {5, 6, 7, 8, 9, 10, 11, 12, 14, 15}"
    by (auto simp: monitor_children_def calls_of_def demo_monitor_def)
  show ?thesis
    using monitor_ctor_cleans_up [OF run _ _ _ refl] run
    by (cases r) (auto simp: demo_build_def demo_monitor_def k [unfolded demo_monitor_def])
qed

section \<open>Shutting down\<close>

text \<open>Handling a slot returns and does not touch the stop guard.\<close>

definition slot_quiet :: "'q graph_env \<Rightarrow> nat \<Rightarrow> bool" where
  "slot_quiet ge i \<longleftrightarrow> (\<forall>w. \<exists>w'. graph_slot ge i w = Some (Inr False, w') \<and> gw_stop_guard w' = gw_stop_guard w)"

lemma graph_slots_stop:
  assumes "\<forall>i \<in> set (take n ids). i = kStopSlot \<or> slot_quiet ge i" "n \<le> length ids"
    and "kStopSlot \<in> set (take n ids)" "gw_stop_guard w"
  shows "\<exists>w'. graph_slots ge n ids w = Some (Inr True, w') \<and> \<not> gw_stop_guard w'"
  using assms
proof (induction ge n ids w rule: graph_slots.induct)
  case (3 ge n i ids w)
  show ?case
  proof (cases "i = kStopSlot")
    case True
    with 3(5) show ?thesis by (simp add: graph_slot_def guard_take_def)
  next
    case False
    then have "slot_quiet ge i" using 3(2) by auto
    then obtain w' where w': "graph_slot ge i w = Some (Inr False, w')" "gw_stop_guard w'"
      using 3(5) unfolding slot_quiet_def by metis
    show ?thesis using 3(1) [OF w'(1) _ refl] 3(2-4) w' False by simp
  qed
qed auto


definition stopping_env :: "sample list graph_env" where
  "stopping_env = demo_graph_env\<lparr>ge_wait := (\<lambda>w. ((2, [kBiPartSlot, kStopSlot]), graph_stop w))\<rparr>"


end
