(* ===== verification/Handles.thy ===== *)
theory Handles
  imports Executor Graph_Monitor "HOL-Library.Multiset"
begin

text \<open>
  Accounting for DDS handles: which handles a sequence of DDS calls leaves open, and when the handles a
  component owns are exactly those.  CycloneDDS may reuse the number of a deleted entity, so the trace is
  read in order.  A publisher, subscriber or topic goes away with its participant; \<open>child\<close> tells those
  handles apart, and they are not counted.
\<close>

section \<open>Open handles\<close>

fun open_step :: "dds_call \<Rightarrow> dds_entity set \<Rightarrow> dds_entity set" where
  "open_step (Created h) H = insert h H"
| "open_step (Deleted h) H = H - {h}"

definition open_handles :: "dds_call list \<Rightarrow> dds_entity set" where
  "open_handles tr = fold open_step tr {}"

definition roots :: "(dds_entity \<Rightarrow> bool) \<Rightarrow> dds_call list \<Rightarrow> dds_entity set" where
  "roots child tr = {h \<in> open_handles tr. \<not> child h}"

fun touched :: "dds_call \<Rightarrow> dds_entity" where
  "touched (Created h) = h"
| "touched (Deleted h) = h"

lemma open_handles_Nil [simp]: "open_handles [] = {}"
  by (simp add: open_handles_def)

lemma fold_open_step: "fold open_step tr H = open_handles tr \<union> (H - touched ` set tr)"
proof (induction tr rule: rev_induct)
  case (snoc c tr)
  then show ?case by (cases c) (auto simp: open_handles_def)
qed simp

lemma open_handles_append: "open_handles (tr @ ts) = open_handles ts \<union> (open_handles tr - touched ` set ts)"
  using fold_open_step [of ts "open_handles tr"] by (simp add: open_handles_def)

lemma open_handles_Cons:
  "open_handles (Created h # tr) = open_handles tr \<union> ({h} - touched ` set tr)"
  "open_handles (Deleted h # tr) = open_handles tr"
  using open_handles_append [of "[Created h]" tr] open_handles_append [of "[Deleted h]" tr]
  by (simp_all add: open_handles_def)

lemma open_handles_created: "h \<in> open_handles tr \<Longrightarrow> Created h \<in> set tr"
proof (induction tr rule: rev_induct)
  case (snoc c tr)
  then show ?case by (cases c) (auto simp: open_handles_append open_handles_def)
qed simp

lemma finite_open_handles [simp]: "finite (open_handles tr)"
  by (rule finite_subset [of _ "touched ` set tr"]) (force dest: open_handles_created)+

lemma finite_roots [simp]: "finite (roots child tr)"
  by (simp add: roots_def)

text \<open>The handles \<open>owned\<close> (with multiplicity) are the open ones, each owned once.\<close>

definition balanced :: "(dds_entity \<Rightarrow> bool) \<Rightarrow> dds_entity multiset \<Rightarrow> dds_call list \<Rightarrow> bool" where
  "balanced child owned tr \<longleftrightarrow> owned = mset_set (roots child tr)"

lemma balanced_Nil: "balanced child {#} []"
  by (simp add: balanced_def roots_def)

lemma balanced_roots: "balanced child owned tr \<Longrightarrow> set_mset owned = roots child tr"
  by (simp add: balanced_def)

text \<open>New handles: they are not open, so that nothing already owned is touched.\<close>

lemma balanced_acquire:
  assumes "balanced child owned tr"
    and fresh: "\<And>h. h \<in> touched ` set ts \<Longrightarrow> \<not> child h \<Longrightarrow> h \<notin> open_handles tr"
  shows "balanced child (owned + mset_set (roots child ts)) (tr @ ts)"
proof -
  have "roots child (tr @ ts) = roots child tr \<union> roots child ts"
    using fresh by (auto simp: roots_def open_handles_append)
  moreover have "roots child ts \<inter> roots child tr = {}"
    using fresh open_handles_created [of _ ts] by (force simp: roots_def)
  ultimately show ?thesis
    using assms(1) by (simp add: balanced_def mset_set_Union Int_commute)
qed

text \<open>Giving handles back.\<close>

lemma open_handles_deletes: "open_handles (map Deleted hs) = {}"
  by (induction hs) (simp_all add: open_handles_Cons)

lemma touched_deletes: "touched ` Deleted ` H = H"
  by (force simp: image_image)

lemma balanced_release:
  assumes "balanced child (owned + mset hs) tr"
  shows "balanced child owned (tr @ map Deleted hs)"
proof -
  have eq: "owned + mset hs = mset_set (roots child tr)" using assms by (simp add: balanced_def)
  have once: "count owned h + count (mset hs) h \<le> 1" for h
    using arg_cong [OF eq, of "\<lambda>M. count M h"] by (simp add: count_mset_set')
  have disj: "h \<notin> set hs" if "h \<in># owned" for h
  proof
    assume "h \<in> set hs"
    then have "0 < count (mset hs) h" by simp
    moreover have "0 < count owned h" using that by simp
    ultimately show False using once [of h] by linarith
  qed
  have sets: "set_mset owned \<union> set hs = roots child tr" using arg_cong [OF eq, of set_mset] by simp
  have "roots child (tr @ map Deleted hs) = roots child tr - set hs"
    by (auto simp: roots_def open_handles_append open_handles_deletes touched_deletes)
  then have "roots child (tr @ map Deleted hs) = set_mset owned" using sets disj by blast
  moreover have "owned = mset_set (set_mset owned)"
  proof (rule multiset_eqI)
    fix h
    have "count owned h \<le> 1" using once [of h] by simp
    then show "count owned h = count (mset_set (set_mset owned)) h"
      by (cases "h \<in># owned") (auto simp: count_mset_set' not_in_iff dest: le_antisym)
  qed
  ultimately show ?thesis by (simp add: balanced_def)
qed


section \<open>Destructors\<close>

text \<open>A destructor that deletes the handles \<open>hs\<close>, in this order.\<close>

definition deletes :: "unit dds \<Rightarrow> dds_entity list \<Rightarrow> bool" where
  "deletes f hs \<longleftrightarrow> (\<forall>tr. f tr = (Inr (), tr @ map Deleted hs))"

named_theorems deletes_intros \<open>the handles a destructor deletes\<close>

lemma deletes_return [deletes_intros]: "deletes (ereturn ()) []"
  by (simp add: deletes_def)

lemma deletes_bind [deletes_intros]:
  "deletes f hs \<Longrightarrow> deletes g hs' \<Longrightarrow> deletes (ebind f (\<lambda>_. g)) (hs @ hs')"
  by (simp add: deletes_def ebind_def)

lemma deletes_efor:
  assumes "\<And>x. x \<in> set xs \<Longrightarrow> deletes (f x) (hs x)"
  shows "deletes (efor f xs) (concat (map hs xs))"
  using assms by (induction xs) (auto intro!: deletes_intros)

lemma deletes_if [deletes_intros]:
  "deletes (if 0 \<le> h then deleted h else ereturn ()) [x \<leftarrow> [h]. 0 \<le> x]"
  by (simp add: deletes_def deleted_def)

lemma deletes_guard [deletes_intros]: "deletes (guard_dtor h) [x \<leftarrow> [h]. 0 \<le> x]"
  unfolding guard_dtor_def by (rule deletes_if)

lemma deletes_writer [deletes_intros]: "deletes (writer_dtor w) [x \<leftarrow> [wr_handle w]. 0 \<le> x]"
  unfolding writer_dtor_def by (rule deletes_if)

lemma deletes_participant [deletes_intros]: "deletes (participant_dtor p) [x \<leftarrow> [pp_handle p]. 0 \<le> x]"
  unfolding participant_dtor_def by (rule deletes_if)

lemma deletes_reader [deletes_intros]: "deletes (reader_dtor r) [x \<leftarrow> [rc_handle r, rd_handle r]. 0 \<le> x]"
  by (simp add: reader_dtor_def deletes_def deleted_def ebind_def)

lemma deletesD: "deletes f hs \<Longrightarrow> snd (f tr) = tr @ map Deleted hs"
  by (simp add: deletes_def)


section \<open>What an object owns\<close>

definition exec_handles :: "'e executor \<Rightarrow> dds_entity multiset" where
  "exec_handles x = mset [h \<leftarrow> [ex_waitset_handle x, ex_wake_handle x, ex_cancel_handle x]. 0 \<le> h]"

definition node_own_handles :: "'e node \<Rightarrow> dds_entity multiset" where
  "node_own_handles n =
     mset [h \<leftarrow> [wr_handle (p_writer (n_discovery n)), n_guard_handle n, pp_handle (n_participant n)]. 0 \<le> h]"

definition writer_own_handles :: "writer \<Rightarrow> dds_entity multiset" where
  "writer_own_handles w = mset [h \<leftarrow> [wr_handle w]. 0 \<le> h]"

definition reader_own_handles :: "reader \<Rightarrow> dds_entity multiset" where
  "reader_own_handles r = mset [h \<leftarrow> [rc_handle r, rd_handle r]. 0 \<le> h]"

lemma node_dtor_deletes: "\<exists>hs. deletes (node_dtor n) hs \<and> mset hs = node_own_handles n"
  unfolding node_dtor_def
  by (intro exI conjI, (rule deletes_intros)+) (simp add: node_own_handles_def)

lemma om_erase_absent: "om_find m k = None \<Longrightarrow> om_erase k m = m"
  unfolding om_erase_def by (intro filter_True) (force simp: om_find_eq_None_iff om_keys_def)


section \<open>What reconciliation keeps\<close>

lemma set_om_upd_subset: "set (om_upd k v m) \<subseteq> insert (k, v) (set m)"
  by (induction k v m rule: om_upd.induct) auto

lemma attached_after_attach:
  "snd ` set (ex_attached (fold (attach_one at cur) ds x)) \<subseteq> snd ` set (ex_attached x) \<union> snd ` set ds"
proof (induction ds arbitrary: x)
  case (Cons d ds)
  obtain c a where d: "d = (c, a)" by fastforce
  have "snd ` set (ex_attached (attach_one at cur d x)) \<subseteq> insert (snd d) (snd ` set (ex_attached x))"
    using image_mono [OF set_om_upd_subset [of "Suc (ex_next_id x)" a "ex_attached x"], of snd]
    by (auto simp: attach_one_def Let_def d)
  with Cons.IH [of "attach_one at cur d x"] show ?case by auto
qed simp

lemma desired_entities:
  assumes "(c, a) \<in> set (desired_of cond nd ps)" "a_entity a = Some x"
  shows "\<exists>p \<in> set ps. x \<in> set (entities (nd p))"
proof -
  note upd = set_om_upd_subset
  have es: "(c, a) \<in> set (fold (\<lambda>e m. om_upd (cond e) \<lparr>a_cond = cond e, a_node = p, a_entity = Some e\<rparr> m) es m) \<Longrightarrow>
      a_entity a = Some x \<Longrightarrow> (c, a) \<in> set m \<or> x \<in> set es" for es p m
  proof (induction es arbitrary: m)
    case (Cons e es)
    from Cons.IH [OF Cons.prems(1) [simplified] Cons.prems(2)] upd Cons.prems(2) show ?case by fastforce
  qed simp
  have "(c, a) \<in> set (fold (desired_of_node cond nd) ps m) \<Longrightarrow>
      (c, a) \<in> set m \<or> (\<exists>p \<in> set ps. x \<in> set (entities (nd p)))" for m
  proof (induction ps arbitrary: m)
    case (Cons p ps)
    from Cons.IH [OF Cons.prems [simplified]] show ?case
    proof
      assume "(c, a) \<in> set (desired_of_node cond nd p m)"
      from es [OF this [unfolded desired_of_node_def] assms(2)] upd assms(2) show ?case by fastforce
    qed auto
  qed simp
  from this [of "[]"] assms(1) show ?thesis by (simp add: desired_of_def)
qed

lemma reconcile_handles:
  "exec_handles (reconcile_locked xe nd x) = exec_handles x"
proof -
  have one: "exec_handles (attach_one at cur d y) = exec_handles y" for at cur d and y :: "'a executor"
    by (cases d) (simp add: attach_one_def Let_def exec_handles_def)
  have "exec_handles (fold (attach_one at cur) ds y) = exec_handles y" for at cur ds and y :: "'a executor"
    by (induction ds arbitrary: y) (simp_all add: one)
  then show ?thesis
    by (simp add: reconcile_locked_def Let_def detach_stale_def record_epochs_def) (simp add: exec_handles_def)
qed

lemma reconcile_attached_entities:
  assumes "a \<in> snd ` set (ex_attached (reconcile_locked xe nd x))" "a_entity a = Some e"
  shows "a \<in> snd ` set (ex_attached x) \<or> (\<exists>p \<in> set (ex_nodes x). e \<in> set (entities (nd p)))"
proof -
  let ?d = "desired_of (xe_cond_of xe) nd (ex_nodes x)"
  have "a \<in> snd ` set (ex_attached (detach_stale ?d (record_epochs nd x))) \<or> a \<in> snd ` set ?d"
    using assms(1) attached_after_attach unfolding reconcile_locked_def Let_def by blast
  moreover have "set (ex_attached (detach_stale ?d (record_epochs nd x))) \<subseteq> set (ex_attached x)"
    by (auto simp: detach_stale_def Let_def)
  moreover have "\<exists>p \<in> set (ex_nodes x). e \<in> set (entities (nd p))" if "a \<in> snd ` set ?d"
    using that desired_entities [OF _ assms(2)] by auto
  ultimately show ?thesis by blast
qed


section \<open>Constructors\<close>

text \<open>What is relied on of a handle that CycloneDDS returns: it is not open, it differs from the others the
  same constructor got, and it is told apart from the children of a participant.  A negative number is
  an error code and is not counted.\<close>

definition dds_returns :: "(dds_entity \<Rightarrow> bool) \<Rightarrow> dds_call list \<Rightarrow> dds_entity list \<Rightarrow> dds_entity list \<Rightarrow> bool" where
  "dds_returns child tr new kids \<longleftrightarrow>
     (\<forall>h \<in> set kids. child h) \<and> distinct [h \<leftarrow> new. 0 \<le> h] \<and>
     (\<forall>h \<in> set new. if 0 \<le> h then \<not> child h \<and> h \<notin> open_handles tr else child h)"

lemma acquire_roots:
  assumes "balanced child M tr" "dds_returns child tr new kids" "touched ` set ts \<subseteq> set new \<union> set kids"
    and "mset_set (roots child ts) = N"
  shows "balanced child (M + N) (tr @ ts)"
  unfolding assms(4) [symmetric]
  by (rule balanced_acquire [OF assms(1)]) (use assms(2,3) in \<open>force simp: dds_returns_def split: if_splits\<close>)

lemma acquire_nothing:
  assumes "balanced child M tr" "dds_returns child tr new kids" "touched ` set ts \<subseteq> set new \<union> set kids"
    and "roots child ts = {}"
  shows "balanced child M (tr @ ts)"
  using acquire_roots [OF assms(1-3), of "{#}"] assms(4) by simp

lemmas roots_simps = roots_def open_handles_Cons dds_returns_def

lemma node_ctor_balanced:
  assumes M: "balanced child M (nw_calls w)"
    and new: "dds_returns child (nw_calls w) [ne_guard ne, pc_participant (ne_participant ne), wc_writer (ne_writer ne)]
      [pc_publisher (ne_participant ne), pc_subscriber (ne_participant ne), wc_topic (ne_writer ne)]"
    and pos: "pc_publisher (ne_participant ne) \<ge> 0" "pc_subscriber (ne_participant ne) \<ge> 0"
    and run: "node_ctor ne name namespace w = (r, w')"
  shows "case r of
      Inl e \<Rightarrow> balanced child M (nw_calls w')
    | Inr n \<Rightarrow> entities n = [] \<and> balanced child (M + node_own_handles n) (nw_calls w')"
  using node_ctor_cases [OF run pos refl refl refl]
proof (elim disjE exE conjE)
  fix e tr
  assume r: "r = Inl e" and w': "nw_calls w' = nw_calls w @ tr"
    and tr: "tr \<in> {[], [Created (ne_guard ne), Deleted (ne_guard ne)]} \<union>
        (\<lambda>tr. [Created (ne_guard ne), Created (pc_participant (ne_participant ne)),
             Created (pc_publisher (ne_participant ne)), Created (pc_subscriber (ne_participant ne))] @ tr @
           [Deleted (ne_guard ne), Deleted (pc_participant (ne_participant ne))]) `
        {[], [Created (wc_topic (ne_writer ne))], [Created (wc_topic (ne_writer ne)),
          Created (wc_writer (ne_writer ne)), Deleted (wc_writer (ne_writer ne))]}"
  have "balanced child M (nw_calls w @ tr)"
    by (rule acquire_nothing [OF M new]) (use tr new in \<open>auto simp: roots_simps\<close>)
  then show ?thesis by (simp add: r w')
next
  fix n b
  assume r: "r = Inr n" and n: "n_entities n = []" "n_guard_handle n = ne_guard ne"
      "pp_handle (n_participant n) = pc_participant (ne_participant ne)"
      "wr_handle (p_writer (n_discovery n)) = wc_writer (ne_writer ne)"
    and pos: "0 \<le> ne_guard ne" "0 \<le> pc_participant (ne_participant ne)" "0 \<le> wc_writer (ne_writer ne)"
    and w': "nw_calls w' = nw_calls w @ [Created (ne_guard ne), Created (pc_participant (ne_participant ne)),
        Created (pc_publisher (ne_participant ne)), Created (pc_subscriber (ne_participant ne)),
        Created (wc_topic (ne_writer ne)), Created (wc_writer (ne_writer ne))]" (is "_ = _ @ ?ts")
  have "roots child ?ts = {ne_guard ne, pc_participant (ne_participant ne), wc_writer (ne_writer ne)}"
    using new pos by (auto simp: roots_simps)
  then have "mset_set (roots child ?ts) = node_own_handles n"
    using new pos by (simp add: node_own_handles_def n dds_returns_def)
  then have "balanced child (M + node_own_handles n) (nw_calls w @ ?ts)"
    by (intro acquire_roots [OF M new]) auto
  then show ?thesis by (simp add: r w' n entities_def)
qed

lemma executor_balanced:
  assumes M: "balanced child M tr"
    and new: "dds_returns child tr [xc_cancel xc, xc_wake xc, xc_waitset xc] []"
    and pos: "0 \<le> xc_attach_cancel xc" "0 \<le> xc_attach_wake xc"
    and run: "executor_ctor (xc_cancel xc) (xc_wake xc) (xc_waitset xc) (xc_attach_cancel xc) (xc_attach_wake xc) tr = (r, tr')"
  shows "case r of
      Inl e \<Rightarrow> \<not> is_ub e \<and> balanced child M tr'
    | Inr x \<Rightarrow> ex_nodes x = [] \<and> ex_attached x = [] \<and> balanced child (M + exec_handles x) tr'"
proof (cases "0 \<le> xc_cancel xc \<and> 0 \<le> xc_wake xc \<and> 0 \<le> xc_waitset xc")
  case True
  let ?ts = "[Created (xc_cancel xc), Created (xc_wake xc), Created (xc_waitset xc)]"
  have "\<exists>x. (r, tr') = (Inr x, tr @ ?ts) \<and> ex_nodes x = [] \<and> ex_attached x = [] \<and>
      ex_cancel_handle x = xc_cancel xc \<and> ex_wake_handle x = xc_wake xc \<and> ex_waitset_handle x = xc_waitset xc"
    using True pos by (simp add: run [symmetric] executor_ctor_def guard_ctor_def ecatch_def entity_simps)
  then obtain x where x: "r = Inr x" "tr' = tr @ ?ts" "ex_nodes x = []" "ex_attached x = []" "ex_cancel_handle x = xc_cancel xc"
      "ex_wake_handle x = xc_wake xc" "ex_waitset_handle x = xc_waitset xc" by blast
  have "roots child ?ts = {xc_cancel xc, xc_wake xc, xc_waitset xc}"
    using new True by (auto simp: roots_simps)
  then have "mset_set (roots child ?ts) = exec_handles x"
    using new True by (simp add: exec_handles_def x dds_returns_def)
  then have "balanced child (M + exec_handles x) (tr @ ?ts)"
    by (intro acquire_roots [OF M new]) auto
  then show ?thesis by (simp add: x)
next
  case False
  let ?T = "{[], [Created (xc_cancel xc), Deleted (xc_cancel xc)],
      [Created (xc_cancel xc), Created (xc_wake xc), Deleted (xc_wake xc), Deleted (xc_cancel xc)]}"
  note ctor = run [symmetric] executor_ctor_def guard_ctor_def guard_dtor_def ecatch_def entity_simps
  from False consider "xc_cancel xc < 0" | "0 \<le> xc_cancel xc" "xc_wake xc < 0"
    | "0 \<le> xc_cancel xc" "0 \<le> xc_wake xc" "xc_waitset xc < 0" by linarith
  then have "\<exists>e ts. (r, tr') = (Inl e, tr @ ts) \<and> \<not> is_ub e \<and> ts \<in> ?T" by cases (simp_all add: ctor)
  then obtain e ts where e: "r = Inl e" "tr' = tr @ ts" "\<not> is_ub e" and ts: "ts \<in> ?T" by blast
  have "balanced child M (tr @ ts)"
    by (rule acquire_nothing [OF M new]) (use ts in \<open>auto simp: roots_simps\<close>)
  then show ?thesis by (simp add: e)
qed

lemma writer_balanced:
  assumes M: "balanced child M tr" and new: "dds_returns child tr [wc_writer wc] [wc_topic wc]"
    and run: "writer_ctor t ty q wc tr = (r, tr')"
  shows "case r of Inl e \<Rightarrow> balanced child M tr' | Inr w \<Rightarrow> balanced child (M + writer_own_handles w) tr'"
  using writer_ctor_cases [OF run]
proof (elim disjE exE conjE)
  assume w: "r = Inr \<lparr>wr_handle = wc_writer wc\<rparr>" "0 \<le> wc_writer wc"
    and tr': "tr' = tr @ [Created (wc_topic wc), Created (wc_writer wc)]" (is "_ = _ @ ?ts")
  have "roots child ?ts = {wc_writer wc}" using new w(2) by (auto simp: roots_simps)
  then have "balanced child (M + writer_own_handles \<lparr>wr_handle = wc_writer wc\<rparr>) (tr @ ?ts)"
    by (intro acquire_roots [OF M new]) (use w(2) in \<open>auto simp: writer_own_handles_def\<close>)
  then show ?thesis by (simp add: w(1) tr')
next
  fix e
  assume "r = Inl e" "tr' = tr @ [Created (wc_topic wc)]"
  then show ?thesis using acquire_nothing [OF M new, of "[Created (wc_topic wc)]"] new by (auto simp: roots_simps)
qed (use M in auto)

lemma reader_balanced:
  assumes M: "balanced child M tr"
    and new: "dds_returns child tr [rdc_reader rc, rdc_condition rc] [rdc_topic rc]"
    and pos: "0 \<le> rdc_condition rc"
    and run: "reader_ctor t ty q rc tr = (r, tr')"
  shows "case r of
      Inl e \<Rightarrow> balanced child M tr'
    | Inr x \<Rightarrow> x = \<lparr>rd_handle = rdc_reader rc, rc_handle = rdc_condition rc\<rparr> \<and> rdc_reader rc \<notin> open_handles tr \<and>
        0 \<le> rdc_reader rc \<and> \<not> child (rdc_reader rc) \<and> balanced child (M + reader_own_handles x) tr'"
proof (cases "\<exists>x. r = Inr x")
  case True
  let ?ts = "[Created (rdc_topic rc), Created (rdc_reader rc), Created (rdc_condition rc)]"
  from True have w: "r = Inr \<lparr>rd_handle = rdc_reader rc, rc_handle = rdc_condition rc\<rparr>" "0 \<le> rdc_reader rc" "tr' = tr @ ?ts"
    using reader_ctor_cases [OF run] by auto
  have "roots child ?ts = {rdc_reader rc, rdc_condition rc}" using new w(2) pos by (auto simp: roots_simps)
  then have "balanced child (M + reader_own_handles \<lparr>rd_handle = rdc_reader rc, rc_handle = rdc_condition rc\<rparr>) (tr @ ?ts)"
    by (intro acquire_roots [OF M new]) (use w(2) new pos in \<open>auto simp: dds_returns_def reader_own_handles_def\<close>)
  then show ?thesis using new w(2) by (simp add: w(1,3) dds_returns_def)
next
  case False
  then obtain e where e: "r = Inl e" by (cases r) auto
  then obtain ts where ts: "tr' = tr @ ts" "ts \<in> {[], [Created (rdc_topic rc)]}"
    using run pos by (auto simp: reader_ctor_def entity_simps split: if_splits)
  have "balanced child M (tr @ ts)" by (rule acquire_nothing [OF M new]) (use ts(2) new in \<open>auto simp: roots_simps\<close>)
  then show ?thesis by (simp add: e ts(1))
qed


section \<open>A service that never reuses a number\<close>

text \<open>For the examples: a CycloneDDS that returns numbers it has never returned before.  The numbers of roots end
  in two digits below 50, those of children in larger ones.\<close>

definition demo_child :: "dds_entity \<Rightarrow> bool" where
  "demo_child h \<longleftrightarrow> h < 0 \<or> 50 \<le> h mod 100"

definition demo_base :: "dds_call list \<Rightarrow> dds_entity" where
  "demo_base tr = 100 * (1 + (\<Sum>c \<leftarrow> tr. \<bar>touched c\<bar>))"

lemma demo_base_new:
  assumes "0 \<le> i" "i < 100"
  shows "demo_base tr + i \<notin> open_handles tr" "0 \<le> demo_base tr + i" "demo_child (demo_base tr + i) \<longleftrightarrow> 50 \<le> i"
proof -
  have sum: "0 \<le> (\<Sum>c \<leftarrow> tr. \<bar>touched c\<bar>)" by (intro sum_list_nonneg) auto
  have "\<bar>touched c\<bar> \<le> (\<Sum>c \<leftarrow> tr. \<bar>touched c\<bar>)" if "c \<in> set tr" for c
    using that by (intro member_le_sum_list) (auto simp: image_iff)
  then have "\<bar>h\<bar> \<le> (\<Sum>c \<leftarrow> tr. \<bar>touched c\<bar>)" if "h \<in> open_handles tr" for h
    using open_handles_created [OF that] by force
  then show "demo_base tr + i \<notin> open_handles tr"
    using assms sum unfolding demo_base_def by fastforce
  show pos: "0 \<le> demo_base tr + i" using assms sum by (simp add: demo_base_def)
  have "(demo_base tr + i) mod 100 = i" unfolding demo_base_def mod_mult_self4 using assms by simp
  then show "demo_child (demo_base tr + i) \<longleftrightarrow> 50 \<le> i" using pos by (simp add: demo_child_def)
qed

lemma demo_returns:
  assumes "distinct is" "set is \<subseteq> {0..<50}" "set js \<subseteq> {50..<100}"
  shows "dds_returns demo_child tr (map (\<lambda>i. demo_base tr + i) is) (map (\<lambda>i. demo_base tr + i) js)"
proof -
  have "demo_base tr + i \<notin> open_handles tr \<and> 0 \<le> demo_base tr + i \<and> \<not> demo_child (demo_base tr + i)" if "i \<in> set is" for i
    using that assms(2) demo_base_new [of i tr] by auto
  moreover have "demo_child (demo_base tr + j)" if "j \<in> set js" for j
    using that assms(3) demo_base_new(3) [of j tr] by auto
  moreover have "distinct (map (\<lambda>i. demo_base tr + i) is)" using assms(1) by (simp add: distinct_map inj_on_def)
  ultimately show ?thesis by (auto simp: dds_returns_def intro: distinct_filter)
qed

end
