(* ===== verification/Ffi_Lifetime.thy ===== *)
theory Ffi_Lifetime
  imports Ffi Handles
begin

text \<open>
  The DDS handles of the Python bindings (\<^verbatim>\<open>src/ffi/rcllite_ffi.cpp\<close>): what an entry of the registry owns,
  and that whatever calls a program makes the open handles are those of the entries, each owned once.
\<close>

section \<open>What an entry owns\<close>

fun sub_handles :: "ffi_entity \<Rightarrow> dds_entity multiset" where
  "sub_handles (FfiSub a r) = reader_own_handles r"

definition pub_handles :: "(int, pub_entry) omap \<Rightarrow> dds_entity multiset" where
  "pub_handles m = (\<Sum>(h, p) \<in># mset m. writer_own_handles (fp_writer p))"

definition entry_owned :: "ffi_node \<Rightarrow> dds_entity multiset" where
  "entry_owned e =
     exec_handles (xw_exec (fe_exec e)) + node_own_handles (fe_node e) + pub_handles (fe_pubs e) +
     (\<Sum>x \<in> set (entry_entities e). sub_handles x)"

definition registry_owned :: "(int, ffi_node) omap \<Rightarrow> dds_entity multiset" where
  "registry_owned m = (\<Sum>(h, e) \<in># mset m. entry_owned e)"

definition owned :: "'cb ffi \<Rightarrow> dds_entity multiset" where
  "owned s = registry_owned (f_registry s) + (\<Sum>e \<in># mset (f_released s). entry_owned e)"

lemma mset_om_upd: "om_ok m \<Longrightarrow> mset (om_upd k v m) = add_mset (k, v) (mset (om_erase k m))"
proof (induction k v m rule: om_upd.induct)
  case (2 k v a b m)
  have "om_erase k m = m" if "k \<le> a"
    unfolding om_erase_def using 2(2) that by (intro filter_True) (auto simp: om_keys_def)
  with 2 show ?case by (auto simp: om_erase_def simp flip: mset_filter)
qed (simp add: om_erase_def)

lemma mset_om_find:
  assumes "om_ok m" "om_find m k = Some v"
  shows "mset m = add_mset (k, v) (mset (om_erase k m))"
  using mset_om_upd [OF assms(1), of k v] by (simp add: om_upd_same assms)

lemma registry_owned_simps:
  "om_ok m \<Longrightarrow> registry_owned (om_upd k e m) = entry_owned e + registry_owned (om_erase k m)"
  "om_ok m \<Longrightarrow> om_find m k = Some e \<Longrightarrow> registry_owned m = entry_owned e + registry_owned (om_erase k m)"
  by (simp_all add: registry_owned_def mset_om_upd mset_om_find)

lemma pub_handles_simps:
  "om_ok m \<Longrightarrow> pub_handles (om_upd k p m) = writer_own_handles (fp_writer p) + pub_handles (om_erase k m)"
  "om_ok m \<Longrightarrow> om_find m k = Some p \<Longrightarrow> pub_handles m = writer_own_handles (fp_writer p) + pub_handles (om_erase k m)"
  by (simp_all add: pub_handles_def mset_om_upd mset_om_find)



section \<open>What the destructors give back\<close>

lemma drop_subs_deletes:
  "\<exists>hs. deletes (drop_subs xs ys) hs \<and> mset hs = (\<Sum>x \<in> set xs - set ys. sub_handles x)"
proof -
  let ?f = "\<lambda>x. case x of FfiSub a r \<Rightarrow> [h \<leftarrow> [rc_handle r, rd_handle r]. 0 \<le> h]"
  let ?zs = "[x \<leftarrow> remdups xs. x \<notin> set ys]"
  have f: "mset (?f x) = sub_handles x" for x by (cases x) (simp add: reader_own_handles_def)
  have "deletes (efor sub_dtor ?zs) (concat (map ?f ?zs))"
  proof (rule deletes_efor)
    fix x
    show "deletes (sub_dtor x) (?f x)" unfolding sub_dtor_def by (cases x) (auto intro!: deletes_intros simp del: filter.simps)
  qed
  moreover have "mset (concat (map ?f zs)) = (\<Sum>x \<leftarrow> zs. sub_handles x)" for zs
    by (induction zs) (simp_all add: f del: filter.simps)
  moreover have "(\<Sum>x \<leftarrow> ?zs. sub_handles x) = (\<Sum>x \<in> set xs - set ys. sub_handles x)"
    by (subst sum_list_distinct_conv_sum_set) (auto intro: sum.cong)
  ultimately have "deletes (drop_subs xs ys) (concat (map ?f ?zs)) \<and>
      mset (concat (map ?f ?zs)) = (\<Sum>x \<in> set xs - set ys. sub_handles x)"
    unfolding drop_subs_def by (simp only:)
  then show ?thesis by (rule exI)
qed

lemma pubs_deletes:
  "\<exists>hs. deletes (efor (\<lambda>(h, p). writer_dtor (fp_writer p)) m) hs \<and> mset hs = pub_handles m"
proof -
  let ?f = "\<lambda>(k, p). [h \<leftarrow> [wr_handle (fp_writer p)]. 0 \<le> h]"
  have "deletes (efor (\<lambda>(h, p). writer_dtor (fp_writer p)) m) (concat (map ?f m))"
    by (rule deletes_efor) (auto intro!: deletes_intros simp del: filter.simps)
  moreover have "mset (concat (map ?f m)) = pub_handles m"
    by (induction m) (auto simp: pub_handles_def writer_own_handles_def)
  ultimately show ?thesis by blast
qed

lemma entry_entities_split: "set (entities (fe_node e)) \<subseteq> set (entry_entities e)"
  by (simp add: entry_entities_def)

lemma sum_held_split:
  assumes "set ys \<subseteq> set xs"
  shows "(\<Sum>x \<in> set xs. sub_handles x) = (\<Sum>x \<in> set xs - set ys. sub_handles x) + (\<Sum>x \<in> set ys. sub_handles x)"
  using sum.subset_diff [OF assms, of sub_handles] by simp

text \<open>Destroying an entry gives back exactly what it owns.\<close>

lemma release_entry_deletes: "\<exists>hs. deletes (release_entry e) hs \<and> mset hs = entry_owned e"
proof -
  let ?x = "xw_exec (fe_exec e)" and ?n = "fe_node e"
  obtain ps where ps: "deletes (efor (\<lambda>(h, p). writer_dtor (fp_writer p)) (fe_pubs e)) ps" "mset ps = pub_handles (fe_pubs e)"
    using pubs_deletes by blast
  obtain us where us: "deletes (drop_subs (entry_entities e) (entities ?n)) us"
      "mset us = (\<Sum>x \<in> set (entry_entities e) - set (entities ?n). sub_handles x)"
    using drop_subs_deletes by blast
  obtain vs where vs: "deletes (drop_subs (entities ?n) []) vs" "mset vs = (\<Sum>x \<in> set (entities ?n). sub_handles x)"
    using drop_subs_deletes [of "entities ?n" "[]"] by auto
  let ?hs = "ps @ ([h \<leftarrow> [ex_waitset_handle ?x]. 0 \<le> h] @ us @ [h \<leftarrow> [ex_wake_handle ?x]. 0 \<le> h] @
      [h \<leftarrow> [ex_cancel_handle ?x]. 0 \<le> h]) @ [h \<leftarrow> [wr_handle (p_writer (n_discovery ?n))]. 0 \<le> h] @
      [h \<leftarrow> [n_guard_handle ?n]. 0 \<le> h] @ vs @ [h \<leftarrow> [pp_handle (n_participant ?n)]. 0 \<le> h]"
  have "deletes (release_entry e) ?hs"
    unfolding release_entry_def executor_dtor_def by (intro deletes_bind deletes_intros ps(1) us(1) vs(1))
  moreover have "mset ?hs = entry_owned e"
    by (simp add: entry_owned_def exec_handles_def node_own_handles_def ps(2) us(2) vs(2)
        sum_held_split [OF entry_entities_split, of e])
  ultimately show ?thesis by blast
qed

lemma balanced_calls:
  assumes "balanced child (M + mset hs) (f_calls s)" "deletes d hs"
  shows "balanced child M (f_calls (ffi_calls d s))"
  using balanced_release [OF assms(1)] deletesD [OF assms(2)] by (simp add: f_calls_def)


section \<open>What spinning keeps\<close>

definition held :: "ffi_entity exec_world \<Rightarrow> ffi_entity set" where
  "held w = set (entities (xw_nodes w 0)) \<union>
     {x. \<exists>a \<in> snd ` set (ex_attached (xw_exec w)). a_entity a = Some x}"

lemma entry_entities_held: "set (entry_entities e) = held (fe_exec e)"
  by (force simp: entry_entities_def held_def fe_node_def map_filter_def)

definition same_handles :: "'e exec_world \<Rightarrow> 'e exec_world \<Rightarrow> bool" where
  "same_handles w w' \<longleftrightarrow>
     exec_handles (xw_exec w') = exec_handles (xw_exec w) \<and>
     node_own_handles (xw_nodes w' 0) = node_own_handles (xw_nodes w 0)"

definition own_node_only :: "'e exec_world \<Rightarrow> bool" where
  "own_node_only w \<longleftrightarrow> set (ex_nodes (xw_exec w)) \<subseteq> {0}"

text \<open>The executor of an entry never gets another node, its handles are not exchanged, and no subscription
  appears in it from elsewhere.\<close>

definition keeps :: "ffi_entity exec_world \<Rightarrow> ffi_entity exec_world \<Rightarrow> bool" where
  "keeps w w' \<longleftrightarrow> (own_node_only w \<longrightarrow> own_node_only w' \<and> same_handles w w' \<and> held w' \<subseteq> held w)"

definition tame_exec :: "ffi_env \<Rightarrow> bool" where
  "tame_exec fv \<longleftrightarrow> quiet_exec fv \<and>
     (\<forall>t w. keeps w (snd (xe_wait (fv_exec fv) t w))) \<and> (\<forall>e w. keeps w (snd (xe_dispatch (fv_exec fv) e w)))"

lemma keeps_reconcile:
  "keeps w (w\<lparr>xw_exec := (reconcile_locked xe (xw_nodes w) (xw_exec w))\<rparr>)"
  unfolding keeps_def
proof (intro impI conjI)
  assume own: "own_node_only w"
  then show "own_node_only (w\<lparr>xw_exec := reconcile_locked xe (xw_nodes w) (xw_exec w)\<rparr>)"
    by (simp add: own_node_only_def reconcile_frame)
  show "same_handles w (w\<lparr>xw_exec := reconcile_locked xe (xw_nodes w) (xw_exec w)\<rparr>)"
    by (simp add: same_handles_def reconcile_handles)
  show "held (w\<lparr>xw_exec := reconcile_locked xe (xw_nodes w) (xw_exec w)\<rparr>) \<subseteq> held w"
    using own reconcile_attached_entities [of _ xe "xw_nodes w" "xw_exec w"]
    by (fastforce simp: held_def own_node_only_def)
qed

lemma keeps_trans: "keeps w1 w2 \<Longrightarrow> keeps w2 w3 \<Longrightarrow> keeps w1 w3"
  by (auto simp: keeps_def same_handles_def)

lemmas keeps_simps = keeps_def own_node_only_def same_handles_def held_def exec_handles_def node_own_handles_def

interpretation tame: exec_relation "ffi_exec_env fv" "\<lambda>w w'. tame_exec fv \<longrightarrow> keeps w w'" for fv :: ffi_env
proof
  show "tame_exec fv \<longrightarrow> keeps w (refresh (ffi_exec_env fv) w)" for w
    using keeps_reconcile by (simp add: refresh_def) (simp add: keeps_simps)
  show "tame_exec fv \<longrightarrow> keeps w (absorb_guards w)" for w
    by (simp add: absorb_guards_def keeps_simps entities_def)
  show "tame_exec fv \<longrightarrow> keeps w (snd (xe_wait (ffi_exec_env fv) t w))" for t w
    by (simp add: tame_exec_def ffi_exec_env_def)
  show "tame_exec fv \<longrightarrow> keeps w (snd (xe_dispatch (ffi_exec_env fv) e w))" for e w
    by (simp add: tame_exec_def ffi_exec_env_def)
  show "tame_exec fv \<longrightarrow> keeps w1 w2 \<Longrightarrow> tame_exec fv \<longrightarrow> keeps w2 w3 \<Longrightarrow> tame_exec fv \<longrightarrow> keeps w1 w3" for w1 w2 w3
    using keeps_trans by blast
qed (simp_all add: keeps_simps)

lemmas spin_keeps = tame.spin_R [rule_format] and spin_once_keeps = tame.spin_once_R [rule_format]

lemma cancel_keeps: "keeps w (cancel w)"
  by (simp add: cancel_def keeps_simps)


section \<open>Every call keeps the account\<close>

definition entry_ok :: "ffi_node \<Rightarrow> bool" where
  "entry_ok e \<longleftrightarrow> om_ok (fe_pubs e) \<and> own_node_only (fe_exec e)"

definition lifetime_ok :: "(dds_entity \<Rightarrow> bool) \<Rightarrow> 'cb ffi \<Rightarrow> bool" where
  "lifetime_ok child s \<longleftrightarrow> om_ok (f_registry s) \<and>
     (\<forall>e \<in> snd ` set (f_registry s) \<union> set (f_released s). entry_ok e) \<and> balanced child (owned s) (f_calls s)"

text \<open>CycloneDDS returns new handles, and no constructor is refused half-way (a refused publisher or
  subscriber, read condition or guard attachment leaves handles behind, see \<open>participant_ctor_leak\<close>,
  \<open>executor_handles_released\<close>).\<close>

definition fresh_env :: "(dds_entity \<Rightarrow> bool) \<Rightarrow> ffi_env \<Rightarrow> bool" where
  "fresh_env child fv \<longleftrightarrow> (\<forall>tr.
     (let ne = fv_node fv tr; pc = ne_participant ne in
        0 \<le> pc_publisher pc \<and> 0 \<le> pc_subscriber pc \<and>
        dds_returns child tr [ne_guard ne, pc_participant pc, wc_writer (ne_writer ne)]
          [pc_publisher pc, pc_subscriber pc, wc_topic (ne_writer ne)]) \<and>
     (let xc = fv_executor fv tr in
        0 \<le> xc_attach_cancel xc \<and> 0 \<le> xc_attach_wake xc \<and>
        dds_returns child tr [xc_cancel xc, xc_wake xc, xc_waitset xc] []) \<and>
     dds_returns child tr [wc_writer (fv_writer fv tr)] [wc_topic (fv_writer fv tr)] \<and>
     (let rc = fv_reader fv tr in
        0 \<le> rdc_condition rc \<and> dds_returns child tr [rdc_reader rc, rdc_condition rc] [rdc_topic rc]))"

lemma registry_entry:
  assumes "lifetime_ok child s" "om_find (f_registry s) k = Some e"
  shows "entry_ok e" "om_ok (f_registry s)"
    "owned s = entry_owned e + (registry_owned (om_erase k (f_registry s)) + (\<Sum>e \<in># mset (f_released s). entry_owned e))"
  using assms om_find_in_set [OF assms(2)]
  by (force simp: lifetime_ok_def owned_def registry_owned_simps)+

lemma lifetime_upd:
  assumes ok: "lifetime_ok child s" and e1: "entry_ok e1"
    and t: "f_registry t = om_upd k e1 (f_registry s)" "f_released t = f_released s"
    and bal: "balanced child (entry_owned e1 + (registry_owned (om_erase k (f_registry s)) +
        (\<Sum>e \<in># mset (f_released s). entry_owned e))) (f_calls t)"
  shows "lifetime_ok child t"
  using ok e1 bal set_om_upd_subset [of k e1 "f_registry s"]
  by (fastforce simp: lifetime_ok_def owned_def registry_owned_simps t ac_simps)

text \<open>An entry that lets subscriptions go.\<close>

lemma entry_owned_fewer:
  assumes "exec_handles (xw_exec (fe_exec e1)) = exec_handles (xw_exec (fe_exec e))"
    and "node_own_handles (fe_node e1) = node_own_handles (fe_node e)" "fe_pubs e1 = fe_pubs e"
    and "set (entry_entities e1) \<subseteq> set (entry_entities e)"
  shows "entry_owned e = entry_owned e1 + (\<Sum>x \<in> set (entry_entities e) - set (entry_entities e1). sub_handles x)"
  by (simp add: entry_owned_def assms sum_held_split [OF assms(4)])

lemma replace_entry:
  assumes ok: "lifetime_ok child s" and e: "om_find (f_registry s) k = Some e" and e1: "entry_ok e1"
    and fewer: "entry_owned e = entry_owned e1 + (\<Sum>x \<in> set (entry_entities e) - set (entry_entities e1). sub_handles x)"
    and t: "f_registry t = om_upd k e1 (f_registry s)" "f_released t = f_released s" "f_calls t = f_calls s"
  shows "lifetime_ok child (ffi_calls (drop_subs (entry_entities e) (entry_entities e1)) t)"
proof -
  let ?rest = "registry_owned (om_erase k (f_registry s)) + (\<Sum>e \<in># mset (f_released s). entry_owned e)"
  obtain hs where hs: "deletes (drop_subs (entry_entities e) (entry_entities e1)) hs"
      "mset hs = (\<Sum>x \<in> set (entry_entities e) - set (entry_entities e1). sub_handles x)"
    using drop_subs_deletes by blast
  have "balanced child ((entry_owned e1 + ?rest) + mset hs) (f_calls t)"
    using ok registry_entry(3) [OF ok e] unfolding hs(2) t(3) lifetime_ok_def fewer by (simp add: ac_simps)
  from balanced_calls [OF this hs(1)] show ?thesis
    by (intro lifetime_upd [OF ok e1, of _ k]) (simp_all add: t)
qed

lemma keeps_entry:
  assumes "entry_ok e" "keeps (fe_exec e) x"
  shows "entry_ok (e\<lparr>fe_exec := x\<rparr>)"
    and "entry_owned e = entry_owned (e\<lparr>fe_exec := x\<rparr>) +
      (\<Sum>y \<in> set (entry_entities e) - set (entry_entities (e\<lparr>fe_exec := x\<rparr>)). sub_handles y)"
proof -
  have k: "own_node_only x" "same_handles (fe_exec e) x" "held x \<subseteq> held (fe_exec e)"
    using assms by (simp_all add: entry_ok_def keeps_def)
  then show "entry_ok (e\<lparr>fe_exec := x\<rparr>)" using assms(1) by (simp add: entry_ok_def)
  show "entry_owned e = entry_owned (e\<lparr>fe_exec := x\<rparr>) +
      (\<Sum>y \<in> set (entry_entities e) - set (entry_entities (e\<lparr>fe_exec := x\<rparr>)). sub_handles y)"
    by (rule entry_owned_fewer) (use k in \<open>simp_all add: same_handles_def fe_node_def entry_entities_held\<close>)
qed

lemma set_exec_lifetime:
  assumes "lifetime_ok child s" "\<And>e. om_find (f_registry s) h = Some e \<Longrightarrow> keeps (fe_exec e) x"
  shows "lifetime_ok child (set_exec h x s)"
proof (cases "om_find (f_registry s) h")
  case (Some e)
  note k = keeps_entry [OF registry_entry(1) [OF assms(1) Some] assms(2) [OF Some]]
  show ?thesis
    using replace_entry [OF assms(1) Some k, of "s\<lparr>f_registry := om_upd h (e\<lparr>fe_exec := x\<rparr>) (f_registry s)\<rparr>"]
    by (simp add: set_exec_def Some Let_def f_calls_def)
qed (use assms(1) in \<open>simp add: set_exec_def\<close>)

lemma SubDestroy_lifetime:
  assumes ok: "lifetime_ok child s"
  shows "lifetime_ok child (snd (SubDestroy h s))"
proof -
  { fix k a e
    assume e: "om_find (f_registry s) k = Some e"
    let ?e = "fe_set_node (remove_entity (FfiSub a (fs_reader (f_heap s ! a))) (fe_node e)) (e\<lparr>fe_subs := om_erase h (fe_subs e)\<rparr>)"
    have ents: "set (entry_entities ?e) \<subseteq> set (entry_entities e)"
      by (auto simp: entry_entities_def remove_entity_def entities_def fe_set_node_def fe_node_def)
    have "entry_ok ?e" using registry_entry(1) [OF ok e] by (simp add: entry_ok_def fe_set_node_def own_node_only_def)
    moreover have "entry_owned e = entry_owned ?e + (\<Sum>y \<in> set (entry_entities e) - set (entry_entities ?e). sub_handles y)"
      by (rule entry_owned_fewer [OF _ _ _ ents])
        (simp_all add: fe_set_node_def fe_node_def remove_entity_def node_own_handles_def)
    ultimately have "lifetime_ok child (ffi_calls (drop_subs (entry_entities e) (entry_entities ?e))
        (s\<lparr>f_registry := om_upd k ?e (f_registry s), f_heap := (f_heap s)[a := (f_heap s ! a)\<lparr>fs_closed := True\<rparr>]\<rparr>))"
      by (rule replace_entry [OF ok e]) (simp_all add: f_calls_def) }
  then show ?thesis
    using ok by (auto simp: SubDestroy_def Let_def split: option.splits prod.splits)
qed


text \<open>Entries that go away.\<close>

lemma lifetime_erase:
  assumes ok: "lifetime_ok child s" and e: "om_find (f_registry s) h = Some e" and d: "deletes d hs" "mset hs = entry_owned e"
    and t: "f_registry t = om_erase h (f_registry s)" "f_released t = f_released s" "f_calls t = f_calls s"
  shows "lifetime_ok child (ffi_calls d t)"
proof -
  have "balanced child ((registry_owned (om_erase h (f_registry s)) + (\<Sum>e \<in># mset (f_released s). entry_owned e)) + mset hs) (f_calls t)"
    using ok registry_entry(3) [OF ok e] unfolding d(2) t(3) lifetime_ok_def by (simp add: ac_simps)
  from balanced_calls [OF this d(1)] show ?thesis
    using ok by (auto simp: lifetime_ok_def owned_def t om_erase_def)
qed

lemma entry_owned_cancel: "entry_owned (e\<lparr>fe_exec := cancel (fe_exec e)\<rparr>) = entry_owned e"
  by (simp add: entry_owned_def entry_entities_held)
    (simp add: cancel_def held_def exec_handles_def fe_node_def)

lemma NodeDestroy_lifetime:
  assumes ok: "lifetime_ok child s"
  shows "lifetime_ok child (snd (NodeDestroy hld h s))"
proof (cases "om_find (f_registry s) h")
  case (Some e)
  let ?e = "e\<lparr>fe_exec := cancel (fe_exec e)\<rparr>"
  obtain hs where hs: "deletes (release_entry ?e) hs" "mset hs = entry_owned e"
    using release_entry_deletes [of ?e] unfolding entry_owned_cancel by blast
  have "entry_ok ?e" using keeps_entry(1) [OF registry_entry(1) [OF ok Some] cancel_keeps] .
  then have "lifetime_ok child (s\<lparr>f_registry := om_erase h (f_registry s), f_released := f_released s @ [?e]\<rparr>)"
    using ok registry_entry(3) [OF ok Some]
    by (auto simp: lifetime_ok_def owned_def entry_owned_cancel f_calls_def om_erase_def ac_simps)
  moreover have "lifetime_ok child (ffi_calls (release_entry ?e) (s\<lparr>f_registry := om_erase h (f_registry s)\<rparr>))"
    by (rule lifetime_erase [OF ok Some hs]) (simp_all add: f_calls_def)
  ultimately show ?thesis by (simp add: NodeDestroy_def Some Let_def)
qed (use ok in \<open>simp add: NodeDestroy_def\<close>)

lemma SpinReturns_lifetime:
  assumes ok: "lifetime_ok child s" and tame: "tame_exec fv" and run: "SpinReturns fv i s = Some (r, s')"
  shows "lifetime_ok child s'"
proof (cases "length (f_released s) \<le> i")
  case False
  let ?e = "f_released s ! i" and ?rel = "take i (f_released s) @ drop (Suc i) (f_released s)"
  have split: "f_released s = take i (f_released s) @ ?e # drop (Suc i) (f_released s)"
    using False by (intro id_take_nth_drop) simp
  obtain x where x: "spin (ffi_exec_env fv) (fe_exec ?e) = Some (r, x)"
    and s': "s' = ffi_calls (ebind (drop_subs (entry_entities ?e) (entry_entities (?e\<lparr>fe_exec := x\<rparr>)))
        (\<lambda>_. release_entry (?e\<lparr>fe_exec := x\<rparr>))) (s\<lparr>f_released := ?rel\<rparr>)"
    using run False by (auto simp: SpinReturns_def Let_def)
  have e: "entry_ok ?e" using ok split by (auto simp: lifetime_ok_def dest: arg_cong [of _ _ set])
  obtain us vs where us: "deletes (drop_subs (entry_entities ?e) (entry_entities (?e\<lparr>fe_exec := x\<rparr>))) us"
      "mset us = (\<Sum>y \<in> set (entry_entities ?e) - set (entry_entities (?e\<lparr>fe_exec := x\<rparr>)). sub_handles y)"
    and vs: "deletes (release_entry (?e\<lparr>fe_exec := x\<rparr>)) vs" "mset vs = entry_owned (?e\<lparr>fe_exec := x\<rparr>)"
    using drop_subs_deletes release_entry_deletes by metis
  have all: "mset (us @ vs) = entry_owned ?e"
    using keeps_entry(2) [OF e spin_keeps [OF x tame]] by (simp add: us(2) vs(2))
  have "mset (f_released s) = add_mset ?e (mset ?rel)" by (subst split) simp
  then have "balanced child (owned (s\<lparr>f_released := ?rel\<rparr>) + mset (us @ vs)) (f_calls (s\<lparr>f_released := ?rel\<rparr>))"
    using ok unfolding lifetime_ok_def owned_def all by (simp add: f_calls_def ac_simps)
  from balanced_calls [OF this deletes_bind [OF us(1) vs(1)]] have "balanced child (owned s') (f_calls s')"
    unfolding s' by (simp add: owned_def)
  moreover have "set ?rel \<subseteq> set (f_released s)" using set_take_subset set_drop_subset by fastforce
  ultimately show ?thesis using ok unfolding lifetime_ok_def by (auto simp: s')
qed (use ok run in \<open>simp add: SpinReturns_def\<close>)

lemma PubDestroy_lifetime:
  assumes ok: "lifetime_ok child s"
  shows "lifetime_ok child (snd (PubDestroy h s))"
proof (cases "find_pub (f_registry s) h")
  case (Some kp)
  have reg: "om_ok (f_registry s)" using ok by (simp add: lifetime_ok_def)
  obtain k p e where kp: "kp = (k, p)" "(k, e) \<in> set (f_registry s)" and p: "om_find (fe_pubs e) h = Some p"
    using find_pub_SomeD Some by (metis prod.collapse)
  have e: "om_find (f_registry s) k = Some e" using kp(2) reg by (simp add: om_in_set_iff)
  let ?e = "e\<lparr>fe_pubs := om_erase h (fe_pubs e)\<rparr>"
  let ?t = "s\<lparr>f_registry := om_upd k ?e (f_registry s)\<rparr>"
  have pubs: "om_ok (fe_pubs e)" using registry_entry(1) [OF ok e] by (simp add: entry_ok_def)
  have ents: "entry_entities ?e = entry_entities e" by (simp add: entry_entities_def)
  have "entry_owned e = entry_owned ?e + mset [x \<leftarrow> [wr_handle (fp_writer p)]. 0 \<le> x]"
    unfolding entry_owned_def ents using pub_handles_simps(2) [OF pubs p] by (simp add: writer_own_handles_def)
  then have "balanced child (entry_owned ?e + (registry_owned (om_erase k (f_registry s)) +
      (\<Sum>e \<in># mset (f_released s). entry_owned e)) + mset [x \<leftarrow> [wr_handle (fp_writer p)]. 0 \<le> x]) (f_calls ?t)"
    using ok registry_entry(3) [OF ok e] by (simp add: lifetime_ok_def f_calls_def ac_simps)
  note bal = balanced_calls [OF this deletes_writer]
  have "entry_ok ?e" using registry_entry(1) [OF ok e] by (simp add: entry_ok_def)
  then have "lifetime_ok child (ffi_calls (writer_dtor (fp_writer p)) ?t)"
    by (rule lifetime_upd [OF ok, of _ _ k]) (use bal in simp_all)
  moreover have "snd (PubDestroy h s) = ffi_calls (writer_dtor (fp_writer p)) ?t"
    by (simp add: PubDestroy_def Some kp(1) e on_world_def on_calls_def ffi_calls_def split: prod.splits)
  ultimately show ?thesis by simp
qed (use ok in \<open>simp add: PubDestroy_def\<close>)


text \<open>Entries and endpoints that are created.\<close>

lemma lifetime_same:
  assumes "lifetime_ok child s" "f_registry t = f_registry s" "f_released t = f_released s"
    and "balanced child (owned s) (f_calls t)"
  shows "lifetime_ok child t"
  using assms by (simp add: lifetime_ok_def owned_def)

lemma on_world_calls:
  "on_world (on_calls f) s = (r, t) \<Longrightarrow>
     f (f_calls s) = (r, f_calls t) \<and> f_registry t = f_registry s \<and> f_released t = f_released s \<and>
     f_next_handle t = f_next_handle s \<and> f_heap t = f_heap s"
  by (auto simp: on_world_def on_calls_def f_calls_def split: prod.splits)

lemma new_entry:
  fixes x :: "ffi_entity executor" and n :: "ffi_entity node"
  assumes "ex_nodes x = []" "ex_attached x = []" "entities n = []"
    and e: "e = \<lparr>fe_exec = add_node xe 0 \<lparr>xw_exec = x, xw_nodes = (\<lambda>_. n), xw_log = []\<rparr>, fe_pubs = [], fe_subs = []\<rparr>"
  shows "entry_ok e" "entry_owned e = node_own_handles n + exec_handles x"
proof -
  let ?w = "\<lparr>xw_exec = x\<lparr>ex_nodes := [0], ex_epochs := om_erase 0 (ex_epochs x)\<rparr>, xw_nodes = (\<lambda>_. n), xw_log = []\<rparr>"
  have w: "fe_exec e = (let x2 = reconcile_locked xe (xw_nodes ?w) (xw_exec ?w)
      in ?w\<lparr>xw_exec := x2\<lparr>ex_wake_guard := guard_trigger (ex_wake_guard x2)\<rparr>\<rparr>)"
    by (simp add: e add_node_def assms(1) Let_def)
  have own: "own_node_only ?w" "held ?w = {}" by (simp_all add: own_node_only_def held_def assms)
  have k: "keeps ?w (fe_exec e)"
    unfolding w Let_def using keeps_reconcile [of ?w xe]
    by (simp add: keeps_simps)
  with own have "own_node_only (fe_exec e)" "held (fe_exec e) = {}" "same_handles ?w (fe_exec e)"
    by (auto simp: keeps_def)
  then show "entry_ok e" "entry_owned e = node_own_handles n + exec_handles x"
    by (simp_all add: entry_ok_def entry_owned_def entry_entities_held same_handles_def e fe_node_def pub_handles_def exec_handles_def)
qed

lemma NodeCreate_lifetime:
  assumes ok: "lifetime_ok child s" and fresh: "fresh_env child fv" and new: "om_find (f_registry s) (f_next_handle s) = None"
    and n64: "in_int64 (f_next_handle s + 1)" and run: "NodeCreate fv name ns s = (r, s')"
  shows "lifetime_ok child s'"
proof -
  have bal: "balanced child (owned s) (nw_calls (f_build s))" using ok by (simp add: lifetime_ok_def f_calls_def)
  let ?ne = "fv_node fv (f_calls s)"
  obtain r1 :: "ffi_entity node result" and b where n: "node_ctor ?ne name ns (f_build s) = (r1, b)" by fastforce
  let ?s1 = "s\<lparr>f_build := b\<rparr>"
  have n1: "on_world (node_ctor ?ne name ns) s = (r1, ?s1)" by (simp add: on_world_def n)
  have calls: "f_calls ?s1 = nw_calls b" by (simp add: f_calls_def)
  have node: "case r1 of Inl e \<Rightarrow> balanced child (owned s) (f_calls ?s1)
      | Inr n \<Rightarrow> entities n = [] \<and> balanced child (owned s + node_own_handles n) (f_calls ?s1)"
    unfolding calls using node_ctor_balanced [OF bal _ _ _ n] fresh by (simp add: fresh_env_def Let_def f_calls_def)
  show ?thesis
  proof (cases r1)
    case (Inl e)
    then have "s' = ?s1" using run n1 by (simp add: NodeCreate_def ebind_def)
    then show ?thesis using node Inl by (intro lifetime_same [OF ok]) simp_all
  next
    case n2: (Inr n)
    obtain r2 s2 where x: "on_world (on_calls (ffi_executor (fv_executor fv (f_calls ?s1)))) ?s1 = (r2, s2)" by fastforce
    note x1 = on_world_calls [OF x, THEN conjunct1]
    have exec: "case r2 of Inl e \<Rightarrow> \<not> is_ub e \<and> balanced child (owned s + node_own_handles n) (f_calls s2)
      | Inr x \<Rightarrow> ex_nodes x = [] \<and> ex_attached x = [] \<and> balanced child (owned s + node_own_handles n + exec_handles x) (f_calls s2)"
      by (rule executor_balanced [OF _ _ _ _ x1 [unfolded ffi_executor_def]]) (use node n2 fresh in \<open>simp_all add: fresh_env_def Let_def\<close>)
    show ?thesis
    proof (cases r2)
      case (Inl e)
      obtain hs where hs: "deletes (node_dtor n) hs" "mset hs = node_own_handles n" using node_dtor_deletes by blast
      have "s' = s2\<lparr>f_build := (f_build s2)\<lparr>nw_calls := snd (node_dtor n (nw_calls (f_build s2)))\<rparr>\<rparr>"
        using run n1 n2 x Inl hs(1) exec
        by (auto simp: NodeCreate_def ebind_def ecatch_def on_world_def [of "on_calls (node_dtor n)"] on_calls_def deletes_def split: if_splits)
      then have "s' = ffi_calls (node_dtor n) s2" by (simp add: ffi_calls_def)
      moreover have "balanced child (owned s) (f_calls (ffi_calls (node_dtor n) s2))"
        by (rule balanced_calls [OF _ hs(1)]) (use exec Inl hs(2) in simp)
      ultimately show ?thesis using lifetime_same [OF ok, of s'] on_world_calls [OF x] by simp
    next
      case (Inr ex)
      let ?e = "\<lparr>fe_exec = add_node (ffi_exec_env fv) 0 \<lparr>xw_exec = ex, xw_nodes = (\<lambda>_. n), xw_log = []\<rparr>,
          fe_pubs = [], fe_subs = []\<rparr>"
      have s': "f_registry s' = om_upd (f_next_handle s) ?e (f_registry s)" "f_released s' = f_released s" "f_calls s' = f_calls s2"
        using run n1 n2 x Inr n64 on_world_calls [OF x] new
        by (auto simp: NodeCreate_def ebind_def ecatch_def next_handle_def Let_def f_calls_def om_emplace_def)
      have e: "entry_ok ?e" "entry_owned ?e = node_own_handles n + exec_handles ex"
        using new_entry [of ex n ?e "ffi_exec_env fv"] exec Inr node n2 by simp_all
      show ?thesis
        by (rule lifetime_upd [OF ok e(1) s'(1,2)])
          (use exec Inr in \<open>simp add: e(2) s'(3) owned_def om_erase_absent [OF new] ac_simps\<close>)
    qed
  qed
qed

lemma lookup_frame: "\<exists>r. lookup k s = (r, s)"
  by (auto simp: lookup_def split: option.splits)

lemma PubCreate_calls:
  assumes "PubCreate fv k topic ty depth rel trl s = (r, s')" "in_int64 (f_next_handle s + 1)"
  shows "f_registry s' = f_registry s \<and> f_released s' = f_released s \<and>
      (f_calls s' = f_calls s \<or>
       (\<exists>t d q e. writer_ctor t d q (fv_writer fv (f_calls s)) (f_calls s) = (Inl e, f_calls s'))) \<or>
    (\<exists>e p t d q. om_find (f_registry s) k = Some e \<and> f_released s' = f_released s \<and>
      f_registry s' = om_upd k (e\<lparr>fe_pubs := om_emplace (f_next_handle s) p (fe_pubs e)\<rparr>) (f_registry s) \<and>
      writer_ctor t d q (fv_writer fv (f_calls s)) (f_calls s) = (Inr (fp_writer p), f_calls s'))"
proof -
  obtain r1 r2 r3 where r: "dds_type_name ty = r1" "lookup k s = (r2, s)" "ros_to_dds_topic_name topic = r3"
    using lookup_frame by blast
  show ?thesis
  proof (cases "\<exists>d e t. r1 = Inr d \<and> r2 = Inr e \<and> r3 = Inr t")
    case True
    then obtain d e t where d: "dds_type_name ty = Inr d" "lookup k s = (Inr e, s)" "ros_to_dds_topic_name topic = Inr t"
      using r by blast
    let ?q = "qos_from_args depth rel trl"
    obtain rw s1 where w: "on_world (on_calls (writer_ctor t d ?q (fv_writer fv (f_calls s)))) s = (rw, s1)" by fastforce
    note w1 = on_world_calls [OF w]
    show ?thesis
    proof (cases rw)
      case (Inl x)
      then show ?thesis using assms(1) d w w1 by (auto simp: PubCreate_def ebind_def)
    next
      case (Inr x)
      then show ?thesis
        using assms d w w1
        by (intro disjI2 exI [of _ e] exI [of _ "\<lparr>fp_topic = topic, fp_type = d, fp_writer = x\<rparr>"] exI [of _ t] exI [of _ d] exI [of _ ?q])
          (auto simp: PubCreate_def ebind_def next_handle_def lookup_eq f_calls_def split: option.splits)
    qed
  next
    case False
    then have "s' = s" using assms(1) r
      by (cases r1; cases r2; cases r3) (auto simp: PubCreate_def ebind_def)
    then show ?thesis by simp
  qed
qed


lemma PubCreate_lifetime:
  assumes ok: "lifetime_ok child s" and fresh: "fresh_env child fv"
    and new: "\<And>e. om_find (f_registry s) k = Some e \<Longrightarrow> om_find (fe_pubs e) (f_next_handle s) = None"
    and n64: "in_int64 (f_next_handle s + 1)" and run: "PubCreate fv k topic ty depth rel trl s = (r, s')"
  shows "lifetime_ok child s'"
proof -
  have bal: "balanced child (owned s) (f_calls s)" using ok by (simp add: lifetime_ok_def)
  have ret: "dds_returns child (f_calls s) [wc_writer (fv_writer fv (f_calls s))] [wc_topic (fv_writer fv (f_calls s))]"
    using fresh by (simp add: fresh_env_def Let_def)
  from PubCreate_calls [OF run n64] show ?thesis
  proof (elim disjE exE conjE)
    fix e p t d q
    assume e: "om_find (f_registry s) k = Some e"
      and s': "f_released s' = f_released s"
        "f_registry s' = om_upd k (e\<lparr>fe_pubs := om_emplace (f_next_handle s) p (fe_pubs e)\<rparr>) (f_registry s)"
      and w: "writer_ctor t d q (fv_writer fv (f_calls s)) (f_calls s) = (Inr (fp_writer p), f_calls s')"
    let ?e = "e\<lparr>fe_pubs := om_emplace (f_next_handle s) p (fe_pubs e)\<rparr>"
    have pubs: "om_ok (fe_pubs e)" using registry_entry(1) [OF ok e] by (simp add: entry_ok_def)
    have ents: "entry_entities ?e = entry_entities e" by (simp add: entry_entities_def)
    have owned: "entry_owned ?e = entry_owned e + writer_own_handles (fp_writer p)"
      unfolding entry_owned_def ents using pub_handles_simps(1) [OF pubs, of "f_next_handle s" p] new [OF e]
      by (simp add: om_emplace_def om_erase_absent ac_simps)
    have "entry_ok ?e" using registry_entry(1) [OF ok e] new [OF e] by (simp add: entry_ok_def om_emplace_def)
    then show ?thesis
      by (rule lifetime_upd [OF ok _ s'(2,1)])
        (use writer_balanced [OF bal ret w] registry_entry(3) [OF ok e] in \<open>simp add: owned ac_simps\<close>)
  next
    fix t d q e
    assume "f_registry s' = f_registry s" "f_released s' = f_released s"
      and w: "writer_ctor t d q (fv_writer fv (f_calls s)) (f_calls s) = (Inl e, f_calls s')"
    then show ?thesis using lifetime_same [OF ok] writer_balanced [OF bal ret w] by simp
  qed (rule lifetime_same [OF ok], use bal in simp_all)
qed

lemma SubCreate_calls:
  assumes "SubCreate fv k topic ty depth rel trl cb s = (r, s')" "in_int64 (f_next_handle s + 1)"
  shows "f_registry s' = f_registry s \<and> f_released s' = f_released s \<and>
      (f_calls s' = f_calls s \<or>
       (\<exists>t d q e. reader_ctor t d q (fv_reader fv (f_calls s)) (f_calls s) = (Inl e, f_calls s'))) \<or>
    (\<exists>e a rd t d q subs. om_find (f_registry s) k = Some e \<and> f_released s' = f_released s \<and>
      f_registry s' = om_upd k (fe_set_node (add_entity (FfiSub a rd) (fe_node e)) e\<lparr>fe_subs := subs\<rparr>) (f_registry s) \<and>
      reader_ctor t d q (fv_reader fv (f_calls s)) (f_calls s) = (Inr rd, f_calls s'))"
proof -
  obtain r1 r2 r3 where r: "dds_type_name ty = r1" "lookup k s = (r2, s)" "ros_to_dds_topic_name topic = r3"
    using lookup_frame by blast
  show ?thesis
  proof (cases "\<exists>d e t. r1 = Inr d \<and> r2 = Inr e \<and> r3 = Inr t")
    case True
    then obtain d e t where d: "dds_type_name ty = Inr d" "lookup k s = (Inr e, s)" "ros_to_dds_topic_name topic = Inr t"
      using r by blast
    let ?q = "qos_from_args depth rel trl"
    obtain rw s1 where w: "on_world (on_calls (reader_ctor t d ?q (fv_reader fv (f_calls s)))) s = (rw, s1)" by fastforce
    note w1 = on_world_calls [OF w]
    show ?thesis
    proof (cases rw)
      case (Inl x)
      then show ?thesis using assms(1) d w w1 by (auto simp: SubCreate_def ebind_def)
    next
      case (Inr x)
      then show ?thesis
        using assms d w w1
        by (intro disjI2 exI [of _ e] exI [of _ "length (f_heap s)"] exI [of _ x] exI [of _ t] exI [of _ d] exI [of _ ?q]
            exI [of _ "om_emplace (f_next_handle s) (length (f_heap s)) (fe_subs e)"])
          (auto simp: SubCreate_def ebind_def next_handle_def lookup_eq f_calls_def Let_def split: option.splits)
    qed
  next
    case False
    then have "s' = s" using assms(1) r
      by (cases r1; cases r2; cases r3) (auto simp: SubCreate_def ebind_def)
    then show ?thesis by simp
  qed
qed

lemma owned_handle:
  assumes "x \<in> set (entry_entities e)" "h \<in># sub_handles x"
  shows "h \<in># entry_owned e"
proof -
  have "sub_handles x \<subseteq># (\<Sum>x \<in> set (entry_entities e). sub_handles x)"
    using sum.remove [OF _ assms(1), of sub_handles] by simp
  then show ?thesis using assms(2) unfolding entry_owned_def by (auto dest: mset_subset_eqD)
qed

lemma SubCreate_lifetime:
  assumes ok: "lifetime_ok child s" and fresh: "fresh_env child fv"
    and n64: "in_int64 (f_next_handle s + 1)" and run: "SubCreate fv k topic ty depth rel trl cb s = (r, s')"
  shows "lifetime_ok child s'"
proof -
  let ?rc = "fv_reader fv (f_calls s)"
  have bal: "balanced child (owned s) (f_calls s)" using ok by (simp add: lifetime_ok_def)
  have ret: "dds_returns child (f_calls s) [rdc_reader ?rc, rdc_condition ?rc] [rdc_topic ?rc]" "0 \<le> rdc_condition ?rc"
    using fresh by (simp_all add: fresh_env_def Let_def)
  from SubCreate_calls [OF run n64] show ?thesis
  proof (elim disjE exE conjE)
    fix e a rd t d q subs
    assume e: "om_find (f_registry s) k = Some e"
      and s': "f_released s' = f_released s"
        "f_registry s' = om_upd k (fe_set_node (add_entity (FfiSub a rd) (fe_node e)) e\<lparr>fe_subs := subs\<rparr>) (f_registry s)"
      and w: "reader_ctor t d q ?rc (f_calls s) = (Inr rd, f_calls s')"
    let ?e = "fe_set_node (add_entity (FfiSub a rd) (fe_node e)) e\<lparr>fe_subs := subs\<rparr>"
    have rd: "rd = \<lparr>rd_handle = rdc_reader ?rc, rc_handle = rdc_condition ?rc\<rparr>" "rdc_reader ?rc \<notin> open_handles (f_calls s)"
        "0 \<le> rdc_reader ?rc" "balanced child (owned s + reader_own_handles rd) (f_calls s')"
      using reader_balanced [OF bal ret w] unfolding sum.case by blast+
    have "rdc_reader ?rc \<notin># owned s"
      using balanced_roots [OF bal] rd(2) by (auto simp: roots_def)
    moreover have "rdc_reader ?rc \<in># sub_handles (FfiSub a rd)" by (simp add: rd(1,3) reader_own_handles_def)
    ultimately have "FfiSub a rd \<notin> set (entry_entities e)"
      using owned_handle [of "FfiSub a rd" e "rdc_reader ?rc"] registry_entry(3) [OF ok e] by auto
    moreover have "set (entry_entities ?e) = insert (FfiSub a rd) (set (entry_entities e))"
      by (auto simp: entry_entities_def entities_def add_entity_def fe_set_node_def fe_node_def)
    ultimately have "entry_owned ?e = entry_owned e + sub_handles (FfiSub a rd)"
      unfolding entry_owned_def
      by (simp add: fe_set_node_def fe_node_def add_entity_def node_own_handles_def ac_simps )
    moreover have "entry_ok ?e" using registry_entry(1) [OF ok e] by (simp add: entry_ok_def fe_set_node_def own_node_only_def)
    ultimately show ?thesis
      by (intro lifetime_upd [OF ok _ s'(2,1)])
        (use rd(4) registry_entry(3) [OF ok e] in \<open>simp_all add: ac_simps \<close>)
  next
    fix t d q e
    assume "f_registry s' = f_registry s" "f_released s' = f_released s"
      and w: "reader_ctor t d q ?rc (f_calls s) = (Inl e, f_calls s')"
    then show ?thesis using lifetime_same [OF ok] reader_balanced [OF bal ret w] by simp
  qed (rule lifetime_same [OF ok], use bal in simp_all)
qed


lemma ffi_do_lifetime:
  assumes ok: "lifetime_ok child s" and inv: "ffi_ok s" and fresh: "fresh_env child fv" and tame: "tame_exec fv"
    and n64: "in_int64 (f_next_handle s + 1)"
  shows "lifetime_ok child (ffi_do fv c s)"
proof (cases c)
  case (CNodeCreate name ns)
  then show ?thesis
    using NodeCreate_lifetime [OF ok fresh fresh_handle(1) [OF inv] n64] by (simp add: prod_eq_iff)
next
  case (CNodeSpin h)
  then show ?thesis
    using ok tame
    by (auto simp: NodeSpin_def split: option.splits prod.splits intro!: set_exec_lifetime intro: spin_keeps)
next
  case (CNodeSpinOnce h t)
  then show ?thesis
    using ok spin_once_keeps [OF tame]
    by (auto simp: NodeSpinOnce_def ebind_def lookup_def split: option.splits prod.splits intro!: set_exec_lifetime)
      (metis snd_conv)
next
  case (CNodeCancel h)
  then show ?thesis
    using ok cancel_keeps by (auto simp: NodeCancel_def ebind_def lookup_def split: option.splits intro!: set_exec_lifetime)
next
  case (CPubCreate k topic ty depth rel trl)
  then show ?thesis
    using PubCreate_lifetime [OF ok fresh fresh_handle(2) [OF inv] n64] by (simp add: prod_eq_iff)
next
  case (CSubCreate k topic ty depth rel trl cb)
  then show ?thesis using SubCreate_lifetime [OF ok fresh n64] by (simp add: prod_eq_iff)
next
  case (CInitDds port peers dom iface)
  then show ?thesis
    by (intro lifetime_same [OF ok]) (use ok in \<open>auto simp: InitDds_def Let_def lifetime_ok_def f_calls_def split: prod.splits\<close>)
next
  case (CPubPublish h pl)
  then show ?thesis
    by (intro lifetime_same [OF ok])
      (use ok in \<open>auto simp: PubPublish_def ebind_def lifetime_ok_def f_calls_def split: option.splits sum.splits prod.splits\<close>)
qed (use ok tame in \<open>auto simp: NodeDestroy_lifetime PubDestroy_lifetime SubDestroy_lifetime
    intro: SpinReturns_lifetime split: option.splits\<close>)

lemma reach_lifetime:
  assumes "reach ffi_init (ffi_step fv) s" "fresh_env child fv" "tame_exec fv" "in_int64 (f_next_handle s + 1)"
  shows "lifetime_ok child s"
  using assms
proof (induction rule: reach.induct)
  case (reach_init s)
  then show ?case by (simp add: ffi_init_def lifetime_ok_def owned_def registry_owned_def balanced_Nil)
next
  case (reach_step s t)
  have quiet: "quiet_exec fv" using reach_step.prems by (simp add: tame_exec_def)
  have ok: "ffi_ok s" using ffi_reach_ok [OF reach_step(1) quiet] .
  have le: "f_next_handle s \<le> f_next_handle t" using node_handles.next_mono [of s fv t] ok quiet reach_step(2) by blast
  moreover have "1 \<le> f_next_handle s" using ok by (simp add: ffi_ok_def handles_ok_def)
  ultimately have n64: "in_int64 (f_next_handle s + 1)" using reach_step.prems(3) by (simp add: in_int64_def)
  obtain c where "t = ffi_do fv c s" using reach_step(2) unfolding ffi_step_def by blast
  then show ?case
    using ffi_do_lifetime [OF reach_step.IH [OF reach_step.prems(1,2) n64] ok reach_step.prems(1,2) n64] by simp
qed



definition demo_lifetime_env :: ffi_env where
  "demo_lifetime_env = demo_ffi_env\<lparr>
     fv_node := (\<lambda>tr. (fv_node demo_ffi_env tr)\<lparr>ne_guard := demo_base tr,
       ne_participant := \<lparr>pc_domain = 0, pc_qos = True, pc_participant = demo_base tr + 1, pc_publisher = demo_base tr + 55,
         pc_subscriber = demo_base tr + 56\<rparr>,
       ne_writer := \<lparr>wc_sertype = True, wc_qos = True, wc_topic = demo_base tr + 57, wc_writer = demo_base tr + 2\<rparr>\<rparr>),
     fv_executor := (\<lambda>tr. \<lparr>xc_cancel = demo_base tr, xc_wake = demo_base tr + 1, xc_waitset = demo_base tr + 2,
       xc_attach_cancel = 0, xc_attach_wake = 0\<rparr>),
     fv_writer := (\<lambda>tr. \<lparr>wc_sertype = True, wc_qos = True, wc_topic = demo_base tr + 55, wc_writer = demo_base tr\<rparr>),
     fv_reader := (\<lambda>tr. \<lparr>rdc_sertype = True, rdc_qos = True, rdc_topic = demo_base tr + 55, rdc_reader = demo_base tr,
       rdc_condition = demo_base tr + 1\<rparr>)\<rparr>"

lemma demo_fresh: "fresh_env demo_child demo_lifetime_env"
  using demo_base_new [of 0] demo_base_new [of 1] demo_base_new [of 2] demo_base_new [of 55] demo_base_new [of 56] demo_base_new [of 57]
  by (simp add: fresh_env_def dds_returns_def demo_lifetime_env_def)

lemma demo_tame: "tame_exec demo_lifetime_env"
  by (simp add: tame_exec_def quiet_exec_def demo_lifetime_env_def demo_ffi_env_def keeps_simps)


end
