(* ===== verification/Parameter.thy ===== *)
theory Parameter
  imports Node "HOL-Library.Signed_Division"
begin

text \<open>
  Node parameters (\<^verbatim>\<open>parameter.hpp\<close>, \<^verbatim>\<open>parameter.cpp\<close>, \<^verbatim>\<open>node_params.hpp\<close>): values and their conversions,
  the store with its events, the six parameter services and their registration.

  Doubles are their 64-bit patterns.  The messages of \<^verbatim>\<open>rcl_interfaces\<close> are records; their
  serializers are generated code, and the one of \<^verbatim>\<open>ParameterEvent\<close> is a parameter.
\<close>

section \<open>Values\<close>

text \<open>\<^verbatim>\<open>enum class Type : uint8_t\<close> holds any byte: a cast from the wire may give an unlisted one.\<close>

datatype param_type =
    PT_NotSet | PT_Bool | PT_Integer | PT_Double | PT_String
  | PT_ByteArray | PT_BoolArray | PT_IntegerArray | PT_DoubleArray | PT_StringArray
  | PT_Unlisted byte

fun type_byte :: "param_type \<Rightarrow> byte" where
  "type_byte PT_NotSet = 0" | "type_byte PT_Bool = 1" | "type_byte PT_Integer = 2"
| "type_byte PT_Double = 3" | "type_byte PT_String = 4" | "type_byte PT_ByteArray = 5"
| "type_byte PT_BoolArray = 6" | "type_byte PT_IntegerArray = 7" | "type_byte PT_DoubleArray = 8"
| "type_byte PT_StringArray = 9" | "type_byte (PT_Unlisted b) = b"

definition type_of_byte :: "byte \<Rightarrow> param_type" where
  "type_of_byte b =
     (if b = 0 then PT_NotSet else if b = 1 then PT_Bool else if b = 2 then PT_Integer
      else if b = 3 then PT_Double else if b = 4 then PT_String else if b = 5 then PT_ByteArray
      else if b = 6 then PT_BoolArray else if b = 7 then PT_IntegerArray
      else if b = 8 then PT_DoubleArray else if b = 9 then PT_StringArray else PT_Unlisted b)"

record parameter_value =
  pv_type :: param_type
  pv_bool :: bool
  pv_integer :: "64 word"
  pv_double :: "64 word"
  pv_string :: string
  pv_byte_array :: "byte list"
  pv_bool_array :: "bool list"
  pv_integer_array :: "64 word list"
  pv_double_array :: "64 word list"
  pv_string_array :: "string list"

definition parameter_value_init :: parameter_value where
  "parameter_value_init =
     \<lparr>pv_type = PT_NotSet, pv_bool = False, pv_integer = 0, pv_double = 0, pv_string = [],
      pv_byte_array = [], pv_bool_array = [], pv_integer_array = [], pv_double_array = [],
      pv_string_array = []\<rparr>"

definition to_value_bool :: "bool \<Rightarrow> parameter_value" where
  "to_value_bool v = parameter_value_init\<lparr>pv_type := PT_Bool, pv_bool := v\<rparr>"

definition to_value_int64 :: "64 word \<Rightarrow> parameter_value" where
  "to_value_int64 v = parameter_value_init\<lparr>pv_type := PT_Integer, pv_integer := v\<rparr>"

definition to_value_int :: "32 word \<Rightarrow> parameter_value" where
  "to_value_int v = to_value_int64 (scast v)"

definition to_value_double :: "64 word \<Rightarrow> parameter_value" where
  "to_value_double v = parameter_value_init\<lparr>pv_type := PT_Double, pv_double := v\<rparr>"

definition to_value_string :: "string \<Rightarrow> parameter_value" where
  "to_value_string v = parameter_value_init\<lparr>pv_type := PT_String, pv_string := v\<rparr>"

definition to_value_string_array :: "string list \<Rightarrow> parameter_value" where
  "to_value_string_array v = parameter_value_init\<lparr>pv_type := PT_StringArray, pv_string_array := v\<rparr>"

definition value_as_bool :: "parameter_value \<Rightarrow> bool" where "value_as_bool p = pv_bool p"
definition value_as_int64 :: "parameter_value \<Rightarrow> 64 word" where "value_as_int64 p = pv_integer p"
definition value_as_double :: "parameter_value \<Rightarrow> 64 word" where "value_as_double p = pv_double p"
definition value_as_string :: "parameter_value \<Rightarrow> string" where "value_as_string p = pv_string p"

record rcl_parameter_value =
  rv_type :: byte
  rv_bool :: bool
  rv_integer :: "64 word"
  rv_double :: "64 word"
  rv_string :: string
  rv_byte_array :: "byte list"
  rv_bool_array :: "bool list"
  rv_integer_array :: "64 word list"
  rv_double_array :: "64 word list"
  rv_string_array :: "string list"

definition to_rcl_value :: "parameter_value \<Rightarrow> rcl_parameter_value" where
  "to_rcl_value v =
     \<lparr>rv_type = type_byte (pv_type v), rv_bool = pv_bool v, rv_integer = pv_integer v,
      rv_double = pv_double v, rv_string = pv_string v, rv_byte_array = pv_byte_array v,
      rv_bool_array = pv_bool_array v, rv_integer_array = pv_integer_array v,
      rv_double_array = pv_double_array v, rv_string_array = pv_string_array v\<rparr>"

definition from_rcl_value :: "rcl_parameter_value \<Rightarrow> parameter_value" where
  "from_rcl_value v =
     \<lparr>pv_type = type_of_byte (rv_type v), pv_bool = rv_bool v, pv_integer = rv_integer v,
      pv_double = rv_double v, pv_string = rv_string v, pv_byte_array = rv_byte_array v,
      pv_bool_array = rv_bool_array v, pv_integer_array = rv_integer_array v,
      pv_double_array = rv_double_array v, pv_string_array = rv_string_array v\<rparr>"

definition rcl_parameter_value_init :: rcl_parameter_value where
  "rcl_parameter_value_init =
     \<lparr>rv_type = 0, rv_bool = False, rv_integer = 0, rv_double = 0, rv_string = [], rv_byte_array = [],
      rv_bool_array = [], rv_integer_array = [], rv_double_array = [], rv_string_array = []\<rparr>"


section \<open>Time stamps and dotted names\<close>

record time_stamp =
  ts_sec :: "32 word"
  ts_nanosec :: "32 word"

text \<open>\<open>now\<close> is the count of \<^verbatim>\<open>system_clock\<close> in nanoseconds; divisions truncate toward zero.\<close>

definition now_stamp :: "int \<Rightarrow> time_stamp" where
  "now_stamp now =
     \<lparr>ts_sec = word_of_int (now sdiv 1000000000), ts_nanosec = word_of_int (now smod 1000000000)\<rparr>"

text \<open>\<^verbatim>\<open>std::getline(is, cur, '.')\<close> until it fails: a final delimiter opens no further token.\<close>

function tokenize :: "string \<Rightarrow> string list" where
  "tokenize [] = []"
| "s \<noteq> [] \<Longrightarrow>
   tokenize s = takeWhile (\<lambda>c. c \<noteq> CHR ''.'') s # tokenize (drop 1 (dropWhile (\<lambda>c. c \<noteq> CHR ''.'') s))"
  by auto
termination
proof (relation "measure length")
  fix s :: string
  assume "s \<noteq> []"
  then show "(drop 1 (dropWhile (\<lambda>c. c \<noteq> CHR ''.'') s), s) \<in> measure length"
    using length_dropWhile_le [of "\<lambda>c. c \<noteq> CHR ''.''" s] by (cases s) auto
qed simp

lemma tokenize_code [code]:
  "tokenize s =
     (if s = [] then []
      else takeWhile (\<lambda>c. c \<noteq> CHR ''.'') s # tokenize (drop 1 (dropWhile (\<lambda>c. c \<noteq> CHR ''.'') s)))"
  by (cases "s = []") (simp_all add: tokenize.simps)

text \<open>The loop over the dots of a name: \<^verbatim>\<open>name.find('.', dot + 1)\<close>.\<close>

function dot_prefixes :: "string \<Rightarrow> nat \<Rightarrow> string list" where
  "dot_prefixes name pos =
     (case str_find_from ''.'' name pos of
        None \<Rightarrow> []
      | Some dot \<Rightarrow> substr name 0 dot # dot_prefixes name (dot + 1))"
  by auto
termination
proof (relation "measure (\<lambda>(name, pos). Suc (length name) - pos)")
  fix name :: string and pos dot :: nat
  assume "str_find_from ''.'' name pos = Some dot"
  then show "((name, dot + 1), (name, pos)) \<in> measure (\<lambda>(name, pos). Suc (length name) - pos)"
    by (auto simp: str_find_from_def dest!: str_find_SomeD split: if_splits)
qed simp

declare dot_prefixes.simps [simp del]

section \<open>The store\<close>

record rcl_parameter =
  rp_name :: string
  rp_value :: rcl_parameter_value

record parameter_event =
  ev_stamp :: time_stamp
  ev_node :: string
  ev_new :: "rcl_parameter list"
  ev_changed :: "rcl_parameter list"
  ev_deleted :: "rcl_parameter list"

text \<open>What the events publisher relies on; the clock may depend on what has been written so far.\<close>

record param_env =
  pe_fq_name :: string
  pe_ser :: "parameter_event serializer"
  pe_we :: dds_writer_env
  pe_pub :: publisher
  pe_clock :: "wire \<Rightarrow> int"

record param_state =
  ps_values :: "(string, parameter_value) omap"
  ps_events :: wire

definition param_state_init :: param_state where
  "param_state_init = \<lparr>ps_values = [], ps_events = []\<rparr>"

definition parameter_event_of :: "param_env \<Rightarrow> wire \<Rightarrow> string \<Rightarrow> parameter_value \<Rightarrow> bool \<Rightarrow> parameter_event" where
  "parameter_event_of pe ws name v is_new =
     (let p = \<lparr>rp_name = name, rp_value = to_rcl_value v\<rparr>;
          ev = \<lparr>ev_stamp = now_stamp (pe_clock pe ws), ev_node = pe_fq_name pe, ev_new = [], ev_changed = [],
                ev_deleted = []\<rparr>
      in if is_new then ev\<lparr>ev_new := [p]\<rparr> else ev\<lparr>ev_changed := [p]\<rparr>)"

definition publish_event_locked ::
    "param_env \<Rightarrow> string \<Rightarrow> parameter_value \<Rightarrow> bool \<Rightarrow> (param_state, unit) eff" where
  "publish_event_locked pe name v is_new st =
     (case publish (pe_ser pe) (pe_we pe) (pe_pub pe) (parameter_event_of pe (ps_events st) name v is_new)
             (ps_events st) of
        (r, ws) \<Rightarrow> (r, st\<lparr>ps_events := ws\<rparr>))"

definition param_declare :: "param_env \<Rightarrow> string \<Rightarrow> parameter_value \<Rightarrow> (param_state, unit) eff" where
  "param_declare pe name default_value st =
     (if name = [] then (Inl (InvalidArguments ''parameter name must not be empty''), st)
      else if om_find (ps_values st) name \<noteq> None then
        (Inl (InvalidArguments (''parameter already declared: '' @ name)), st)
      else
        let st1 = st\<lparr>ps_values := om_upd name default_value (ps_values st)\<rparr> in
        if pv_type default_value \<noteq> PT_NotSet then publish_event_locked pe name default_value True st1
        else (Inr (), st1))"

definition param_get :: "string \<Rightarrow> param_state \<Rightarrow> parameter_value result" where
  "param_get name st =
     (case om_find (ps_values st) name of
        None \<Rightarrow> Inl (InvalidArguments (''parameter not declared: '' @ name))
      | Some v \<Rightarrow> Inr v)"

definition param_get_or :: "string \<Rightarrow> param_state \<Rightarrow> parameter_value option" where
  "param_get_or name st = om_find (ps_values st) name"

definition param_set :: "param_env \<Rightarrow> string \<Rightarrow> parameter_value \<Rightarrow> (param_state, bool) eff" where
  "param_set pe name v st =
     (case om_find (ps_values st) name of
        None \<Rightarrow> (Inr False, st)
      | Some old \<Rightarrow>
          let was_not_set = (pv_type old = PT_NotSet);
              st1 = st\<lparr>ps_values := om_upd name v (ps_values st)\<rparr>
          in ebind (if pv_type v \<noteq> PT_NotSet then publish_event_locked pe name v was_not_set else ereturn ())
               (\<lambda>_. ereturn True) st1)"

text \<open>The template accessors of \<^verbatim>\<open>node_params.hpp\<close>; \<open>value_as\<close> is the instance for the type asked for.\<close>

definition node_declare_parameter :: "('t \<Rightarrow> parameter_value) \<Rightarrow> param_env \<Rightarrow> string \<Rightarrow> 't \<Rightarrow> (param_state, unit) eff" where
  "node_declare_parameter to_value pe name default_value = param_declare pe name (to_value default_value)"

definition node_declare_parameter_unset :: "param_env \<Rightarrow> string \<Rightarrow> (param_state, unit) eff" where
  "node_declare_parameter_unset pe name = param_declare pe name parameter_value_init"

definition node_get_parameter_value :: "string \<Rightarrow> param_state \<Rightarrow> parameter_value result" where
  "node_get_parameter_value name st = param_get name st"

definition node_set_parameter :: "param_env \<Rightarrow> string \<Rightarrow> parameter_value \<Rightarrow> (param_state, bool) eff" where
  "node_set_parameter pe name v = param_set pe name v"

definition node_get_parameter_or :: "(parameter_value \<Rightarrow> 't) \<Rightarrow> string \<Rightarrow> 't \<Rightarrow> param_state \<Rightarrow> 't" where
  "node_get_parameter_or value_as name alternative st =
     (case param_get_or name st of None \<Rightarrow> alternative | Some v \<Rightarrow> value_as v)"

definition node_get_parameter :: "(parameter_value \<Rightarrow> 't) \<Rightarrow> string \<Rightarrow> param_state \<Rightarrow> 't result" where
  "node_get_parameter value_as name st =
     (case param_get_or name st of
        None \<Rightarrow> Inl (InvalidArguments (''parameter not declared: '' @ name))
      | Some v \<Rightarrow> Inr (value_as v))"


section \<open>The parameter services\<close>

record parameter_descriptor =
  pd_name :: string
  pd_type :: byte
  pd_dynamic_typing :: bool

definition handle_describe :: "string list \<Rightarrow> param_state \<Rightarrow> parameter_descriptor list" where
  "handle_describe names st =
     map (\<lambda>name. \<lparr>pd_name = name,
            pd_type = (case om_find (ps_values st) name of
                         Some v \<Rightarrow> type_byte (pv_type v) | None \<Rightarrow> type_byte PT_NotSet),
            pd_dynamic_typing = False\<rparr>) names"

definition handle_get_types :: "string list \<Rightarrow> param_state \<Rightarrow> byte list" where
  "handle_get_types names st =
     map (\<lambda>name. case om_find (ps_values st) name of
            Some v \<Rightarrow> type_byte (pv_type v) | None \<Rightarrow> type_byte PT_NotSet) names"

definition handle_get :: "string list \<Rightarrow> param_state \<Rightarrow> rcl_parameter_value list" where
  "handle_get names st =
     map (\<lambda>name. case om_find (ps_values st) name of
            Some v \<Rightarrow> to_rcl_value v | None \<Rightarrow> rcl_parameter_value_init) names"

fun prefix_ok :: "64 word \<Rightarrow> string list \<Rightarrow> string list \<Rightarrow> bool" where
  "prefix_ok depth parts [] = False"
| "prefix_ok depth parts (p # ps) =
     (let pp = tokenize p in
      if length parts < length pp then prefix_ok depth parts ps
      else if take (length pp) parts = pp then depth = 0 \<or> length parts - length pp \<le> unat depth
      else prefix_ok depth parts ps)"

definition list_matches :: "string list \<Rightarrow> 64 word \<Rightarrow> string \<Rightarrow> bool" where
  "list_matches prefixes depth name =
     (let parts = tokenize name in
      if prefixes \<noteq> [] then prefix_ok depth parts prefixes
      else depth = 0 \<or> length parts \<le> unat depth)"

record list_result =
  lr_names :: "string list"
  lr_prefixes :: "string list"

definition handle_list :: "string list \<Rightarrow> 64 word \<Rightarrow> param_state \<Rightarrow> list_result" where
  "handle_list prefixes depth st =
     (let matched = sort (filter (list_matches prefixes depth) (om_keys (ps_values st)))
      in \<lparr>lr_names = matched,
          lr_prefixes = fold os_insert (concat (map (\<lambda>n. dot_prefixes n 0) matched)) []\<rparr>)"

record set_result =
  sr_successful :: bool
  sr_reason :: string

text \<open>A loop that collects one result per element.\<close>

fun emap :: "('a \<Rightarrow> ('s, 'b) eff) \<Rightarrow> 'a list \<Rightarrow> ('s, 'b list) eff" where
  "emap f [] = ereturn []"
| "emap f (x # xs) = ebind (f x) (\<lambda>y. ebind (emap f xs) (\<lambda>ys. ereturn (y # ys)))"

definition handle_set :: "param_env \<Rightarrow> rcl_parameter list \<Rightarrow> (param_state, set_result list) eff" where
  "handle_set pe ps =
     emap (\<lambda>p. ebind (param_set pe (rp_name p) (from_rcl_value (rp_value p))) (\<lambda>ok.
       ereturn \<lparr>sr_successful = ok, sr_reason = (if ok then [] else ''parameter not declared'')\<rparr>)) ps"

definition undeclared_reason :: "param_state \<Rightarrow> rcl_parameter list \<Rightarrow> string" where
  "undeclared_reason st ps =
     fold (\<lambda>p reason. if om_find (ps_values st) (rp_name p) = None
                      then reason @ (if reason = [] then [] else '', '') @ rp_name p else reason) ps []"

definition handle_set_atomically :: "param_env \<Rightarrow> rcl_parameter list \<Rightarrow> (param_state, set_result) eff" where
  "handle_set_atomically pe ps st =
     (if \<exists>p \<in> set ps. om_find (ps_values st) (rp_name p) = None then
        (Inr \<lparr>sr_successful = False,
              sr_reason = ''parameters not declared: '' @ undeclared_reason st ps\<rparr>, st)
      else
        ebind (efor (\<lambda>p. ebind (param_set pe (rp_name p) (from_rcl_value (rp_value p))) (\<lambda>_. ereturn ())) ps)
          (\<lambda>_. ereturn \<lparr>sr_successful = True, sr_reason = []\<rparr>) st)"


section \<open>Registration\<close>

definition param_service_suffixes :: "string list" where
  "param_service_suffixes =
     [''describe_parameters'', ''get_parameter_types'', ''get_parameters'', ''list_parameters'',
      ''set_parameters'', ''set_parameters_atomically'']"

record service_calls =
  sc_reader :: reader_calls
  sc_writer :: writer_calls
  sc_request_name :: string
  sc_response_name :: string

definition register_param_service ::
    "(string \<Rightarrow> service \<Rightarrow> 'e) \<Rightarrow> (string \<Rightarrow> service_calls) \<Rightarrow> string \<Rightarrow> ('e node \<times> dds_call list, unit) eff" where
  "register_param_service wrap calls suffix st =
     (let sc = calls suffix in
      ebind (on_dds (service_ctor (n_fq_name (fst st) @ ''/'' @ suffix) qos_Parameters (sc_request_name sc)
               (sc_response_name sc) (sc_reader sc) (sc_writer sc))) (\<lambda>s.
        emodify (map_prod (add_entity (wrap suffix s)) id)) st)"

text \<open>\<open>wrap\<close> makes the entity whose callback captures \<^verbatim>\<open>this\<close>.  When a later service throws, the
  publisher is destroyed and the entities added so far stay in the node.\<close>

definition param_core_ctor ::
    "(string \<Rightarrow> service \<Rightarrow> 'e) \<Rightarrow> (string \<Rightarrow> service_calls) \<Rightarrow> string \<Rightarrow> writer_calls \<Rightarrow>
     ('e node \<times> dds_call list, publisher) eff" where
  "param_core_ctor wrap calls event_type wc =
     ebind (on_dds (publisher_ctor ''/parameter_events'' qos_ParameterEvents False event_type wc)) (\<lambda>p.
     ebind (ecatch (efor (register_param_service wrap calls) param_service_suffixes)
              (\<lambda>e. ebind (on_dds (writer_dtor (p_writer p))) (\<lambda>_. ethrow e))) (\<lambda>_.
     ereturn p))"

text \<open>\<^verbatim>\<open>Node::params()\<close>: the core is created by the first use.\<close>

definition node_params ::
    "('e node \<times> dds_call list, publisher) eff \<Rightarrow>
     ('e node \<times> dds_call list) \<times> publisher option \<Rightarrow>
     publisher result \<times> ('e node \<times> dds_call list) \<times> publisher option" where
  "node_params ctor st =
     (case snd st of
        Some core \<Rightarrow> (Inr core, st)
      | None \<Rightarrow> (case ctor (fst st) of
                   (Inl e, s) \<Rightarrow> (Inl e, s, None)
                 | (Inr core, s) \<Rightarrow> (Inr core, s, Some core)))"

section \<open>Conversions\<close>

lemma type_byte_of_byte [simp]: "type_byte (type_of_byte b) = b"
  by (auto simp: type_of_byte_def)

lemma to_from_rcl_value [simp]: "to_rcl_value (from_rcl_value v) = v"
  by (simp add: to_rcl_value_def from_rcl_value_def)

lemma now_stamp_split:
  assumes "0 \<le> now" "now < 2 ^ 31 * 1000000000"
  shows "uint (ts_sec (now_stamp now)) * 1000000000 + uint (ts_nanosec (now_stamp now)) = now \<and>
    uint (ts_nanosec (now_stamp now)) < 1000000000"
proof -
  have d: "now sdiv 1000000000 = now div 1000000000" "now smod 1000000000 = now mod 1000000000"
    using assms by (simp_all add: signed_divide_int_def signed_modulo_int_def sgn_if)
  have m: "1000000000 * (now div 1000000000) + now mod 1000000000 = now"
    "0 \<le> now mod 1000000000" "now mod 1000000000 < 1000000000" by simp_all
  have "now div 1000000000 < 2 ^ 32" using m assms(2) by (simp del: mult_div_mod_eq)
  moreover have "now mod 1000000000 < 2 ^ 32" using m by simp
  ultimately have "uint (ts_sec (now_stamp now)) = now div 1000000000"
    "uint (ts_nanosec (now_stamp now)) = now mod 1000000000"
    using assms(1) by (simp_all add: now_stamp_def d uint_word_of_int_eq take_bit_eq_mod pos_imp_zdiv_nonneg_iff)
  then show ?thesis by simp
qed


section \<open>The store refines a map\<close>

datatype param_op = Declare string parameter_value | Assign string parameter_value

fun param_run :: "param_env \<Rightarrow> param_op \<Rightarrow> param_state \<Rightarrow> param_state" where
  "param_run pe (Declare n v) st = snd (param_declare pe n v st)"
| "param_run pe (Assign n v) st = snd (param_set pe n v st)"

text \<open>The abstract store: a declaration is effective once, an assignment only on a declared name.\<close>

fun spec_op :: "param_op \<Rightarrow> (string \<Rightarrow> parameter_value option) \<Rightarrow> string \<Rightarrow> parameter_value option" where
  "spec_op (Declare n v) m = (if n = [] \<or> m n \<noteq> None then m else m(n \<mapsto> v))"
| "spec_op (Assign n v) m = (if m n = None then m else m(n \<mapsto> v))"

lemma publish_event_values [simp]: "ps_values (snd (publish_event_locked pe n v b st)) = ps_values st"
  by (simp add: publish_event_locked_def split: prod.splits)

lemma param_declare_values:
  "ps_values (snd (param_declare pe n v st)) =
     (if n = [] \<or> om_find (ps_values st) n \<noteq> None then ps_values st else om_upd n v (ps_values st))"
  by (simp add: param_declare_def Let_def)

lemma param_set_values:
  "ps_values (snd (param_set pe n v st)) =
     (if om_find (ps_values st) n = None then ps_values st else om_upd n v (ps_values st))"
proof (cases "om_find (ps_values st) n")
  case (Some old)
  let ?st = "st\<lparr>ps_values := om_upd n v (ps_values st)\<rparr>"
  obtain r st1 where p: "publish_event_locked pe n v (pv_type old = PT_NotSet) ?st = (r, st1)"
    by fastforce
  have "ps_values st1 = om_upd n v (ps_values st)"
    using publish_event_values [of pe n v "pv_type old = PT_NotSet" ?st] p by simp
  with Some p show ?thesis by (cases r) (simp_all add: param_set_def Let_def ebind_def)
qed (simp add: param_set_def)

lemma param_run_ok: "om_ok (ps_values st) \<Longrightarrow> om_ok (ps_values (param_run pe x st))"
  by (cases x) (simp_all add: param_declare_values param_set_values)

lemma param_run_abs: "om_find (ps_values (param_run pe x st)) = spec_op x (om_find (ps_values st))"
  by (cases x) (auto simp: param_declare_values param_set_values fun_eq_iff)

text \<open>C6: The parameter store refines a map from names to values: after any sequence of declarations and
  assignments, whether or not publishing their events succeeds, every read returns what the map
  gives, and an undeclared name is an error.\<close>

theorem param_store_refines_map:
  "om_ok (ps_values (fold (param_run pe) ops param_state_init)) \<and>
   param_get_or n (fold (param_run pe) ops param_state_init) = fold spec_op ops Map.empty n \<and>
   param_get n (fold (param_run pe) ops param_state_init) =
     (case fold spec_op ops Map.empty n of
        None \<Rightarrow> Inl (InvalidArguments (''parameter not declared: '' @ n)) | Some v \<Rightarrow> Inr v)"
proof -
  have ok: "om_ok (ps_values (fold (param_run pe) ops st))" if "om_ok (ps_values st)" for st
    using that by (induction ops arbitrary: st) (simp_all add: param_run_ok)
  have abs: "om_find (ps_values (fold (param_run pe) ops st)) = fold spec_op ops (om_find (ps_values st))" for st
    by (induction ops arbitrary: st) (simp_all add: param_run_abs)
  have "om_find (ps_values param_state_init) = Map.empty"
    by (simp add: param_state_init_def fun_eq_iff)
  with abs [of param_state_init] ok [of param_state_init] show ?thesis
    by (simp add: param_get_or_def param_get_def param_state_init_def)
qed


section \<open>Events\<close>

definition event_ready :: "param_env \<Rightarrow> bool" where
  "event_ready pe \<longleftrightarrow> (\<forall>ev. write_ready (pe_we pe) (payload (pe_ser pe ev cdr_writer_init)))"

lemma publish_event_ready:
  assumes "event_ready pe"
  shows "publish_event_locked pe n v b st =
    (Inr (), st\<lparr>ps_events := ps_events st @ [wire_of (pe_ser pe) (parameter_event_of pe (ps_events st) n v b)]\<rparr>)"
  using assms
  by (simp add: publish_event_locked_def publish_def ebind_def event_ready_def writer_write_ready
      wire_of_def Let_def)

text \<open>An effective assignment of a set value publishes exactly one event: it names the node and the
  parameter, carries the new value, and lists it as new exactly when the parameter had no value
  before; an assignment to an undeclared name returns false and publishes nothing.\<close>

theorem param_set_event:
  assumes "event_ready pe" "pv_type v \<noteq> PT_NotSet"
  shows "(case om_find (ps_values st) n of
      None \<Rightarrow> param_set pe n v st = (Inr False, st)
    | Some old \<Rightarrow> \<exists>ev. param_set pe n v st =
          (Inr True, st\<lparr>ps_values := om_upd n v (ps_values st), ps_events := ps_events st @ [wire_of (pe_ser pe) ev]\<rparr>) \<and>
        ev_node ev = pe_fq_name pe \<and>
        ev_new ev @ ev_changed ev = [\<lparr>rp_name = n, rp_value = to_rcl_value v\<rparr>] \<and>
        (ev_new ev \<noteq> [] \<longleftrightarrow> pv_type old = PT_NotSet))"
  using assms
  by (auto simp: param_set_def Let_def ebind_def publish_event_ready parameter_event_of_def split: option.splits)

definition demo_param_env :: param_env where
  "demo_param_env = \<lparr>pe_fq_name = ''/n'', pe_ser = (\<lambda>ev. write_string (ev_node ev)), pe_we = demo_writer_env,
     pe_pub = \<lparr>p_ros_topic = ''/parameter_events'', p_writer = \<lparr>wr_handle = 1\<rparr>\<rparr>, pe_clock = (\<lambda>_. 0)\<rparr>"

lemma demo_event_ready: "event_ready demo_param_env"
  by (simp add: event_ready_def demo_param_env_def)

definition demo_params :: param_state where
  "demo_params = \<lparr>ps_values = [(''a.b.c'', parameter_value_init), (''x'', to_value_bool True)], ps_events = []\<rparr>"

theorem param_set_event_witness:
  "\<exists>ev. param_set demo_param_env ''x'' (to_value_string ''on'') demo_params =
      (Inr True, demo_params\<lparr>ps_values := om_upd ''x'' (to_value_string ''on'') (ps_values demo_params),
        ps_events := ps_events demo_params @ [wire_of (pe_ser demo_param_env) ev]\<rparr>) \<and>
    ev_node ev = ''/n'' \<and> ev_new ev @ ev_changed ev = [\<lparr>rp_name = ''x'', rp_value = to_rcl_value (to_value_string ''on'')\<rparr>] \<and>
    (ev_new ev \<noteq> [] \<longleftrightarrow> False)"
proof -
  have f: "om_find (ps_values demo_params) ''x'' = Some (to_value_bool True)"
    by (simp add: demo_params_def om_find_def)
  have t: "pv_type (to_value_string ''on'') \<noteq> PT_NotSet" by (simp add: to_value_string_def)
  have "pv_type (to_value_bool True) \<noteq> PT_NotSet" "pe_fq_name demo_param_env = ''/n''"
    by (simp_all add: to_value_bool_def demo_param_env_def)
  with param_set_event [OF demo_event_ready t, where st = demo_params and n = "''x''"] f show ?thesis by simp
qed

section \<open>Answers of the services\<close>

text \<open>The read services answer position by position and agree with each other and with \<^verbatim>\<open>get\<close>: a
  declared name gives its stored value and type, an undeclared one the value and type not-set; a
  value that came over the wire reads back unchanged.\<close>

theorem read_services_agree:
  "length (handle_get names st) = length names \<and> length (handle_get_types names st) = length names \<and>
   map rv_type (handle_get names st) = handle_get_types names st \<and>
   map pd_type (handle_describe names st) = handle_get_types names st \<and>
   map pd_name (handle_describe names st) = names \<and>
   (\<forall>i < length names. handle_get names st ! i =
      (case param_get (names ! i) st of Inr v \<Rightarrow> to_rcl_value v | Inl _ \<Rightarrow> rcl_parameter_value_init)) \<and>
   (\<forall>n v. handle_get [n] (st\<lparr>ps_values := om_upd n (from_rcl_value v) (ps_values st)\<rparr>) = [v])"
proof -
  have "rv_type (to_rcl_value v) = type_byte (pv_type v)" "rv_type rcl_parameter_value_init = type_byte PT_NotSet"
    for v by (simp_all add: to_rcl_value_def rcl_parameter_value_init_def)
  then show ?thesis
    by (auto simp: handle_get_def handle_get_types_def handle_describe_def param_get_def comp_def
        split: option.splits)
qed

theorem read_services_agree_witness:
  "length (handle_get [''x'', ''y''] demo_params) = length [''x'', ''y''] \<and>
   handle_get [''x'', ''y''] demo_params ! 1 = rcl_parameter_value_init"
proof -
  have p: "param_get ([''x'', ''y''] ! 1) demo_params = Inl (InvalidArguments ''parameter not declared: y'')"
    by (simp add: param_get_def demo_params_def om_find_def)
  show ?thesis
    using read_services_agree [of "[''x'', ''y'']" demo_params] p by simp
qed

lemma dot_prefixes_set:
  "set (dot_prefixes name pos) = {take i name | i. pos \<le> i \<and> i < length name \<and> name ! i = CHR ''.''}"
proof (induction name pos rule: dot_prefixes.induct)
  case (1 name pos)
  show ?case
  proof (cases "str_find_from ''.'' name pos")
    case None
    have "name ! i \<noteq> CHR ''.''" if "pos \<le> i" "i < length name" for i
    proof
      assume "name ! i = CHR ''.''"
      then have "CHR ''.'' \<in> set (drop pos name)"
        using that by (intro in_set_conv_nth [THEN iffD2] exI [of _ "i - pos"]) simp
      with None that show False by (auto simp: str_find_from_def str_find_char_None_iff split: if_splits)
    qed
    with None show ?thesis by (subst dot_prefixes.simps) auto
  next
    case (Some dot)
    then obtain k where k: "str_find ''.'' (drop pos name) = Some k" "dot = k + pos" "pos \<le> length name"
      by (auto simp: str_find_from_def split: if_splits)
    from str_find_char_SomeD [OF k(1)] k(2,3)
    have dot: "pos \<le> dot" "dot < length name" "name ! dot = CHR ''.''"
      and first: "\<And>j. j < k \<Longrightarrow> name ! (pos + j) \<noteq> CHR ''.''"
      by (auto simp: add.commute)
    have "name ! i \<noteq> CHR ''.''" if "pos \<le> i" "i < dot" for i
      using first [of "i - pos"] that k(2) by simp
    then have split: "pos \<le> i \<and> i < length name \<and> name ! i = CHR ''.'' \<longleftrightarrow>
        i = dot \<or> dot + 1 \<le> i \<and> i < length name \<and> name ! i = CHR ''.''" for i
      using dot by (cases "i < dot"; cases "i = dot") auto
    have "set (dot_prefixes name pos) = insert (take dot name) (set (dot_prefixes name (dot + 1)))"
      using Some by (subst dot_prefixes.simps) (simp add: substr_def)
    also have "\<dots> = {take i name | i. pos \<le> i \<and> i < length name \<and> name ! i = CHR ''.''}"
      unfolding 1 [OF Some] split by blast
    finally show ?thesis .
  qed
qed

lemma prefix_ok_recursive:
  "prefix_ok 0 parts ps \<longleftrightarrow>
     (\<exists>p \<in> set ps. length (tokenize p) \<le> length parts \<and> take (length (tokenize p)) parts = tokenize p)"
  by (induction ps) (auto simp: Let_def)

text \<open>\<^verbatim>\<open>list_parameters\<close> returns, sorted and without duplicates, exactly the declared names the request
  selects, and exactly the proper dotted prefixes of those names; a recursive request selects the
  names below any of the prefixes (all names when there is none).\<close>

theorem handle_list_spec:
  assumes "om_ok (ps_values st)"
  shows "sorted_wrt (<) (lr_names (handle_list ps d st)) \<and>
    set (lr_names (handle_list ps d st)) = {n \<in> set (om_keys (ps_values st)). list_matches ps d n} \<and>
    sorted_wrt (<) (lr_prefixes (handle_list ps d st)) \<and>
    set (lr_prefixes (handle_list ps d st)) =
      {take i n | i n. n \<in> set (lr_names (handle_list ps d st)) \<and> i < length n \<and> n ! i = CHR ''.''} \<and>
    (list_matches ps 0 n \<longleftrightarrow> ps = [] \<or>
       (\<exists>p \<in> set ps. length (tokenize p) \<le> length (tokenize n) \<and>
          take (length (tokenize p)) (tokenize n) = tokenize p))"
proof -
  have "sorted_wrt (<) (filter (list_matches ps d) (om_keys (ps_values st)))"
    using assms by (simp add: om_ok_def sorted_wrt_filter)
  then have "sorted (filter (list_matches ps d) (om_keys (ps_values st)))"
    and distinct: "distinct (filter (list_matches ps d) (om_keys (ps_values st)))"
    by (simp_all add: strict_sorted_iff)
  then have "sort (filter (list_matches ps d) (om_keys (ps_values st))) =
      filter (list_matches ps d) (om_keys (ps_values st))"
    by (simp add: sorted_sort_id)
  then show ?thesis
    using \<open>sorted_wrt (<) (filter _ _)\<close> sorted_fold_os_insert [of "[]"]
    by (auto simp: handle_list_def Let_def dot_prefixes_set list_matches_def prefix_ok_recursive)
qed

theorem handle_list_spec_witness:
  "lr_names (handle_list [''a''] 0 demo_params) = [''a.b.c''] \<and>
   set (lr_prefixes (handle_list [''a''] 0 demo_params)) =
     {take i n | i n. n \<in> set (lr_names (handle_list [''a''] 0 demo_params)) \<and> i < length n \<and> n ! i = CHR ''.''}"
proof -
  have "lr_names (handle_list [''a''] 0 demo_params) = [''a.b.c'']" by code_simp
  moreover have "om_ok (ps_values demo_params)" by code_simp
  ultimately show ?thesis using handle_list_spec [of demo_params "[''a'']" 0] by blast
qed

text \<open>With a depth limit the first prefix that matches decides and the later ones are not tried: the
  same request with its prefixes in another order selects other parameters.\<close>

theorem list_depends_on_prefix_order:
  "lr_names (handle_list [''a'', ''a.b''] 1 demo_params) = [] \<and>
   lr_names (handle_list [''a.b'', ''a''] 1 demo_params) = [''a.b.c'']"
  by code_simp

section \<open>Writing several parameters\<close>

definition assignments :: "rcl_parameter list \<Rightarrow> (string, parameter_value) store_op list" where
  "assignments ps = map (\<lambda>p. Put (rp_name p) (from_rcl_value (rp_value p))) ps"

lemma param_set_declared:
  assumes "event_ready pe" "om_find (ps_values st) n \<noteq> None"
  shows "\<exists>ws. param_set pe n v st = (Inr True, st\<lparr>ps_values := om_upd n v (ps_values st), ps_events := ws\<rparr>)"
proof (cases "pv_type v = PT_NotSet")
  case True
  then show ?thesis using assms(2)
    by (auto simp: param_set_def Let_def intro: exI [of _ "ps_events st"])
next
  case False
  then show ?thesis using assms
    by (auto simp: param_set_def Let_def ebind_def publish_event_ready)
qed

lemma efor_set_declared:
  assumes "event_ready pe" "\<forall>p \<in> set ps. om_find (ps_values st) (rp_name p) \<noteq> None"
  shows "\<exists>st'. efor (\<lambda>p. ebind (param_set pe (rp_name p) (from_rcl_value (rp_value p))) (\<lambda>_. ereturn ())) ps st =
      (Inr (), st') \<and> ps_values st' = store_run om_upd om_erase (assignments ps) (ps_values st)"
  using assms(2)
proof (induction ps arbitrary: st)
  case Nil
  then show ?case by (simp add: store_run_def assignments_def)
next
  case (Cons p ps)
  let ?v = "from_rcl_value (rp_value p)"
  obtain ws where ws: "param_set pe (rp_name p) ?v st =
      (Inr True, st\<lparr>ps_values := om_upd (rp_name p) ?v (ps_values st), ps_events := ws\<rparr>)"
    using param_set_declared [OF assms(1), of st "rp_name p"] Cons.prems by auto
  let ?st = "st\<lparr>ps_values := om_upd (rp_name p) ?v (ps_values st), ps_events := ws\<rparr>"
  have "\<forall>q \<in> set ps. om_find (ps_values ?st) (rp_name q) \<noteq> None" using Cons.prems by simp
  from Cons.IH [OF this] ws show ?case
    by (auto simp: ebind_def store_run_def assignments_def)
qed

text \<open>C35: \<^verbatim>\<open>set_parameters_atomically\<close> is all or nothing as far as declarations go: with an undeclared name in
  the request nothing changes and the answer is a failure; otherwise, when the events can be
  written, it succeeds and every parameter has the last value the request gives it, all others
  keeping theirs.\<close>

theorem set_atomically_all_or_nothing:
  assumes "event_ready pe" "handle_set_atomically pe ps st = (r, st')"
  shows "if \<exists>p \<in> set ps. om_find (ps_values st) (rp_name p) = None
    then st' = st \<and> (\<exists>x. r = Inr x \<and> \<not> sr_successful x)
    else (\<exists>x. r = Inr x \<and> sr_successful x) \<and>
      (\<forall>n. param_get_or n st' =
         (case last_op n (assignments ps) of Some v \<Rightarrow> v | None \<Rightarrow> param_get_or n st))"
proof (cases "\<exists>p \<in> set ps. om_find (ps_values st) (rp_name p) = None")
  case True
  then have "handle_set_atomically pe ps st =
      (Inr \<lparr>sr_successful = False, sr_reason = ''parameters not declared: '' @ undeclared_reason st ps\<rparr>, st)"
    unfolding handle_set_atomically_def by (rule if_P)
  with True assms(2) show ?thesis by auto
next
  case False
  then have all: "\<forall>p \<in> set ps. om_find (ps_values st) (rp_name p) \<noteq> None" by simp
  from efor_set_declared [OF assms(1) all] obtain st1 where
    run: "efor (\<lambda>p. ebind (param_set pe (rp_name p) (from_rcl_value (rp_value p))) (\<lambda>_. ereturn ())) ps st = (Inr (), st1)"
    and vals: "ps_values st1 = store_run om_upd om_erase (assignments ps) (ps_values st)" by blast
  have "r = Inr \<lparr>sr_successful = True, sr_reason = []\<rparr> \<and> st' = st1"
    using assms(2) run unfolding handle_set_atomically_def if_not_P [OF False] by (simp add: ebind_def)
  with False show ?thesis by (simp add: param_get_or_def vals om.run_find split: option.splits)
qed

definition demo_request :: "rcl_parameter list" where
  "demo_request = [\<lparr>rp_name = ''x'', rp_value = to_rcl_value (to_value_bool False)\<rparr>,
                   \<lparr>rp_name = ''a.b.c'', rp_value = to_rcl_value (to_value_bool True)\<rparr>]"

theorem set_atomically_all_or_nothing_witness:
  "param_get_or ''x'' (snd (handle_set_atomically demo_param_env demo_request demo_params)) =
     Some (to_value_bool False)"
proof -
  obtain r st' where run: "handle_set_atomically demo_param_env demo_request demo_params = (r, st')"
    by fastforce
  have decl: "\<not> (\<exists>p \<in> set demo_request. om_find (ps_values demo_params) (rp_name p) = None)"
    by code_simp
  have "last_op ''x'' (assignments demo_request) = Some (Some (to_value_bool False))"
    by code_simp
  then show ?thesis
    using set_atomically_all_or_nothing [OF demo_event_ready run] run unfolding if_not_P [OF decl] by simp
qed

text \<open>It is not atomic when an event cannot be written: the first parameter is already changed when
  the handler throws, and the others are not.\<close>

theorem set_atomically_stops_half_way:
  assumes "we_accept (pe_we pe) = (\<lambda>_. False)"
    and "\<forall>q \<in> set (p # ps). om_find (ps_values st) (rp_name q) \<noteq> None"
    and "pv_type (from_rcl_value (rp_value p)) \<noteq> PT_NotSet"
  shows "handle_set_atomically pe (p # ps) st =
    (Inl (InternalError (''publish failed on '' @ p_ros_topic (pe_pub pe))),
     st\<lparr>ps_values := om_upd (rp_name p) (from_rcl_value (rp_value p)) (ps_values st)\<rparr>)"
proof -
  have fail: "publish_event_locked pe n v b st1 =
      (Inl (InternalError (''publish failed on '' @ p_ros_topic (pe_pub pe))), st1)" for n v b st1
    using raw_from_ser_iov_total [of "we_alloc (pe_we pe)"
        "payload (pe_ser pe (parameter_event_of pe (ps_events st1) n v b) cdr_writer_init)"] assms(1)
    by (auto simp: publish_event_locked_def publish_def writer_write_def ebind_def
        raw_serdata_from_blob_def mem_read_def split: option.splits)
  have no: "\<not> (\<exists>q \<in> set (p # ps). om_find (ps_values st) (rp_name q) = None)" using assms(2) by blast
  obtain old where "om_find (ps_values st) (rp_name p) = Some old" using assms(2) by auto
  then show ?thesis
    unfolding handle_set_atomically_def if_not_P [OF no]
    using assms(3) by (simp add: ebind_def param_set_def Let_def fail)
qed

theorem set_atomically_stops_half_way_witness:
  "handle_set_atomically (demo_param_env\<lparr>pe_we := demo_writer_env\<lparr>we_accept := \<lambda>_. False\<rparr>\<rparr>) demo_request demo_params =
    (Inl (InternalError ''publish failed on /parameter_events''),
     demo_params\<lparr>ps_values := om_upd ''x'' (to_value_bool False) (ps_values demo_params)\<rparr>)"
proof -
  let ?pe = "demo_param_env\<lparr>pe_we := demo_writer_env\<lparr>we_accept := \<lambda>_. False\<rparr>\<rparr>"
  have v: "from_rcl_value (to_rcl_value (to_value_bool b)) = to_value_bool b" for b
    by (simp add: from_rcl_value_def to_rcl_value_def to_value_bool_def parameter_value_init_def type_of_byte_def)
  have decl: "\<forall>q \<in> set (hd demo_request # tl demo_request). om_find (ps_values demo_params) (rp_name q) \<noteq> None"
    by code_simp
  have t: "pv_type (from_rcl_value (rp_value (hd demo_request))) \<noteq> PT_NotSet"
    by (simp add: demo_request_def v) (simp add: to_value_bool_def)
  show ?thesis
    using set_atomically_stops_half_way [of ?pe, OF _ decl t]
    by (simp add: demo_request_def v demo_param_env_def)
qed

section \<open>Registration of the services\<close>

lemma register_cases:
  assumes "register_param_service wrap calls x (n, tr) = (r, n', tr')"
  shows "(\<exists>e. r = Inl e \<and> n' = n) \<or>
    (\<exists>s. r = Inr () \<and> n' = add_entity (wrap x s) n \<and> sv_ros_service s = n_fq_name n @ ''/'' @ x)"
proof -
  let ?sc = "calls x"
  obtain r1 tr1 where c: "service_ctor (n_fq_name n @ ''/'' @ x) qos_Parameters (sc_request_name ?sc)
      (sc_response_name ?sc) (sc_reader ?sc) (sc_writer ?sc) tr = (r1, tr1)"
    by fastforce
  show ?thesis
  proof (cases r1)
    case (Inl e)
    then show ?thesis using assms c by (auto simp: register_param_service_def ebind_def on_dds_def)
  next
    case (Inr s)
    then show ?thesis
      using assms c service_ctor_topic [OF c [unfolded Inr]]
      by (auto simp: register_param_service_def ebind_def on_dds_def)
  qed
qed

lemma efor_register_cases:
  "efor (register_param_service wrap calls) xs (n, tr) = (r, n', tr') \<Longrightarrow>
   \<exists>k ss. k \<le> length xs \<and> (case r of Inr _ \<Rightarrow> k = length xs | Inl _ \<Rightarrow> k < length xs) \<and>
     map sv_ros_service ss = map (\<lambda>x. n_fq_name n @ ''/'' @ x) (take k xs) \<and>
     n_entities n' = n_entities n @ map2 wrap (take k xs) ss \<and> n_fq_name n' = n_fq_name n"
proof (induction xs arbitrary: n tr)
  case Nil
  then show ?case by auto
next
  case (Cons x xs)
  obtain r1 n1 tr1 where reg: "register_param_service wrap calls x (n, tr) = (r1, n1, tr1)"
    by (metis prod_cases3)
  from register_cases [OF this] show ?case
  proof (elim disjE exE conjE)
    fix e
    assume "r1 = Inl e" "n1 = n"
    then show ?thesis using Cons.prems reg by (intro exI [of _ 0]) (auto simp: ebind_def)
  next
    fix s
    assume s: "r1 = Inr ()" "n1 = add_entity (wrap x s) n" "sv_ros_service s = n_fq_name n @ ''/'' @ x"
    with Cons.prems reg have "efor (register_param_service wrap calls) xs (n1, tr1) = (r, n', tr')"
      by (simp add: ebind_def)
    from Cons.IH [OF this] obtain k ss where
      "k \<le> length xs" "case r of Inr _ \<Rightarrow> k = length xs | Inl _ \<Rightarrow> k < length xs"
      "map sv_ros_service ss = map (\<lambda>x. n_fq_name n1 @ ''/'' @ x) (take k xs)"
      "n_entities n' = n_entities n1 @ map2 wrap (take k xs) ss" "n_fq_name n' = n_fq_name n1"
      by blast
    with s show ?thesis
      by (intro exI [of _ "Suc k"] exI [of _ "s # ss"]) (auto simp: add_entity_def split: sum.splits)
  qed
qed

text \<open>The parameter core registers its six services on the node under the node's name, in order; when
  its constructor throws, a proper prefix of them has been registered and stays registered.\<close>

theorem param_core_registers:
  assumes "param_core_ctor wrap calls ty wc (n, tr) = (r, n', tr')"
  shows "\<exists>k ss. k \<le> 6 \<and> (case r of Inr _ \<Rightarrow> k = 6 | Inl _ \<Rightarrow> k < 6) \<and>
    map sv_ros_service ss = map (\<lambda>x. n_fq_name n @ ''/'' @ x) (take k param_service_suffixes) \<and>
    n_entities n' = n_entities n @ map2 wrap (take k param_service_suffixes) ss"
proof -
  obtain rp trp where p: "publisher_ctor ''/parameter_events'' qos_ParameterEvents False ty wc tr = (rp, trp)"
    by fastforce
  show ?thesis
  proof (cases rp)
    case (Inl e)
    then show ?thesis
      using assms p by (intro exI [of _ 0] exI [of _ "[]"]) (auto simp: param_core_ctor_def ebind_def on_dds_def)
  next
    case (Inr pub)
    obtain re ne tre where e: "efor (register_param_service wrap calls) param_service_suffixes (n, trp) = (re, ne, tre)"
      by (metis prod_cases3)
    have six: "length param_service_suffixes = 6" by (simp add: param_service_suffixes_def)
    have n': "n' = ne" "(\<exists>x. r = Inr x) \<longleftrightarrow> (\<exists>x. re = Inr x)"
      using assms p e Inr
      by (auto simp: param_core_ctor_def ebind_def on_dds_def ecatch_def split: sum.splits if_splits prod.splits)
    from efor_register_cases [OF e] show ?thesis
      unfolding six n'(1) using n'(2) by (cases r; cases re) auto
  qed
qed

definition demo_calls :: "nat \<Rightarrow> string \<Rightarrow> service_calls" where
  "demo_calls bad x =
     \<lparr>sc_reader = demo_reader_calls\<lparr>rdc_reader := (if length x = bad then - 1 else 11)\<rparr>,
      sc_writer = \<lparr>wc_sertype = True, wc_qos = True, wc_topic = 20, wc_writer = 21\<rparr>,
      sc_request_name = ''Q'', sc_response_name = ''R''\<rparr>"

theorem param_core_registers_witness:
  "\<exists>r n' tr'. param_core_ctor (\<lambda>x s. length x) (demo_calls 0) ''E''
      \<lparr>wc_sertype = True, wc_qos = True, wc_topic = 30, wc_writer = 31\<rparr> (demo_node, []) = (r, n', tr') \<and>
    (\<exists>k (ss :: service list). k \<le> 6 \<and> (case r of Inr _ \<Rightarrow> k = 6 | Inl _ \<Rightarrow> k < 6) \<and>
    map sv_ros_service ss = map (\<lambda>x. n_fq_name demo_node @ ''/'' @ x) (take k param_service_suffixes) \<and>
    n_entities n' = n_entities demo_node @ map2 (\<lambda>x s. length x) (take k param_service_suffixes) ss)"
proof -
  obtain r n' tr' where run: "param_core_ctor (\<lambda>x s. length x) (demo_calls 0) ''E''
      \<lparr>wc_sertype = True, wc_qos = True, wc_topic = 30, wc_writer = 31\<rparr> (demo_node, []) = (r, n', tr')"
    by (metis prod_cases3)
  show ?thesis by (rule exI, rule exI, rule exI, rule conjI [OF run param_core_registers [OF run]])
qed

text \<open>Entities of a core that was never built: when creating the reader of the third service fails, the
  constructor throws and the object its callbacks point to is gone, but the first two services are
  still entities of the node, which an executor will dispatch.\<close>

theorem param_core_leaves_entities:
  "\<exists>e n' tr'. param_core_ctor (\<lambda>x s. length x) (demo_calls (length ''get_parameters'')) ''E''
      \<lparr>wc_sertype = True, wc_qos = True, wc_topic = 30, wc_writer = 31\<rparr> (demo_node, []) = (Inl e, n', tr') \<and>
    n_entities n' = [length ''describe_parameters'', length ''get_parameter_types'']"
proof -
  have "case param_core_ctor (\<lambda>x s. length x) (demo_calls (length ''get_parameters'')) ''E''
      \<lparr>wc_sertype = True, wc_qos = True, wc_topic = 30, wc_writer = 31\<rparr> (demo_node, []) of
      (r, n', tr') \<Rightarrow> \<not> isl r = False \<and>
        n_entities n' = [length ''describe_parameters'', length ''get_parameter_types'']"
    by code_simp
  then show ?thesis by (auto simp: isl_def split: prod.splits)
qed


section \<open>Typed parameters\<close>

text \<open>A value in which only the member its type selects differs from the initial one.\<close>

definition well_typed :: "parameter_value \<Rightarrow> bool" where
  "well_typed v \<longleftrightarrow>
     (pv_type v \<noteq> PT_Bool \<longrightarrow> \<not> pv_bool v) \<and> (pv_type v \<noteq> PT_Integer \<longrightarrow> pv_integer v = 0) \<and>
     (pv_type v \<noteq> PT_Double \<longrightarrow> pv_double v = 0) \<and> (pv_type v \<noteq> PT_String \<longrightarrow> pv_string v = []) \<and>
     (pv_type v \<noteq> PT_ByteArray \<longrightarrow> pv_byte_array v = []) \<and> (pv_type v \<noteq> PT_BoolArray \<longrightarrow> pv_bool_array v = []) \<and>
     (pv_type v \<noteq> PT_IntegerArray \<longrightarrow> pv_integer_array v = []) \<and>
     (pv_type v \<noteq> PT_DoubleArray \<longrightarrow> pv_double_array v = []) \<and>
     (pv_type v \<noteq> PT_StringArray \<longrightarrow> pv_string_array v = [])"

lemmas to_value_defs = to_value_bool_def to_value_int64_def to_value_int_def to_value_double_def to_value_string_def
  to_value_string_array_def parameter_value_init_def

lemma well_typed_to_value [simp]:
  "well_typed (to_value_bool b)" "well_typed (to_value_int64 i)" "well_typed (to_value_int j)"
  "well_typed (to_value_double d)" "well_typed (to_value_string s)" "well_typed (to_value_string_array ss)"
  by (simp_all add: well_typed_def to_value_defs)

fun op_typed :: "(string \<Rightarrow> param_type) \<Rightarrow> param_op \<Rightarrow> bool" where
  "op_typed types (Declare n v) \<longleftrightarrow> well_typed v \<and> pv_type v = types n"
| "op_typed types (Assign n v) \<longleftrightarrow> well_typed v \<and> pv_type v = types n"

definition store_typed :: "(string \<Rightarrow> param_type) \<Rightarrow> param_state \<Rightarrow> bool" where
  "store_typed types st \<longleftrightarrow> (\<forall>n v. om_find (ps_values st) n = Some v \<longrightarrow> well_typed v \<and> pv_type v = types n)"

lemma param_run_typed: "op_typed types x \<Longrightarrow> store_typed types st \<Longrightarrow> store_typed types (param_run pe x st)"
  by (cases x) (auto simp: store_typed_def param_declare_values param_set_values split: if_splits)

lemma param_runs_typed:
  assumes "list_all (op_typed types) xs" "store_typed types st"
  shows "store_typed types (fold (param_run pe) xs st)"
  using assms by (induction xs arbitrary: st) (auto intro: param_run_typed)



end
