(* ===== verification/Graph_Executor.thy ===== *)
theory Graph_Executor
  imports Parameter Executor Graph
begin

text \<open>
  The topology launcher (\<^verbatim>\<open>graph_executor.hpp\<close>, \<^verbatim>\<open>graph_executor.cpp\<close>): reading a topology document,
  building its nodes, parameters and raw endpoints on one executor, publishing, and the status report.

  The JSON library and the registry of node classes come from \<^verbatim>\<open>vila\<close>: the record \<open>json_api\<close> and the
  field \<open>gv_create\<close> are parameters.  A JSON value has an abstract type \<open>'j\<close>.  Shared objects (nodes, raw
  publishers, raw subscriptions) are addressed by \<^verbatim>\<open>nat\<close>.  A \<^verbatim>\<open>double\<close> is its bit pattern.
\<close>

section \<open>Parameters\<close>

record 'j json_api =
  jp_parse :: "string \<Rightarrow> 'j result"
  jp_object :: 'j
  jp_is_object :: "'j \<Rightarrow> bool"
  jp_is_array :: "'j \<Rightarrow> bool"
  jp_is_boolean :: "'j \<Rightarrow> bool"
  jp_is_number_integer :: "'j \<Rightarrow> bool"
  jp_is_number_float :: "'j \<Rightarrow> bool"
  jp_is_string :: "'j \<Rightarrow> bool"
  jp_contains :: "'j \<Rightarrow> string \<Rightarrow> bool"
  jp_empty :: "'j \<Rightarrow> bool"
  jp_at :: "'j \<Rightarrow> string \<Rightarrow> 'j result"
  jp_elems :: "'j \<Rightarrow> 'j list"
  jp_items :: "'j \<Rightarrow> (string \<times> 'j) list"
  jp_value_string :: "'j \<Rightarrow> string \<Rightarrow> string \<Rightarrow> string result"
  jp_value_double :: "'j \<Rightarrow> string \<Rightarrow> 64 word \<Rightarrow> 64 word result"
  jp_value_json :: "'j \<Rightarrow> string \<Rightarrow> 'j \<Rightarrow> 'j result"
  jp_get_string :: "'j \<Rightarrow> string result"
  jp_get_bool :: "'j \<Rightarrow> bool result"
  jp_get_int64 :: "'j \<Rightarrow> 64 word result"
  jp_get_double :: "'j \<Rightarrow> 64 word result"
  jp_get_size :: "'j \<Rightarrow> 64 word result"

definition jp_at_string :: "'j json_api \<Rightarrow> 'j \<Rightarrow> string \<Rightarrow> string result" where
  "jp_at_string J v k = rbind (jp_at J v k) (jp_get_string J)"


section \<open>Payloads and QoS\<close>

definition nibble :: "char \<Rightarrow> int" where
  "nibble c =
     (let k = of_char c :: int in
      if 48 \<le> k \<and> k \<le> 57 then k - 48
      else if 97 \<le> k \<and> k \<le> 102 then k - 97 + 10
      else if 65 \<le> k \<and> k \<le> 70 then k - 65 + 10
      else - 1)"

fun hex_pairs :: "string \<Rightarrow> string \<Rightarrow> byte list result" where
  "hex_pairs what [] = Inr []"
| "hex_pairs what [c] = Inl (InvalidArguments (what @ '': invalid hex digit''))"
| "hex_pairs what (c # d # rest) =
     (let hi = nibble c; lo = nibble d in
      if hi < 0 \<or> lo < 0 then Inl (InvalidArguments (what @ '': invalid hex digit''))
      else rbind (hex_pairs what rest) (\<lambda>bs. Inr (word_of_int (hi * 16 + lo) # bs)))"

definition payload_from_hex :: "string \<Rightarrow> string \<Rightarrow> byte list result" where
  "payload_from_hex hex what =
     (if length hex mod 2 \<noteq> 0 then Inl (InvalidArguments (what @ '': odd hex length''))
      else hex_pairs what hex)"

definition default_payload :: "byte list" where
  "default_payload = [0x00, 0x01, 0x00, 0x00]"

definition parse_qos :: "'j json_api \<Rightarrow> 'j \<Rightarrow> qos \<Rightarrow> qos result" where
  "parse_qos J q base =
     (if \<not> jp_is_object J q then Inr base
      else
        rbind (jp_value_string J q ''reliability'' ''reliable'') (\<lambda>rel.
        let b1 = (if rel = ''best_effort'' then set_best_effort base else base) in
        rbind (jp_value_string J q ''durability'' ''volatile'') (\<lambda>dur.
        let b2 = (if dur = ''transient_local'' then set_transient_local b1 else b1) in
        if jp_contains J q ''depth''
        then rbind (rbind (jp_at J q ''depth'') (jp_get_size J)) (\<lambda>d. Inr (keep_last d b2))
        else Inr b2)))"


section \<open>State\<close>

record raw_publisher =
  rpub_topic :: string
  rpub_type :: string
  rpub_writer :: writer
  rpub_payload :: "byte list"
  rpub_rate_hz :: "64 word"
  rpub_published :: "64 word"

record raw_subscription =
  rsub_topic :: string
  rsub_type :: string
  rsub_reader :: reader
  rsub_received :: "64 word"

text \<open>The entities of the nodes: raw subscriptions (address and reader) and those of other code.\<close>

datatype 'u gx_entity = RawSub nat reader | OtherEntity 'u

record gx_entry =
  ge_fq_name :: string
  ge_namespace :: string
  ge_node :: nat
  ge_publishers :: "nat list"
  ge_subscriptions :: "nat list"

text \<open>\<open>gx_wires\<close> is what each raw publisher has sent, \<open>gx_fresh\<close> the next free node address,
  \<open>gx_cores\<close> and \<open>gx_params\<close> the parameter core of each node, \<open>gx_members\<close> the DDS entities that the members
  of a registered class hold, \<open>gx_threads\<close> the publishers that have a thread.\<close>

record 'u gx_world =
  gx_exec :: "'u gx_entity exec_world"
  gx_build :: node_world
  gx_entries :: "gx_entry list"
  gx_pubs :: "raw_publisher list"
  gx_subs :: "raw_subscription list"
  gx_wires :: "nat \<Rightarrow> wire"
  gx_cores :: "nat \<Rightarrow> publisher option"
  gx_params :: "nat \<Rightarrow> param_state"
  gx_members :: "nat \<Rightarrow> dds_entity list"
  gx_fresh :: nat
  gx_running :: bool
  gx_threads :: "nat list"

text \<open>A node as its constructor leaves it: that of a registered class may already have declared parameters and
  created endpoints of its own.\<close>

record 'u made_node =
  mk_node :: "'u gx_entity node"
  mk_core :: "publisher option"
  mk_params :: param_state
  mk_members :: "dds_entity list"

definition plain_node :: "'u gx_entity node \<Rightarrow> 'u made_node" where
  "plain_node n = \<lparr>mk_node = n, mk_core = None, mk_params = param_state_init, mk_members = []\<rparr>"

text \<open>What the surroundings answer; the answers of CycloneDDS may depend on the calls made so far.
  \<open>gv_release\<close> lists the DDS entities that the destructor of another entity deletes.\<close>

record ('j, 'u) gx_env =
  gv_json :: "'j json_api"
  gv_node :: "dds_call list \<Rightarrow> node_env"
  gv_create :: "string \<Rightarrow> string \<Rightarrow> string \<Rightarrow> 'u made_node option building"
  gv_exec :: "'u gx_entity exec_env"
  gv_executor :: "dds_call list \<Rightarrow> executor_calls"
  gv_cond :: "'u \<Rightarrow> dds_entity"
  gv_release :: "'u \<Rightarrow> dds_entity list"
  gv_wrap :: "nat \<Rightarrow> string \<Rightarrow> service \<Rightarrow> 'u"
  gv_service :: "dds_call list \<Rightarrow> string \<Rightarrow> service_calls"
  gv_event_type :: string
  gv_param :: param_env
  gv_writer :: "dds_call list \<Rightarrow> writer_calls"
  gv_reader :: "dds_call list \<Rightarrow> reader_calls"
  gv_we :: "nat \<Rightarrow> dds_writer_env"
  gv_period :: "64 word \<Rightarrow> int"
  gv_sleep_until :: "int \<Rightarrow> 'u gx_world \<Rightarrow> 'u gx_world"

definition gx_condition :: "('u \<Rightarrow> dds_entity) \<Rightarrow> 'u gx_entity \<Rightarrow> dds_entity" where
  "gx_condition cond e = (case e of RawSub i r \<Rightarrow> rc_handle r | OtherEntity u \<Rightarrow> cond u)"

definition gx_exec_env :: "('j, 'u) gx_env \<Rightarrow> 'u gx_entity exec_env" where
  "gx_exec_env gv = (gv_exec gv)\<lparr>xe_cond_of := gx_condition (gv_cond gv)\<rparr>"

definition on_build :: "'a building \<Rightarrow> ('u gx_world, 'a) eff" where
  "on_build f w = (case f (gx_build w) of (r, b) \<Rightarrow> (r, w\<lparr>gx_build := b\<rparr>))"

definition gx_calls :: "'u gx_world \<Rightarrow> dds_call list" where
  "gx_calls w = nw_calls (gx_build w)"

definition gx_node :: "nat \<Rightarrow> 'u gx_world \<Rightarrow> 'u gx_entity node" where
  "gx_node p w = xw_nodes (gx_exec w) p"

definition gx_set_node :: "nat \<Rightarrow> 'u gx_entity node \<Rightarrow> 'u gx_world \<Rightarrow> 'u gx_world" where
  "gx_set_node p n w = w\<lparr>gx_exec := (gx_exec w)\<lparr>xw_nodes := (xw_nodes (gx_exec w))(p := n)\<rparr>\<rparr>"

text \<open>A loop that carries a value.\<close>

fun efold :: "('a \<Rightarrow> 'b \<Rightarrow> ('s, 'b) eff) \<Rightarrow> 'a list \<Rightarrow> 'b \<Rightarrow> ('s, 'b) eff" where
  "efold f [] b = ereturn b"
| "efold f (x # xs) b = ebind (f x b) (\<lambda>b'. efold f xs b')"

section \<open>Building the topology\<close>

text \<open>\<^verbatim>\<open>node.params()\<close> of the node at \<open>p\<close>, then \<^verbatim>\<open>declare\<close>.\<close>

definition gx_node_params :: "('j, 'u) gx_env \<Rightarrow> nat \<Rightarrow> ('u gx_world, publisher) eff" where
  "gx_node_params gv p w =
     (case node_params
             (param_core_ctor (\<lambda>x s. OtherEntity (gv_wrap gv p x s)) (gv_service gv (gx_calls w))
                (gv_event_type gv) (gv_writer gv (gx_calls w)))
             ((gx_node p w, gx_calls w), gx_cores w p) of
        (r, (n, tr), core) \<Rightarrow>
          (r, (gx_set_node p n w)\<lparr>gx_build := (gx_build w)\<lparr>nw_calls := tr\<rparr>, gx_cores := (gx_cores w)(p := core)\<rparr>))"

definition gx_declare :: "('j, 'u) gx_env \<Rightarrow> nat \<Rightarrow> string \<Rightarrow> parameter_value \<Rightarrow> ('u gx_world, unit) eff" where
  "gx_declare gv p name v =
     ebind (gx_node_params gv p) (\<lambda>core w.
       case param_declare ((gv_param gv)\<lparr>pe_fq_name := n_fq_name (gx_node p w), pe_pub := core\<rparr>) name v (gx_params w p) of
         (r, st) \<Rightarrow> (r, w\<lparr>gx_params := (gx_params w)(p := st)\<rparr>))"

definition declare_parameter :: "('j, 'u) gx_env \<Rightarrow> nat \<Rightarrow> string \<Rightarrow> string \<times> 'j \<Rightarrow> ('u gx_world, unit) eff" where
  "declare_parameter gv p fq kv =
     (case kv of (name, v) \<Rightarrow>
        let J = gv_json gv in
        if jp_is_boolean J v then ebind (elift (jp_get_bool J v)) (\<lambda>b. gx_declare gv p name (to_value_bool b))
        else if jp_is_number_integer J v then
          ebind (elift (jp_get_int64 J v)) (\<lambda>i. gx_declare gv p name (to_value_int64 i))
        else if jp_is_number_float J v then
          ebind (elift (jp_get_double J v)) (\<lambda>d. gx_declare gv p name (to_value_double d))
        else if jp_is_string J v then
          ebind (elift (jp_get_string J v)) (\<lambda>s. gx_declare gv p name (to_value_string s))
        else ethrow (InvalidArguments (''node '' @ fq @ '': parameter '' @ squote name @
               '' must be bool/int/double/string'')))"

text \<open>The part the two endpoint builders share: the checks, the type and the expanded topic.\<close>

definition endpoint_names :: "'j json_api \<Rightarrow> string \<Rightarrow> string \<Rightarrow> 'j \<Rightarrow> (string \<times> string) result" where
  "endpoint_names J what ns spec =
     (if \<not> jp_is_object J spec \<or> \<not> jp_contains J spec ''topic'' \<or> \<not> jp_contains J spec ''type''
      then Inl (InvalidArguments (what @ '': needs '' @ squote ''topic'' @ '' and '' @ squote ''type''))
      else
        rbind (jp_at_string J spec ''type'') (\<lambda>ty.
        rbind (dds_type_name ty) (\<lambda>dds_type.
        rbind (jp_at_string J spec ''topic'') (\<lambda>t.
        rbind (expand_topic_name t ns) (\<lambda>ros_topic.
        Inr (dds_type, ros_topic))))))"

definition endpoint_qos :: "'j json_api \<Rightarrow> 'j \<Rightarrow> qos result" where
  "endpoint_qos J spec =
     rbind (jp_value_json J spec ''qos'' (jp_object J)) (\<lambda>q. parse_qos J q qos_Default)"

definition build_publisher :: "('j, 'u) gx_env \<Rightarrow> 'j \<Rightarrow> gx_entry \<Rightarrow> ('u gx_world, gx_entry) eff" where
  "build_publisher gv spec entry =
     (let J = gv_json gv; what = ''node '' @ ge_fq_name entry @ '' publisher'' in
      ebind (elift (endpoint_names J what (ge_namespace entry) spec)) (\<lambda>(ty, ros_topic).
      ebind (elift (if jp_contains J spec ''payload_hex''
                    then rbind (jp_at_string J spec ''payload_hex'') (\<lambda>h. payload_from_hex h what)
                    else Inr default_payload)) (\<lambda>pl.
      ebind (elift (jp_value_double J spec ''rate_hz'' 0)) (\<lambda>rate.
      ebind (elift (ros_to_dds_topic_name ros_topic)) (\<lambda>dds_topic.
      ebind (elift (endpoint_qos J spec)) (\<lambda>q.
      ebind (egets gx_calls) (\<lambda>tr.
      ebind (on_build (on_calls (writer_ctor dds_topic ty q (gv_writer gv tr)))) (\<lambda>wr.
      ebind (egets (\<lambda>w. length (gx_pubs w))) (\<lambda>a.
      ebind (emodify (\<lambda>w. w\<lparr>gx_pubs := gx_pubs w @ [\<lparr>rpub_topic = ros_topic, rpub_type = ty, rpub_writer = wr,
               rpub_payload = pl, rpub_rate_hz = rate, rpub_published = 0\<rparr>]\<rparr>)) (\<lambda>_.
      ereturn (entry\<lparr>ge_publishers := ge_publishers entry @ [a]\<rparr>)))))))))))"

definition build_subscription :: "('j, 'u) gx_env \<Rightarrow> 'j \<Rightarrow> gx_entry \<Rightarrow> ('u gx_world, gx_entry) eff" where
  "build_subscription gv spec entry =
     (let J = gv_json gv; what = ''node '' @ ge_fq_name entry @ '' subscription'' in
      ebind (elift (endpoint_names J what (ge_namespace entry) spec)) (\<lambda>(ty, ros_topic).
      ebind (elift (ros_to_dds_topic_name ros_topic)) (\<lambda>dds_topic.
      ebind (elift (endpoint_qos J spec)) (\<lambda>q.
      ebind (egets gx_calls) (\<lambda>tr.
      ebind (on_build (on_calls (reader_ctor dds_topic ty q (gv_reader gv tr)))) (\<lambda>rd.
      ebind (egets (\<lambda>w. length (gx_subs w))) (\<lambda>a.
      ebind (emodify (\<lambda>w. (gx_set_node (ge_node entry) (add_entity (RawSub a rd) (gx_node (ge_node entry) w)) w)
               \<lparr>gx_subs := gx_subs w @ [\<lparr>rsub_topic = ros_topic, rsub_type = ty, rsub_reader = rd, rsub_received = 0\<rparr>]\<rparr>)) (\<lambda>_.
      ereturn (entry\<lparr>ge_subscriptions := ge_subscriptions entry @ [a]\<rparr>)))))))))"

text \<open>The node itself: an instance of the registered class, or a plain node.\<close>

definition make_node :: "('j, 'u) gx_env \<Rightarrow> 'j \<Rightarrow> string \<Rightarrow> string \<Rightarrow> ('u gx_world, 'u made_node) eff" where
  "make_node gv spec name ns =
     (let J = gv_json gv in
      if jp_contains J spec ''class'' then
        ebind (elift (jp_at_string J spec ''class'')) (\<lambda>cls.
        ebind (on_build (gv_create gv cls name ns)) (\<lambda>n.
        case n of
          None \<Rightarrow> ethrow (InvalidArguments (''node '' @ ns @ ''/'' @ name @ '': class '' @ squote cls @
            '' is not registered; link its library (alwayslink = 1) into the hosting binary''))
        | Some nd \<Rightarrow> ereturn nd))
      else ebind (egets gx_calls) (\<lambda>tr.
           ebind (on_build (node_ctor (gv_node gv tr) name ns)) (\<lambda>nd. ereturn (plain_node nd))))"

text \<open>\<^verbatim>\<open>executor.add_node\<close> of a node that gets the next free address.\<close>

definition gx_add_node :: "('j, 'u) gx_env \<Rightarrow> 'u made_node \<Rightarrow> ('u gx_world, nat) eff" where
  "gx_add_node gv n w =
     (let p = gx_fresh w; w1 = gx_set_node p (mk_node n) w in
      (Inr p, w1\<lparr>gx_exec := add_node (gx_exec_env gv) p (gx_exec w1), gx_fresh := p + 1,
                gx_cores := (gx_cores w)(p := mk_core n), gx_params := (gx_params w)(p := mk_params n),
                gx_members := (gx_members w)(p := mk_members n)\<rparr>))"

definition build_parameters :: "('j, 'u) gx_env \<Rightarrow> 'j \<Rightarrow> gx_entry \<Rightarrow> ('u gx_world, unit) eff" where
  "build_parameters gv spec entry =
     (let J = gv_json gv in
      if \<not> jp_contains J spec ''parameters'' then ereturn ()
      else
        ebind (elift (jp_at J spec ''parameters'')) (\<lambda>params.
        if \<not> jp_is_object J params
        then ethrow (InvalidArguments (''node '' @ ge_fq_name entry @ '': '' @ squote ''parameters'' @ '' must be an object''))
        else efor (declare_parameter gv (ge_node entry) (ge_fq_name entry)) (jp_items J params)))"

definition build_endpoints :: "('j, 'u) gx_env \<Rightarrow> ('j \<Rightarrow> gx_entry \<Rightarrow> ('u gx_world, gx_entry) eff) \<Rightarrow>
    string \<Rightarrow> 'j \<Rightarrow> gx_entry \<Rightarrow> ('u gx_world, gx_entry) eff" where
  "build_endpoints gv build key spec entry =
     (if jp_contains (gv_json gv) spec key
      then ebind (elift (jp_at (gv_json gv) spec key)) (\<lambda>xs. efold build (jp_elems (gv_json gv) xs) entry)
      else ereturn entry)"

definition build_node :: "('j, 'u) gx_env \<Rightarrow> 'j \<Rightarrow> ('u gx_world, unit) eff" where
  "build_node gv spec =
     (let J = gv_json gv in
      if \<not> jp_is_object J spec \<or> \<not> jp_contains J spec ''name''
      then ethrow (InvalidArguments (''every node needs a '' @ squote ''name''))
      else
        ebind (elift (jp_value_string J spec ''namespace'' ''/'')) (\<lambda>ns.
        ebind (elift (jp_at_string J spec ''name'')) (\<lambda>name.
        ebind (make_node gv spec name ns) (\<lambda>n.
        ebind (gx_add_node gv n) (\<lambda>p.
        let entry = \<lparr>ge_fq_name = n_fq_name (mk_node n), ge_namespace = ns, ge_node = p, ge_publishers = [], ge_subscriptions = []\<rparr> in
        ebind (build_parameters gv spec entry) (\<lambda>_.
        ebind (build_endpoints gv (build_publisher gv) ''publishers'' spec entry) (\<lambda>entry1.
        ebind (build_endpoints gv (build_subscription gv) ''subscriptions'' spec entry1) (\<lambda>entry2.
        emodify (\<lambda>w. w\<lparr>gx_entries := gx_entries w @ [entry2]\<rparr>)))))))))"

text \<open>\<^verbatim>\<open>Impl::Impl\<close>; \<open>error_text\<close> is \<^verbatim>\<open>e.what()\<close>.\<close>

fun error_text :: "rcl_error \<Rightarrow> string" where
  "error_text (InvalidArguments m) = m"
| "error_text (InternalError m) = m"
| "error_text (WaitTimeout m) = m"
| "error_text (ValueError m) = m"
| "error_text (OtherException m) = m"
| "error_text (UndefinedBehaviour m) = m"

definition gx_impl_ctor :: "('j, 'u) gx_env \<Rightarrow> string \<Rightarrow> ('u gx_world, unit) eff" where
  "gx_impl_ctor gv json_topology =
     (let J = gv_json gv;
          malformed = InvalidArguments (''topology must be an object with a '' @ squote ''nodes'' @ '' array'') in
      ebind (ecatch (elift (jp_parse J json_topology))
               (\<lambda>e. ethrow (InvalidArguments (''topology is not valid JSON: '' @ error_text e)))) (\<lambda>doc.
      if \<not> jp_is_object J doc \<or> \<not> jp_contains J doc ''nodes'' then ethrow malformed
      else ebind (elift (jp_at J doc ''nodes'')) (\<lambda>nodes.
        if \<not> jp_is_array J nodes then ethrow malformed
        else if jp_empty J nodes then ethrow (InvalidArguments ''topology has no nodes'')
        else efor (build_node gv) (jp_elems J nodes))))"


section \<open>Publishing\<close>

text \<open>\<^verbatim>\<open>rate > 0.0\<close> on the bit pattern: the sign is clear, it is not zero and not a NaN.\<close>

definition double_pos :: "64 word \<Rightarrow> bool" where
  "double_pos d \<longleftrightarrow> 0 < d \<and> d \<le> 0x7FF0000000000000"

definition write_payload :: "('j, 'u) gx_env \<Rightarrow> nat \<Rightarrow> ('u gx_world, unit) eff" where
  "write_payload gv a w =
     (case writer_write (gv_we gv a) (rpub_payload (gx_pubs w ! a)) (gx_wires w a) of
        (r, ws) \<Rightarrow>
          let w1 = w\<lparr>gx_wires := (gx_wires w)(a := ws)\<rparr> in
          case r of
            Inl e \<Rightarrow> (Inl e, w1)
          | Inr ok \<Rightarrow>
              (Inr (), if ok then w1\<lparr>gx_pubs := (gx_pubs w1)[a := (gx_pubs w1 ! a)
                                 \<lparr>rpub_published := rpub_published (gx_pubs w1 ! a) + 1\<rparr>]\<rparr> else w1))"

definition start_publisher :: "('j, 'u) gx_env \<Rightarrow> nat \<Rightarrow> ('u gx_world, unit) eff" where
  "start_publisher gv a w =
     (if double_pos (rpub_rate_hz (gx_pubs w ! a)) then (Inr (), w\<lparr>gx_threads := gx_threads w @ [a]\<rparr>)
      else write_payload gv a w)"

definition start_publishing :: "('j, 'u) gx_env \<Rightarrow> ('u gx_world, unit) eff" where
  "start_publishing gv =
     ebind (egets gx_entries) (\<lambda>es. efor (start_publisher gv) (concat (map ge_publishers es)))"

text \<open>The body of a publisher thread.  \<open>gv_period\<close> is the cast of \<^verbatim>\<open>1.0 / rate\<close> to clock ticks; while the
  thread sleeps the others run.\<close>

partial_function (option) periodic_loop ::
    "('j, 'u) gx_env \<Rightarrow> nat \<Rightarrow> int \<Rightarrow> 'u gx_world \<Rightarrow> (unit result \<times> 'u gx_world) option" where
  "periodic_loop gv a deadline w =
     (if \<not> gx_running w then Some (Inr (), w)
      else case write_payload gv a w of
             (Inl e, w1) \<Rightarrow> Some (Inl e, w1)
           | (Inr _, w1) \<Rightarrow>
               let d = deadline + gv_period gv (rpub_rate_hz (gx_pubs w ! a)) in
               if \<not> in_int64 d then Some (Inl (UndefinedBehaviour ''deadline overflow''), w1)
               else periodic_loop gv a d (gv_sleep_until gv d w1))"

declare periodic_loop.simps [code]

definition graph_executor_ctor :: "('j, 'u) gx_env \<Rightarrow> string \<Rightarrow> ('u gx_world, unit) eff" where
  "graph_executor_ctor gv json_topology = ebind (gx_impl_ctor gv json_topology) (\<lambda>_. start_publishing gv)"

text \<open>The first two statements of \<^verbatim>\<open>~Impl\<close>; the threads are then joined.\<close>

definition gx_impl_stop :: "'u gx_world \<Rightarrow> 'u gx_world" where
  "gx_impl_stop w = w\<lparr>gx_running := False, gx_exec := cancel (gx_exec w)\<rparr>"

definition gx_spin :: "('j, 'u) gx_env \<Rightarrow> 'u gx_world \<Rightarrow> (unit result \<times> 'u gx_world) option" where
  "gx_spin gv w = map_option (\<lambda>(r, x). (r, w\<lparr>gx_exec := x\<rparr>)) (spin (gx_exec_env gv) (gx_exec w))"

definition gx_spin_once :: "('j, 'u) gx_env \<Rightarrow> int \<Rightarrow> ('u gx_world, bool) eff" where
  "gx_spin_once gv timeout w =
     (case spin_once (gx_exec_env gv) timeout (gx_exec w) of (r, x) \<Rightarrow> (r, w\<lparr>gx_exec := x\<rparr>))"

definition gx_cancel :: "'u gx_world \<Rightarrow> 'u gx_world" where
  "gx_cancel w = w\<lparr>gx_exec := cancel (gx_exec w)\<rparr>"


section \<open>Destruction\<close>

definition delete_all :: "dds_entity list \<Rightarrow> unit dds" where
  "delete_all = efor (\<lambda>h. if 0 \<le> h then deleted h else ereturn ())"

definition gx_entity_dtor :: "('j, 'u) gx_env \<Rightarrow> 'u gx_entity \<Rightarrow> unit dds" where
  "gx_entity_dtor gv e = (case e of RawSub a r \<Rightarrow> reader_dtor r | OtherEntity u \<Rightarrow> delete_all (gv_release gv u))"

text \<open>The last reference to a node is dropped: the members of its class, then those of \<^verbatim>\<open>Node\<close> in reverse order
  (discovery, parameter core, change guard, entities, participant).\<close>

definition gx_node_dtor :: "('j, 'u) gx_env \<Rightarrow> 'u gx_world \<Rightarrow> nat \<Rightarrow> unit dds" where
  "gx_node_dtor gv w p =
     (let n = gx_node p w in
      ebind (delete_all (gx_members w p)) (\<lambda>_.
      ebind (writer_dtor (p_writer (n_discovery n))) (\<lambda>_.
      ebind (case gx_cores w p of None \<Rightarrow> ereturn () | Some core \<Rightarrow> writer_dtor (p_writer core)) (\<lambda>_.
      ebind (guard_dtor (n_guard_handle n)) (\<lambda>_.
      ebind (efor (gx_entity_dtor gv) (remdups (entities n))) (\<lambda>_.
      participant_dtor (n_participant n)))))))"

definition attached_entities :: "'u gx_world \<Rightarrow> 'u gx_entity list" where
  "attached_entities w = List.map_filter (\<lambda>(i, a). a_entity a) (ex_attached (xw_exec (gx_exec w)))"

definition gx_nodes :: "'u gx_world \<Rightarrow> nat list" where
  "gx_nodes w = ex_nodes (xw_exec (gx_exec w))"

text \<open>The entities that only the executor's attachment table still holds.\<close>

definition attached_only :: "'u gx_world \<Rightarrow> 'u gx_entity list" where
  "attached_only w =
     [e \<leftarrow> remdups (attached_entities w). \<not> list_ex (\<lambda>p. e \<in> set (entities (gx_node p w))) (gx_nodes w)]"

definition entry_pubs :: "'u gx_world \<Rightarrow> nat list" where
  "entry_pubs w = concat (map ge_publishers (gx_entries w))"

text \<open>The raw publishers of the entry that \<^verbatim>\<open>build_node\<close> was filling.\<close>

definition inflight_pubs :: "'u gx_world \<Rightarrow> nat list" where
  "inflight_pubs w = [a \<leftarrow> [0..<length (gx_pubs w)]. a \<notin> set (entry_pubs w)]"

text \<open>The members of \<^verbatim>\<open>Impl\<close> in reverse order: the entries with their raw publishers, then the executor, which
  holds the last reference to the nodes.\<close>

definition gx_release :: "('j, 'u) gx_env \<Rightarrow> 'u gx_world \<Rightarrow> unit dds" where
  "gx_release gv w =
     ebind (efor (\<lambda>a. writer_dtor (rpub_writer (gx_pubs w ! a))) (inflight_pubs w @ entry_pubs w)) (\<lambda>_.
     executor_dtor (xw_exec (gx_exec w))
       (ebind (efor (gx_entity_dtor gv) (attached_only w)) (\<lambda>_. efor (gx_node_dtor gv w) (gx_nodes w))))"

definition gx_set_calls :: "dds_call list \<Rightarrow> 'u gx_world \<Rightarrow> 'u gx_world" where
  "gx_set_calls tr w = w\<lparr>gx_build := (gx_build w)\<lparr>nw_calls := tr\<rparr>\<rparr>"

definition gx_destroy :: "('j, 'u) gx_env \<Rightarrow> 'u gx_world \<Rightarrow> 'u gx_world" where
  "gx_destroy gv w = gx_set_calls (snd (gx_release gv w (gx_calls w))) w"

text \<open>\<^verbatim>\<open>~Impl\<close>: the threads \<open>late\<close> had passed the test of \<^verbatim>\<open>running\<close> and write once more before they are joined.\<close>

definition graph_executor_dtor :: "('j, 'u) gx_env \<Rightarrow> nat list \<Rightarrow> ('u gx_world, unit) eff" where
  "graph_executor_dtor gv late =
     ebind (emodify gx_impl_stop) (\<lambda>_.
     ebind (efor (write_payload gv) late) (\<lambda>_.
     emodify (gx_destroy gv)))"


section \<open>Construction with its clean-up\<close>

text \<open>The members of \<^verbatim>\<open>Impl\<close> come first.  When its body throws only the members are destroyed; when
  publishing throws, \<^verbatim>\<open>~Impl\<close> runs.\<close>

definition graph_executor_new :: "('j, 'u) gx_env \<Rightarrow> string \<Rightarrow> ('u gx_world, unit) eff" where
  "graph_executor_new gv json_topology w =
     (let xc = gv_executor gv (gx_calls w) in
      case executor_ctor (xc_cancel xc) (xc_wake xc) (xc_waitset xc) (xc_attach_cancel xc) (xc_attach_wake xc) (gx_calls w) of
        (Inl e, tr) \<Rightarrow> (Inl e, gx_set_calls tr w)
      | (Inr x, tr) \<Rightarrow>
          ebind (ecatch (gx_impl_ctor gv json_topology) (\<lambda>e. ebind (emodify (gx_destroy gv)) (\<lambda>_. ethrow e))) (\<lambda>_.
          ecatch (start_publishing gv) (\<lambda>e. ebind (graph_executor_dtor gv []) (\<lambda>_. ethrow e)))
            (gx_set_calls tr (w\<lparr>gx_exec := (gx_exec w)\<lparr>xw_exec := x\<rparr>\<rparr>)))"

section \<open>Counting and reporting\<close>

definition raw_subscription_sample :: "byte list \<Rightarrow> (raw_subscription, unit) eff" where
  "raw_subscription_sample pl = emodify (\<lambda>s. s\<lparr>rsub_received := rsub_received s + 1\<rparr>)"

definition raw_subscription_dispatch ::
    "'q takecdr \<Rightarrow> 'q \<Rightarrow> raw_subscription \<Rightarrow> (nat result \<times> ('q, raw_subscription) take_state) option" where
  "raw_subscription_dispatch tk q s = reader_take tk raw_subscription_sample q s"

definition registered_nodes_json :: "string list \<Rightarrow> string" where
  "registered_nodes_json registered = dump_names (sort registered)"

definition publisher_json :: "raw_publisher \<Rightarrow> string" where
  "publisher_json p =
     json_key ''topic'' @ json_escape_string (rpub_topic p) @
     '','' @ json_key ''type'' @ json_escape_string (rpub_type p) @
     '','' @ json_key ''published'' @ show_nat (unat (rpub_published p))"

definition subscription_json :: "raw_subscription \<Rightarrow> string" where
  "subscription_json s =
     json_key ''topic'' @ json_escape_string (rsub_topic s) @
     '','' @ json_key ''type'' @ json_escape_string (rsub_type s) @
     '','' @ json_key ''received'' @ show_nat (unat (rsub_received s))"

definition entry_json :: "'u gx_world \<Rightarrow> gx_entry \<Rightarrow> string" where
  "entry_json w e =
     json_key ''name'' @ json_escape_string (ge_fq_name e) @
     '','' @ json_key ''publishers'' @ ''['' @ dump_items True (map (\<lambda>a. publisher_json (gx_pubs w ! a)) (ge_publishers e)) @
     ''],'' @ json_key ''subscriptions'' @ ''['' @ dump_items True (map (\<lambda>a. subscription_json (gx_subs w ! a)) (ge_subscriptions e)) @
     '']''"

definition status_json :: "'u gx_world \<Rightarrow> string" where
  "status_json w = ''{'' @ json_key ''nodes'' @ ''['' @ dump_items True (map (entry_json w) (gx_entries w)) @ '']}''"

section \<open>Hexadecimal payloads\<close>

definition hex_digits :: string where
  "hex_digits = ''0123456789abcdefABCDEF''"

lemma lower_hex_cases:
  assumes "n < 16"
  shows "nibble (lower_hex n) = int n"
proof -
  have "list_all (\<lambda>n. nibble (lower_hex n) = int n) [0..<16]" by code_simp
  with assms show ?thesis by (simp add: list_all_iff)
qed

lemma byte_of_nibbles: "word_of_int (int (unat b div 16) * 16 + int (unat b mod 16)) = (b :: byte)"
proof -
  have "int (unat b div 16) * 16 + int (unat b mod 16) = int (unat b)"
    by (metis div_mult_mod_eq of_nat_add of_nat_mult of_nat_numeral)
  then show ?thesis by simp
qed

lemma hex_pairs_guid_hex: "hex_pairs what (guid_hex bs) = Inr bs"
proof (induction bs)
  case Nil
  then show ?case by (simp add: guid_hex_def)
next
  case (Cons b bs)
  have "unat b div 16 < 16" using unsigned_less [of b, where 'a = nat] by simp
  then show ?case
    using Cons byte_of_nibbles [of b]
    by (simp add: guid_hex_def lower_hex_cases Let_def del: of_nat_mod of_nat_div)
qed

lemma nibble_hex_digit: "0 \<le> nibble c \<longleftrightarrow> c \<in> set hex_digits"
proof -
  let ?k = "of_char c :: int"
  have codes: "(of_char :: char \<Rightarrow> int) ` set hex_digits =
      {48, 49, 50, 51, 52, 53, 54, 55, 56, 57, 97, 98, 99, 100, 101, 102, 65, 66, 67, 68, 69, 70}"
    by (simp add: hex_digits_def)
  have "c \<in> set hex_digits \<longleftrightarrow> ?k \<in> of_char ` set hex_digits"
    by (simp add: inj_image_mem_iff inj_of_char)
  also have "\<dots> \<longleftrightarrow> 48 \<le> ?k \<and> ?k \<le> 57 \<or> 97 \<le> ?k \<and> ?k \<le> 102 \<or> 65 \<le> ?k \<and> ?k \<le> 70"
    unfolding codes insert_iff empty_iff by presburger
  finally show ?thesis by (auto simp: nibble_def Let_def)
qed

lemma hex_pairs_domain:
  "even (length h) \<Longrightarrow> (\<exists>bs. hex_pairs what h = Inr bs \<and> length h = 2 * length bs) \<longleftrightarrow> set h \<subseteq> set hex_digits"
proof (induction what h rule: hex_pairs.induct)
  case (3 what c d rest)
  have "(\<exists>bs. hex_pairs what rest = Inr bs \<and> length rest = 2 * length bs) \<longleftrightarrow> set rest \<subseteq> set hex_digits"
    if "\<not> (nibble c < 0 \<or> nibble d < 0)"
    using 3 that by auto
  then show ?case
    using nibble_hex_digit [of c] nibble_hex_digit [of d]
    by (auto simp: Let_def not_less rbind_eq_Inr_iff split: if_splits)
qed auto

text \<open>Hexadecimal payloads: the encoder of the graph monitor's identifiers is read back exactly, and a
  text is accepted exactly when it has an even number of characters that are all hexadecimal digits of
  either case, giving one byte per pair.\<close>

theorem payload_hex_roundtrip:
  "payload_from_hex (guid_hex bs) what = Inr bs \<and>
   (\<exists>bs'. payload_from_hex h what = Inr bs' \<and> length h = 2 * length bs') =
     (even (length h) \<and> set h \<subseteq> set hex_digits)"
proof -
  have "even (length (guid_hex bs))" by (induction bs) (simp_all add: guid_hex_def)
  then have "payload_from_hex (guid_hex bs) what = Inr bs"
    by (simp add: payload_from_hex_def hex_pairs_guid_hex)
  moreover have "(\<exists>bs'. payload_from_hex h what = Inr bs' \<and> length h = 2 * length bs') =
      (even (length h) \<and> set h \<subseteq> set hex_digits)"
    using hex_pairs_domain [of h what] by (auto simp: payload_from_hex_def)
  ultimately show ?thesis ..
qed

section \<open>Counting\<close>

lemma efor_count:
  "efor raw_subscription_sample pls s = (Inr (), s\<lparr>rsub_received := rsub_received s + of_nat (length pls)\<rparr>)"
  by (induction pls arbitrary: s) (simp_all add: raw_subscription_sample_def algebra_simps)

text \<open>A raw subscription counts: one dispatch empties the reader and adds the number of valid samples
  to the counter (modulo \<open>2^64\<close>).\<close>

theorem raw_subscription_counts:
  assumes "takes_fifo tk qs"
  shows "\<exists>q'. qs q' = [] \<and>
    raw_subscription_dispatch tk q s =
      Some (Inr (length (qs q)), \<lparr>t_queue = q', t_unref = length (qs q),
        t_user = s\<lparr>rsub_received := rsub_received s + of_nat (length (filter s_valid (qs q)))\<rparr>\<rparr>)"
  using dispatch_drains [OF assms efor_count, of q s]
  by (simp add: raw_subscription_dispatch_def valid_payloads_def)

definition demo_raw_subscription :: raw_subscription where
  "demo_raw_subscription = \<lparr>rsub_topic = ''/t'', rsub_type = ''T'', rsub_reader = \<lparr>rd_handle = 1, rc_handle = 2\<rparr>,
     rsub_received = 40\<rparr>"

theorem raw_subscription_counts_witness:
  "raw_subscription_dispatch list_takecdr three_samples demo_raw_subscription =
     Some (Inr 3, \<lparr>t_queue = [], t_unref = 3, t_user = demo_raw_subscription\<lparr>rsub_received := 42\<rparr>\<rparr>)"
proof -
  have "takes_fifo list_takecdr (\<lambda>q. q)" by (simp add: takes_fifo_def list_takecdr_def)
  from raw_subscription_counts [OF this, of three_samples demo_raw_subscription] show ?thesis
    by (simp add: three_samples_def demo_raw_subscription_def)
qed

section \<open>The topology is realised\<close>

text \<open>
  The endpoint descriptions of a node, and what it means that an entry realises a node description:
  publishers and subscriptions in the order of the document, with the types and topics the document
  says, each subscription an entity of the node.
\<close>

definition spec_list :: "'j json_api \<Rightarrow> string \<Rightarrow> 'j \<Rightarrow> 'j list" where
  "spec_list J key spec =
     (if jp_contains J spec key then (case jp_at J spec key of Inr xs \<Rightarrow> jp_elems J xs | Inl _ \<Rightarrow> []) else [])"

definition pub_names :: "'u gx_world \<Rightarrow> nat \<Rightarrow> string \<times> string" where
  "pub_names w a = (rpub_type (gx_pubs w ! a), rpub_topic (gx_pubs w ! a))"

definition sub_names :: "'u gx_world \<Rightarrow> nat \<Rightarrow> string \<times> string" where
  "sub_names w a = (rsub_type (gx_subs w ! a), rsub_topic (gx_subs w ! a))"

definition sub_entity :: "'u gx_world \<Rightarrow> nat \<Rightarrow> 'u gx_entity" where
  "sub_entity w a = RawSub a (rsub_reader (gx_subs w ! a))"

definition realises :: "'j json_api \<Rightarrow> 'u gx_world \<Rightarrow> 'j \<Rightarrow> gx_entry \<Rightarrow> bool" where
  "realises J w spec e \<longleftrightarrow>
     jp_value_string J spec ''namespace'' ''/'' = Inr (ge_namespace e) \<and>
     ge_fq_name e = n_fq_name (gx_node (ge_node e) w) \<and>
     map (\<lambda>a. Inr (pub_names w a)) (ge_publishers e) =
       map (endpoint_names J (''node '' @ ge_fq_name e @ '' publisher'') (ge_namespace e)) (spec_list J ''publishers'' spec) \<and>
     map (\<lambda>a. Inr (sub_names w a)) (ge_subscriptions e) =
       map (endpoint_names J (''node '' @ ge_fq_name e @ '' subscription'') (ge_namespace e)) (spec_list J ''subscriptions'' spec) \<and>
     set (ge_publishers e) \<subseteq> {..<length (gx_pubs w)} \<and> set (ge_subscriptions e) \<subseteq> {..<length (gx_subs w)} \<and>
     sub_entity w ` set (ge_subscriptions e) \<subseteq> set (entities (gx_node (ge_node e) w))"

definition gx_ok :: "'j json_api \<Rightarrow> 'j list \<Rightarrow> 'u gx_world \<Rightarrow> bool" where
  "gx_ok J specs w \<longleftrightarrow>
     list_all2 (realises J w) specs (gx_entries w) \<and>
     map ge_node (gx_entries w) = [0..<gx_fresh w] \<and>
     ex_nodes (xw_exec (gx_exec w)) = [0..<gx_fresh w] \<and>
     concat (map ge_publishers (gx_entries w)) = [0..<length (gx_pubs w)] \<and>
     concat (map ge_subscriptions (gx_entries w)) = [0..<length (gx_subs w)]"

definition gx_init :: "'u gx_world \<Rightarrow> bool" where
  "gx_init w \<longleftrightarrow> gx_entries w = [] \<and> gx_fresh w = 0 \<and> gx_pubs w = [] \<and> gx_subs w = [] \<and>
     ex_nodes (xw_exec (gx_exec w)) = []"

text \<open>What the construction of the node at \<open>p\<close> may change: objects are only added, the other nodes are
  left alone, and the node keeps its name and its entities.\<close>

definition gx_grows :: "nat \<Rightarrow> 'u gx_world \<Rightarrow> 'u gx_world \<Rightarrow> bool" where
  "gx_grows p w w' \<longleftrightarrow>
     (\<exists>ps ss. gx_pubs w' = gx_pubs w @ ps \<and> gx_subs w' = gx_subs w @ ss) \<and>
     gx_entries w' = gx_entries w \<and> gx_fresh w' = gx_fresh w \<and>
     ex_nodes (xw_exec (gx_exec w')) = ex_nodes (xw_exec (gx_exec w)) \<and>
     (\<forall>q. q \<noteq> p \<longrightarrow> gx_node q w' = gx_node q w) \<and>
     n_fq_name (gx_node p w') = n_fq_name (gx_node p w) \<and>
     set (entities (gx_node p w)) \<subseteq> set (entities (gx_node p w'))"

lemma gx_grows_refl [simp]: "gx_grows p w w"
  by (simp add: gx_grows_def)

lemma gx_grows_trans: "gx_grows p w w' \<Longrightarrow> gx_grows p w' w'' \<Longrightarrow> gx_grows p w w''"
  unfolding gx_grows_def by (elim conjE exE) auto

lemma realises_ext:
  assumes "realises J w spec e"
    and node: "n_fq_name (gx_node (ge_node e) w') = n_fq_name (gx_node (ge_node e) w)"
      "set (entities (gx_node (ge_node e) w)) \<subseteq> set (entities (gx_node (ge_node e) w'))"
    and ext: "gx_pubs w' = gx_pubs w @ ps" "gx_subs w' = gx_subs w @ ss"
  shows "realises J w' spec e"
proof -
  have names: "pub_names w' a = pub_names w a" if "a < length (gx_pubs w)" for a
    using that by (simp add: pub_names_def ext nth_append)
  have subs: "sub_names w' a = sub_names w a" "sub_entity w' a = sub_entity w a" if "a < length (gx_subs w)" for a
    using that by (simp_all add: sub_names_def sub_entity_def ext nth_append)
  have dom: "\<And>a. a \<in> set (ge_publishers e) \<Longrightarrow> a < length (gx_pubs w)"
    "\<And>a. a \<in> set (ge_subscriptions e) \<Longrightarrow> a < length (gx_subs w)"
    using assms(1) unfolding realises_def by auto
  have "map (\<lambda>a. Inr (pub_names w' a) :: (string \<times> string) result) (ge_publishers e) = map (\<lambda>a. Inr (pub_names w a)) (ge_publishers e)"
    "map (\<lambda>a. Inr (sub_names w' a) :: (string \<times> string) result) (ge_subscriptions e) = map (\<lambda>a. Inr (sub_names w a)) (ge_subscriptions e)"
    "sub_entity w' ` set (ge_subscriptions e) = sub_entity w ` set (ge_subscriptions e)"
    using names subs dom by (auto intro!: image_cong)
  moreover have "length (gx_pubs w) \<le> length (gx_pubs w')" "length (gx_subs w) \<le> length (gx_subs w')"
    by (simp_all add: ext)
  ultimately show ?thesis
    using assms(1) node unfolding realises_def by (auto simp: subset_iff)
qed

lemma realises_mono:
  assumes "realises J w spec e" "gx_grows p w w'"
  shows "realises J w' spec e"
proof -
  obtain ps ss where ext: "gx_pubs w' = gx_pubs w @ ps" "gx_subs w' = gx_subs w @ ss"
    using assms(2) unfolding gx_grows_def by blast
  show ?thesis
    using assms(2) unfolding gx_grows_def
    by (intro realises_ext [OF assms(1) _ _ ext]) (metis, metis order_refl)
qed

lemma gx_node_simps [simp]:
  "gx_node q (gx_set_node p n w) = (if q = p then n else gx_node q w)"
  "gx_node q (w\<lparr>gx_build := b\<rparr>) = gx_node q w"
  "gx_node q (w\<lparr>gx_cores := c\<rparr>) = gx_node q w"
  "gx_node q (w\<lparr>gx_params := ps\<rparr>) = gx_node q w"
  "gx_node q (w\<lparr>gx_pubs := xs\<rparr>) = gx_node q w"
  "gx_node q (w\<lparr>gx_subs := ys\<rparr>) = gx_node q w"
  "gx_node q (w\<lparr>gx_entries := es\<rparr>) = gx_node q w"
  by (simp_all add: gx_node_def gx_set_node_def)

lemma gx_set_node_simps [simp]:
  "gx_pubs (gx_set_node p n w) = gx_pubs w" "gx_subs (gx_set_node p n w) = gx_subs w"
  "gx_entries (gx_set_node p n w) = gx_entries w" "gx_fresh (gx_set_node p n w) = gx_fresh w"
  "xw_exec (gx_exec (gx_set_node p n w)) = xw_exec (gx_exec w)"
  by (simp_all add: gx_set_node_def)

text \<open>Each building operation grows the world.\<close>

lemma param_core_grows:
  assumes "param_core_ctor wrap calls ty wc (n, tr) = (r, n', tr')"
  shows "n_fq_name n' = n_fq_name n \<and> set (n_entities n) \<subseteq> set (n_entities n')"
proof -
  obtain rp trp where p: "publisher_ctor ''/parameter_events'' qos_ParameterEvents False ty wc tr = (rp, trp)"
    by fastforce
  obtain re ne tre where e: "efor (register_param_service wrap calls) param_service_suffixes (n, trp) = (re, ne, tre)"
    by (metis prod_cases3)
  have "n' = n \<or> n' = ne"
    using assms p e
    by (auto simp: param_core_ctor_def ebind_def on_dds_def ecatch_def split: sum.splits if_splits prod.splits)
  with efor_register_cases [OF e] show ?thesis by auto
qed

definition gx_keeps :: "nat \<Rightarrow> 'u gx_world \<Rightarrow> 'u gx_world \<Rightarrow> bool" where
  "gx_keeps p w w' \<longleftrightarrow> gx_grows p w w' \<and> gx_pubs w' = gx_pubs w \<and> gx_subs w' = gx_subs w"

lemma gx_keeps_trans: "gx_keeps p w w' \<Longrightarrow> gx_keeps p w' w'' \<Longrightarrow> gx_keeps p w w''"
  unfolding gx_keeps_def using gx_grows_trans by fastforce

lemma gx_keeps_refl [simp]: "gx_keeps p w w"
  by (simp add: gx_keeps_def)

lemma gx_node_params_keeps:
  assumes "gx_node_params gv p w = (r, w')"
  shows "gx_keeps p w w'"
proof -
  let ?ctor = "param_core_ctor (\<lambda>x s. OtherEntity (gv_wrap gv p x s)) (gv_service gv (gx_calls w))
    (gv_event_type gv) (gv_writer gv (gx_calls w))"
  obtain r1 n1 tr1 where c: "?ctor (gx_node p w, gx_calls w) = (r1, n1, tr1)" by (metis prod_cases3)
  from param_core_grows [OF c] show ?thesis
    using assms c
    by (auto simp: gx_node_params_def node_params_def gx_keeps_def gx_grows_def entities_def subset_iff
        split: option.splits sum.splits)
qed

lemma gx_declare_keeps: "gx_declare gv p name v w = (r, w') \<Longrightarrow> gx_keeps p w w'"
  by (auto simp: gx_declare_def ebind_def gx_keeps_def gx_grows_def split: prod.splits sum.splits
      dest!: gx_node_params_keeps)

lemma declare_parameter_keeps: "declare_parameter gv p fq kv w = (r, w') \<Longrightarrow> gx_keeps p w w'"
  by (cases kv) (auto simp: declare_parameter_def Let_def ebind_def dest: gx_declare_keeps
      split: if_splits sum.splits)

lemma efor_keeps:
  assumes "\<And>x w r w'. f x w = (r, w') \<Longrightarrow> gx_keeps p w w'"
  shows "efor f xs w = (r, w') \<Longrightarrow> gx_keeps p w w'"
proof (induction xs arbitrary: w)
  case (Cons x xs)
  then show ?case
    by (auto simp: ebind_def split: prod.splits sum.splits intro: assms gx_keeps_trans)
qed simp

lemma build_parameters_keeps:
  assumes "build_parameters gv spec entry w = (r, w')"
  shows "gx_keeps (ge_node entry) w w'"
proof -
  have "gx_keeps (ge_node entry) w w'"
    if "efor (declare_parameter gv (ge_node entry) (ge_fq_name entry)) xs w = (r, w')" for xs
    using that by (rule efor_keeps [rotated]) (rule declare_parameter_keeps)
  with assms show ?thesis
    by (auto simp: build_parameters_def Let_def ebind_def split: if_splits sum.splits)
qed

lemma on_build_calls_eq:
  "on_build (on_calls f) w = (r, w') \<longleftrightarrow>
     (\<exists>tr. f (gx_calls w) = (r, tr) \<and> w' = w\<lparr>gx_build := (gx_build w)\<lparr>nw_calls := tr\<rparr>\<rparr>)"
  by (auto simp: on_build_def on_calls_def gx_calls_def split: prod.splits)

lemma build_publisher_step:
  assumes "build_publisher gv spec e w = (Inr e', w')"
  shows "gx_grows (ge_node e) w w' \<and> gx_subs w' = gx_subs w \<and>
    e' = e\<lparr>ge_publishers := ge_publishers e @ [length (gx_pubs w)]\<rparr> \<and> length (gx_pubs w') = Suc (length (gx_pubs w)) \<and>
    Inr (pub_names w' (length (gx_pubs w))) =
      endpoint_names (gv_json gv) (''node '' @ ge_fq_name e @ '' publisher'') (ge_namespace e) spec"
  using assms
  by (auto simp: build_publisher_def Let_def ebind_eq_Inr_iff on_build_calls_eq gx_grows_def pub_names_def)

lemma build_subscription_step:
  assumes "build_subscription gv spec e w = (Inr e', w')"
  shows "gx_grows (ge_node e) w w' \<and> gx_pubs w' = gx_pubs w \<and>
    e' = e\<lparr>ge_subscriptions := ge_subscriptions e @ [length (gx_subs w)]\<rparr> \<and> length (gx_subs w') = Suc (length (gx_subs w)) \<and>
    Inr (sub_names w' (length (gx_subs w))) =
      endpoint_names (gv_json gv) (''node '' @ ge_fq_name e @ '' subscription'') (ge_namespace e) spec \<and>
    sub_entity w' (length (gx_subs w)) \<in> set (entities (gx_node (ge_node e) w'))"
  using assms
  by (auto simp: build_subscription_def Let_def ebind_eq_Inr_iff on_build_calls_eq gx_grows_def sub_names_def
      sub_entity_def entities_def add_entity_def)

lemma gx_grows_lengths:
  assumes "gx_grows p w w'"
  shows "length (gx_pubs w) \<le> length (gx_pubs w')" "length (gx_subs w) \<le> length (gx_subs w')"
    and "a < length (gx_pubs w) \<Longrightarrow> pub_names w' a = pub_names w a"
    and "b < length (gx_subs w) \<Longrightarrow> sub_names w' b = sub_names w b"
    and "b < length (gx_subs w) \<Longrightarrow> sub_entity w' b = sub_entity w b"
  using assms by (auto simp: gx_grows_def pub_names_def sub_names_def sub_entity_def nth_append)

lemma efold_publishers:
  "efold (build_publisher gv) xs e w = (Inr e', w') \<Longrightarrow>
   gx_grows (ge_node e) w w' \<and> gx_subs w' = gx_subs w \<and>
   e' = e\<lparr>ge_publishers := ge_publishers e @ [length (gx_pubs w)..<length (gx_pubs w')]\<rparr> \<and>
   map (\<lambda>a. Inr (pub_names w' a)) [length (gx_pubs w)..<length (gx_pubs w')] =
     map (endpoint_names (gv_json gv) (''node '' @ ge_fq_name e @ '' publisher'') (ge_namespace e)) xs"
proof (induction xs arbitrary: e w)
  case (Cons x xs)
  obtain e1 w1 where run: "build_publisher gv x e w = (Inr e1, w1)" "efold (build_publisher gv) xs e1 w1 = (Inr e', w')"
    using Cons.prems by (auto simp: ebind_eq_Inr_iff)
  note one = build_publisher_step [OF run(1)]
  note rest = Cons.IH [OF run(2)]
  have e1: "ge_node e1 = ge_node e" "ge_fq_name e1 = ge_fq_name e" "ge_namespace e1 = ge_namespace e" using one by auto
  have g: "gx_grows (ge_node e) w1 w'" using rest e1 by simp
  have upt: "[length (gx_pubs w)..<length (gx_pubs w')] = length (gx_pubs w) # [length (gx_pubs w1)..<length (gx_pubs w')]"
    using one gx_grows_lengths(1) [OF g] by (simp add: upt_conv_Cons)
  show ?case
    using one rest e1 g gx_grows_lengths(3) [OF g, of "length (gx_pubs w)"]
    unfolding upt by (auto intro: gx_grows_trans)
qed simp

lemma efold_subscriptions:
  "efold (build_subscription gv) xs e w = (Inr e', w') \<Longrightarrow>
   gx_grows (ge_node e) w w' \<and> gx_pubs w' = gx_pubs w \<and>
   e' = e\<lparr>ge_subscriptions := ge_subscriptions e @ [length (gx_subs w)..<length (gx_subs w')]\<rparr> \<and>
   map (\<lambda>a. Inr (sub_names w' a)) [length (gx_subs w)..<length (gx_subs w')] =
     map (endpoint_names (gv_json gv) (''node '' @ ge_fq_name e @ '' subscription'') (ge_namespace e)) xs \<and>
   sub_entity w' ` {length (gx_subs w)..<length (gx_subs w')} \<subseteq> set (entities (gx_node (ge_node e) w'))"
proof (induction xs arbitrary: e w)
  case (Cons x xs)
  obtain e1 w1 where run: "build_subscription gv x e w = (Inr e1, w1)" "efold (build_subscription gv) xs e1 w1 = (Inr e', w')"
    using Cons.prems by (auto simp: ebind_eq_Inr_iff)
  note one = build_subscription_step [OF run(1)]
  note rest = Cons.IH [OF run(2)]
  have e1: "ge_node e1 = ge_node e" "ge_fq_name e1 = ge_fq_name e" "ge_namespace e1 = ge_namespace e" using one by auto
  have g: "gx_grows (ge_node e) w1 w'" using rest e1 by simp
  have lt: "length (gx_subs w) < length (gx_subs w')" using one gx_grows_lengths(2) [OF g] by simp
  have upt: "[length (gx_subs w)..<length (gx_subs w')] = length (gx_subs w) # [length (gx_subs w1)..<length (gx_subs w')]"
    and ran: "{length (gx_subs w)..<length (gx_subs w')} = insert (length (gx_subs w)) {length (gx_subs w1)..<length (gx_subs w')}"
    using one lt by (auto simp: upt_conv_Cons)
  have "sub_entity w' (length (gx_subs w)) \<in> set (entities (gx_node (ge_node e) w'))"
    using one g gx_grows_lengths(5) [OF g, of "length (gx_subs w)"] unfolding gx_grows_def by auto
  then show ?case
    using one rest e1 g gx_grows_lengths(4) [OF g, of "length (gx_subs w)"]
    unfolding upt ran by (auto intro: gx_grows_trans)
qed simp

lemma build_endpoints_fold:
  "build_endpoints gv build key spec e w = (Inr e', w') \<Longrightarrow>
   efold build (spec_list (gv_json gv) key spec) e w = (Inr e', w')"
  by (auto simp: build_endpoints_def spec_list_def ebind_eq_Inr_iff split: if_splits)

lemma gx_add_node_frame:
  assumes "gx_add_node gv n w = (Inr p, w')"
  shows "p = gx_fresh w" "gx_pubs w' = gx_pubs w" "gx_subs w' = gx_subs w" "gx_entries w' = gx_entries w"
    "gx_fresh w' = Suc (gx_fresh w)" "gx_node p w' = mk_node n" "q \<noteq> p \<Longrightarrow> gx_node q w' = gx_node q w"
    "p \<notin> set (ex_nodes (xw_exec (gx_exec w))) \<Longrightarrow> ex_nodes (xw_exec (gx_exec w')) = ex_nodes (xw_exec (gx_exec w)) @ [p]"
  using assms
  by (auto simp: gx_add_node_def Let_def add_node_def reconcile_frame gx_node_def gx_set_node_def)

lemma on_build_frame: "on_build f w = (r, w') \<Longrightarrow> \<exists>b. w' = w\<lparr>gx_build := b\<rparr>"
  by (auto simp: on_build_def split: prod.splits)

lemma make_node_frame:
  "make_node gv spec name ns w = (Inr n, w') \<Longrightarrow> \<exists>b. w' = w\<lparr>gx_build := b\<rparr>"
  by (auto simp: make_node_def Let_def ebind_eq_Inr_iff dest: on_build_frame split: if_splits option.split_asm)

lemma upt_join: "a \<le> b \<Longrightarrow> [0..<a] @ [a..<b] = [0..<b]"
  by (metis le_add_diff_inverse upt_add_eq_append zero_le)

text \<open>The endpoints of one node: the entry the loops return realises the description.\<close>

lemma endpoints_realised:
  assumes pubs: "efold (build_publisher gv) (spec_list J ''publishers'' spec) e w = (Inr e1, w1)"
    and subs: "efold (build_subscription gv) (spec_list J ''subscriptions'' spec) e1 w1 = (Inr e2, w2)"
    and e: "e = \<lparr>ge_fq_name = n_fq_name (gx_node p w), ge_namespace = ns, ge_node = p, ge_publishers = [], ge_subscriptions = []\<rparr>"
    and J: "J = gv_json gv" and ns: "jp_value_string J spec ''namespace'' ''/'' = Inr ns"
  shows "gx_grows p w w2 \<and> realises J w2 spec e2 \<and> ge_node e2 = p \<and>
    ge_publishers e2 = [length (gx_pubs w)..<length (gx_pubs w2)] \<and>
    ge_subscriptions e2 = [length (gx_subs w)..<length (gx_subs w2)]"
proof -
  note P = efold_publishers [OF pubs] and S = efold_subscriptions [OF subs]
  have e1: "ge_node e1 = p" "ge_fq_name e1 = n_fq_name (gx_node p w)" "ge_namespace e1 = ns" using P e by auto
  have g: "gx_grows p w w1" "gx_grows p w1 w2" using P S e e1 by auto
  have fq: "n_fq_name (gx_node p w2) = n_fq_name (gx_node p w)" using g unfolding gx_grows_def by simp
  have same: "gx_pubs w2 = gx_pubs w1" "gx_subs w1 = gx_subs w" using P S by auto
  then have "pub_names w2 = pub_names w1" by (simp add: pub_names_def fun_eq_iff)
  then show ?thesis
    using P S g same fq e e1 ns J gx_grows_trans [OF g]
    unfolding realises_def by auto
qed

lemma build_nodeE:
  assumes "build_node gv spec w = (Inr (), w')"
  obtains ns name n w1 w2 w3 w4 w5 e1 e2 where
    "jp_value_string (gv_json gv) spec ''namespace'' ''/'' = Inr ns"
    "make_node gv spec name ns w = (Inr n, w1)" "gx_add_node gv n w1 = (Inr (gx_fresh w), w2)"
    "build_parameters gv spec \<lparr>ge_fq_name = n_fq_name (mk_node n), ge_namespace = ns, ge_node = gx_fresh w,
      ge_publishers = [], ge_subscriptions = []\<rparr> w2 = (Inr (), w3)"
    "build_endpoints gv (build_publisher gv) ''publishers'' spec \<lparr>ge_fq_name = n_fq_name (mk_node n), ge_namespace = ns,
      ge_node = gx_fresh w, ge_publishers = [], ge_subscriptions = []\<rparr> w3 = (Inr e1, w4)"
    "build_endpoints gv (build_subscription gv) ''subscriptions'' spec e1 w4 = (Inr e2, w5)"
    "w' = w5\<lparr>gx_entries := gx_entries w5 @ [e2]\<rparr>"
proof -
  obtain ns name n w1 p w2 w3 w4 w5 e1 e2 where *:
    "jp_value_string (gv_json gv) spec ''namespace'' ''/'' = Inr ns"
    "make_node gv spec name ns w = (Inr n, w1)" "gx_add_node gv n w1 = (Inr p, w2)"
    "build_parameters gv spec \<lparr>ge_fq_name = n_fq_name (mk_node n), ge_namespace = ns, ge_node = p,
      ge_publishers = [], ge_subscriptions = []\<rparr> w2 = (Inr (), w3)"
    "build_endpoints gv (build_publisher gv) ''publishers'' spec \<lparr>ge_fq_name = n_fq_name (mk_node n), ge_namespace = ns,
      ge_node = p, ge_publishers = [], ge_subscriptions = []\<rparr> w3 = (Inr e1, w4)"
    "build_endpoints gv (build_subscription gv) ''subscriptions'' spec e1 w4 = (Inr e2, w5)"
    "w' = w5\<lparr>gx_entries := gx_entries w5 @ [e2]\<rparr>"
    using assms by (auto simp: build_node_def Let_def ebind_eq_Inr_iff split: if_splits)
  moreover have "p = gx_fresh w" using gx_add_node_frame(1) [OF *(3)] make_node_frame [OF *(2)] by auto
  ultimately show thesis using that by blast
qed

lemma build_node_ok:
  assumes run: "build_node gv spec w = (Inr (), w')" and ok: "gx_ok (gv_json gv) specs w"
  shows "gx_ok (gv_json gv) (specs @ [spec]) w'"
  using run
proof (rule build_nodeE)
  let ?J = "gv_json gv" and ?p = "gx_fresh w"
  fix ns name n w1 w2 w3 w4 w5 e1 e2
  assume ns: "jp_value_string ?J spec ''namespace'' ''/'' = Inr ns"
    and mk: "make_node gv spec name ns w = (Inr n, w1)" and add: "gx_add_node gv n w1 = (Inr ?p, w2)"
    and par: "build_parameters gv spec \<lparr>ge_fq_name = n_fq_name (mk_node n), ge_namespace = ns, ge_node = ?p,
        ge_publishers = [], ge_subscriptions = []\<rparr> w2 = (Inr (), w3)"
    and pub: "build_endpoints gv (build_publisher gv) ''publishers'' spec \<lparr>ge_fq_name = n_fq_name (mk_node n), ge_namespace = ns,
        ge_node = ?p, ge_publishers = [], ge_subscriptions = []\<rparr> w3 = (Inr e1, w4)"
    and sub: "build_endpoints gv (build_subscription gv) ''subscriptions'' spec e1 w4 = (Inr e2, w5)"
    and w': "w' = w5\<lparr>gx_entries := gx_entries w5 @ [e2]\<rparr>"
  obtain b where w1: "w1 = w\<lparr>gx_build := b\<rparr>" using make_node_frame [OF mk] by blast
  have nodes: "map ge_node (gx_entries w) = [0..<?p]" "ex_nodes (xw_exec (gx_exec w)) = [0..<?p]"
    using ok by (simp_all add: gx_ok_def)
  have A: "gx_pubs w2 = gx_pubs w" "gx_subs w2 = gx_subs w" "gx_entries w2 = gx_entries w" "gx_fresh w2 = Suc ?p"
    "gx_node ?p w2 = mk_node n" "ex_nodes (xw_exec (gx_exec w2)) = [0..<?p] @ [?p]" "\<And>q. q \<noteq> ?p \<Longrightarrow> gx_node q w2 = gx_node q w"
    using gx_add_node_frame(2-8) [OF add] nodes(2) unfolding w1 by simp_all
  have k: "gx_keeps ?p w2 w3" using build_parameters_keeps [OF par] by simp
  then have fq3: "n_fq_name (mk_node n) = n_fq_name (gx_node ?p w3)" using A(5) by (simp add: gx_keeps_def gx_grows_def)
  have E: "gx_grows ?p w3 w5 \<and> realises ?J w5 spec e2 \<and> ge_node e2 = ?p \<and>
    ge_publishers e2 = [length (gx_pubs w3)..<length (gx_pubs w5)] \<and>
    ge_subscriptions e2 = [length (gx_subs w3)..<length (gx_subs w5)]"
    by (rule endpoints_realised [OF build_endpoints_fold [OF pub] build_endpoints_fold [OF sub] _ refl ns])
      (simp only: fq3)
  have g: "gx_grows ?p w2 w5" using gx_grows_trans k E unfolding gx_keeps_def by blast
  have "realises ?J w5 s e" if "realises ?J w s e" "e \<in> set (gx_entries w)" for s e
  proof -
    have "ge_node e \<in> set [0..<?p]" using that(2) nodes(1) by (metis image_eqI list.set_map)
    then have "gx_node (ge_node e) w2 = gx_node (ge_node e) w" using A(7) by simp
    then have "realises ?J w2 s e" using A that(1) by (intro realises_ext [of ?J w s e w2 "[]" "[]"]) auto
    then show ?thesis using g by (rule realises_mono)
  qed
  then have "list_all2 (realises ?J w5) specs (gx_entries w)"
    using ok unfolding gx_ok_def by (elim conjE) (rule list.rel_mono_strong)
  then have "list_all2 (realises ?J w5) (specs @ [spec]) (gx_entries w @ [e2])"
    using E by (simp add: list_all2_appendI)
  moreover have "realises ?J w' = realises ?J w5"
    by (simp add: fun_eq_iff realises_def w' pub_names_def sub_names_def sub_entity_def)
  moreover have "gx_entries w5 = gx_entries w" "gx_fresh w5 = Suc ?p" "ex_nodes (xw_exec (gx_exec w5)) = [0..<?p] @ [?p]"
    using g A by (simp_all add: gx_grows_def)
  moreover have "length (gx_pubs w) \<le> length (gx_pubs w5)" "length (gx_subs w) \<le> length (gx_subs w5)"
    using gx_grows_lengths(1,2) [OF g] A by simp_all
  ultimately show ?thesis
    using ok nodes E k A unfolding gx_ok_def gx_keeps_def
    by (simp add: w' upt_join)
qed

lemma efor_build_ok:
  "efor (build_node gv) xs w = (Inr (), w') \<Longrightarrow> gx_ok (gv_json gv) specs w \<Longrightarrow> gx_ok (gv_json gv) (specs @ xs) w'"
proof (induction xs arbitrary: w specs)
  case (Cons x xs)
  obtain w1 where "build_node gv x w = (Inr (), w1)" "efor (build_node gv) xs w1 = (Inr (), w')"
    using Cons.prems(1) by (auto simp: ebind_eq_Inr_iff)
  with Cons.IH [OF _ build_node_ok [OF _ Cons.prems(2)]] show ?case by fastforce
qed simp


text \<open>A concrete library for the examples: documents as a tree.\<close>

datatype demo_json = JNull | JStr string | JNum "64 word" | JArr "demo_json list" | JObj "(string \<times> demo_json) list"

fun demo_at :: "demo_json \<Rightarrow> string \<Rightarrow> demo_json result" where
  "demo_at (JObj xs) k = (case map_of xs k of None \<Rightarrow> Inl (OtherException ''out_of_range'') | Some v \<Rightarrow> Inr v)"
| "demo_at _ k = Inl (OtherException ''type_error'')"

fun demo_string :: "demo_json \<Rightarrow> string result" where
  "demo_string (JStr s) = Inr s"
| "demo_string _ = Inl (OtherException ''type_error'')"

fun demo_number :: "demo_json \<Rightarrow> 64 word result" where
  "demo_number (JNum n) = Inr n"
| "demo_number _ = Inl (OtherException ''type_error'')"

fun demo_elems :: "demo_json \<Rightarrow> demo_json list" where
  "demo_elems (JArr xs) = xs"
| "demo_elems (JObj xs) = map snd xs"
| "demo_elems JNull = []"
| "demo_elems v = [v]"

fun demo_items :: "demo_json \<Rightarrow> (string \<times> demo_json) list" where
  "demo_items (JObj xs) = xs"
| "demo_items _ = []"

definition demo_has :: "demo_json \<Rightarrow> string \<Rightarrow> bool" where
  "demo_has v k = list_ex (\<lambda>(k', _). k' = k) (demo_items v)"

definition demo_api :: "demo_json \<Rightarrow> demo_json json_api" where
  "demo_api doc =
     \<lparr>jp_parse = (\<lambda>_. Inr doc), jp_object = JObj [], jp_is_object = (\<lambda>v. case v of JObj _ \<Rightarrow> True | _ \<Rightarrow> False),
      jp_is_array = (\<lambda>v. case v of JArr _ \<Rightarrow> True | _ \<Rightarrow> False), jp_is_boolean = (\<lambda>_. False),
      jp_is_number_integer = (\<lambda>v. case v of JNum _ \<Rightarrow> True | _ \<Rightarrow> False), jp_is_number_float = (\<lambda>_. False),
      jp_is_string = (\<lambda>v. case v of JStr _ \<Rightarrow> True | _ \<Rightarrow> False), jp_contains = demo_has,
      jp_empty = (\<lambda>v. demo_elems v = []), jp_at = demo_at, jp_elems = demo_elems, jp_items = demo_items,
      jp_value_string = (\<lambda>v k d. if demo_has v k then rbind (demo_at v k) demo_string else Inr d),
      jp_value_double = (\<lambda>v k d. if demo_has v k then rbind (demo_at v k) demo_number else Inr d),
      jp_value_json = (\<lambda>v k d. if demo_has v k then demo_at v k else Inr d),
      jp_get_string = demo_string, jp_get_bool = (\<lambda>_. Inl (OtherException ''type_error'')),
      jp_get_int64 = demo_number, jp_get_double = demo_number, jp_get_size = demo_number\<rparr>"

definition demo_topology :: demo_json where
  "demo_topology = JObj [(''nodes'', JArr [
     JObj [(''name'', JStr ''b''), (''class'', JStr ''C''),
       (''subscriptions'', JArr [JObj [(''topic'', JStr ''/c''), (''type'', JStr ''p/m/T''), (''qos'', JNull)]])]])]"

definition demo_gx_node :: "nat gx_entity node" where
  "demo_gx_node = \<lparr>n_name = ''b'', n_ns = ''/'', n_fq_name = ''/b'', n_domain_id = 0, n_entities = [], n_epoch = 0,
     n_guard = False, n_guard_handle = 0, n_participant = n_participant demo_node, n_discovery = n_discovery demo_node\<rparr>"

definition demo_gx_env :: "(demo_json, nat) gx_env" where
  "demo_gx_env =
     \<lparr>gv_json = demo_api demo_topology, gv_node = (\<lambda>_. demo_node_env\<lparr>ne_we := demo_writer_env\<rparr>),
      gv_create = (\<lambda>cls name ns. ereturn (Some (plain_node demo_gx_node))),
      gv_exec = \<lparr>xe_cond_of = (\<lambda>_. 0), xe_attach = (\<lambda>_. True), xe_wait = (\<lambda>_ w. ((0, []), w)), xe_dispatch = (\<lambda>_. ereturn ())\<rparr>,
      gv_executor = (\<lambda>_. \<lparr>xc_cancel = 70, xc_wake = 71, xc_waitset = 72, xc_attach_cancel = 0, xc_attach_wake = 0\<rparr>),
      gv_cond = int, gv_release = (\<lambda>_. []), gv_wrap = (\<lambda>_ x _. length x), gv_service = (\<lambda>_. demo_calls 0), gv_event_type = ''E'',
      gv_param = demo_param_env, gv_writer = (\<lambda>_. \<lparr>wc_sertype = True, wc_qos = True, wc_topic = 30, wc_writer = 31\<rparr>),
      gv_reader = (\<lambda>_. demo_reader_calls), gv_we = (\<lambda>_. demo_writer_env), gv_period = (\<lambda>_. 1000), gv_sleep_until = (\<lambda>_ w. w)\<rparr>"

definition demo_gx_world :: "nat gx_world" where
  "demo_gx_world =
     \<lparr>gx_exec = \<lparr>xw_exec = \<lparr>ex_nodes = [], ex_attached = [], ex_epochs = [], ex_next_id = 2, ex_cancel_requested = False,
        ex_cancel_guard = False, ex_wake_guard = False, ex_waitset = [],
        ex_cancel_handle = 70, ex_wake_handle = 71, ex_waitset_handle = 72\<rparr>,
        xw_nodes = (\<lambda>_. demo_gx_node), xw_log = []\<rparr>,
      gx_build = \<lparr>nw_ctx = ctx_globals_init, nw_calls = [], nw_wire = []\<rparr>, gx_entries = [], gx_pubs = [], gx_subs = [],
      gx_wires = (\<lambda>_. []), gx_cores = (\<lambda>_. None), gx_params = (\<lambda>_. param_state_init), gx_members = (\<lambda>_. []), gx_fresh = 0, gx_running = True,
      gx_threads = []\<rparr>"


section \<open>Publishing\<close>

definition periodic :: "'u gx_world \<Rightarrow> nat \<Rightarrow> bool" where
  "periodic w a \<longleftrightarrow> double_pos (rpub_rate_hz (gx_pubs w ! a))"

definition counted :: "nat \<Rightarrow> 'u gx_world \<Rightarrow> 'u gx_world" where
  "counted a w = w\<lparr>gx_pubs := (gx_pubs w)[a := (gx_pubs w ! a)\<lparr>rpub_published := rpub_published (gx_pubs w ! a) + 1\<rparr>]\<rparr>"

text \<open>One write of a raw publisher never throws, and the counter moves exactly with the samples sent.\<close>

lemma write_payload_cases:
  shows "write_payload gv a w = (Inr (), w) \<or>
    (\<exists>b. write_payload gv a w = (Inr (), counted a (w\<lparr>gx_wires := (gx_wires w)(a := gx_wires w a @ [b])\<rparr>)))"
    and "write_ready (gv_we gv a) (rpub_payload (gx_pubs w ! a)) \<Longrightarrow>
      write_payload gv a w =
        (Inr (), counted a (w\<lparr>gx_wires := (gx_wires w)(a := gx_wires w a @ [padded (rpub_payload (gx_pubs w ! a))])\<rparr>))"
  using writer_write_cases [of "gv_we gv a" "rpub_payload (gx_pubs w ! a)" "gx_wires w a"]
    writer_write_ready [of "gv_we gv a" "rpub_payload (gx_pubs w ! a)" "gx_wires w a"]
  by (auto simp: write_payload_def counted_def padded_def Let_def)

lemma counted_simps [simp]:
  "gx_wires (counted a w) = gx_wires w" "gx_threads (counted a w) = gx_threads w" "gx_entries (counted a w) = gx_entries w"
  "gx_running (counted a w) = gx_running w" "length (gx_pubs (counted a w)) = length (gx_pubs w)"
  "b \<noteq> a \<Longrightarrow> gx_pubs (counted a w) ! b = gx_pubs w ! b"
  "a < length (gx_pubs w) \<Longrightarrow> gx_pubs (counted a w) ! a = (gx_pubs w ! a)\<lparr>rpub_published := rpub_published (gx_pubs w ! a) + 1\<rparr>"
  by (simp_all add: counted_def)

definition started :: "('j, 'u) gx_env \<Rightarrow> 'u gx_world \<Rightarrow> 'u gx_world \<Rightarrow> nat \<Rightarrow> bool" where
  "started gv w w' a \<longleftrightarrow>
     (if periodic w a then gx_pubs w' ! a = gx_pubs w ! a \<and> gx_wires w' a = gx_wires w a
      else
        (\<exists>bs. gx_wires w' a = gx_wires w a @ bs \<and> length bs \<le> 1 \<and>
           gx_pubs w' ! a = (gx_pubs w ! a)\<lparr>rpub_published := rpub_published (gx_pubs w ! a) + of_nat (length bs)\<rparr> \<and>
           (write_ready (gv_we gv a) (rpub_payload (gx_pubs w ! a)) \<longrightarrow> bs = [padded (rpub_payload (gx_pubs w ! a))])))"

lemma start_publisher_step:
  assumes "a < length (gx_pubs w)"
  shows "\<exists>w'. start_publisher gv a w = (Inr (), w') \<and> started gv w w' a \<and> length (gx_pubs w') = length (gx_pubs w) \<and>
    gx_threads w' = gx_threads w @ filter (periodic w) [a] \<and>
    (\<forall>b. b \<noteq> a \<longrightarrow> gx_pubs w' ! b = gx_pubs w ! b \<and> gx_wires w' b = gx_wires w b)"
proof (cases "periodic w a")
  case True
  then show ?thesis by (auto simp: start_publisher_def started_def periodic_def)
next
  case False
  then have run: "start_publisher gv a w = write_payload gv a w"
    by (simp add: start_publisher_def periodic_def)
  show ?thesis
  proof (cases "write_ready (gv_we gv a) (rpub_payload (gx_pubs w ! a))")
    case True
    then show ?thesis
      using False assms write_payload_cases(2) [OF True] unfolding run started_def by auto
  next
    case nr: False
    from write_payload_cases(1) [of gv a w] show ?thesis
    proof
      assume "write_payload gv a w = (Inr (), w)"
      then show ?thesis using False nr unfolding run started_def by auto
    next
      assume "\<exists>b. write_payload gv a w = (Inr (), counted a (w\<lparr>gx_wires := (gx_wires w)(a := gx_wires w a @ [b])\<rparr>))"
      then obtain b where "write_payload gv a w = (Inr (), counted a (w\<lparr>gx_wires := (gx_wires w)(a := gx_wires w a @ [b])\<rparr>))" ..
      then show ?thesis using False nr assms unfolding run started_def by auto
    qed
  qed
qed

lemma efor_start:
  "distinct xs \<Longrightarrow> set xs \<subseteq> {..<length (gx_pubs w)} \<Longrightarrow>
   \<exists>w'. efor (start_publisher gv) xs w = (Inr (), w') \<and> (\<forall>a \<in> set xs. started gv w w' a) \<and>
     length (gx_pubs w') = length (gx_pubs w) \<and> gx_threads w' = gx_threads w @ filter (periodic w) xs \<and>
     (\<forall>b. b \<notin> set xs \<longrightarrow> gx_pubs w' ! b = gx_pubs w ! b \<and> gx_wires w' b = gx_wires w b)"
proof (induction xs arbitrary: w)
  case (Cons x xs)
  obtain w1 where one: "start_publisher gv x w = (Inr (), w1)" "started gv w w1 x"
      "length (gx_pubs w1) = length (gx_pubs w)" "gx_threads w1 = gx_threads w @ filter (periodic w) [x]"
      "\<And>b. b \<noteq> x \<Longrightarrow> gx_pubs w1 ! b = gx_pubs w ! b \<and> gx_wires w1 b = gx_wires w b"
    using start_publisher_step [of x w gv] Cons.prems by auto
  obtain w' where rest: "efor (start_publisher gv) xs w1 = (Inr (), w')" "\<forall>a \<in> set xs. started gv w1 w' a"
      "length (gx_pubs w') = length (gx_pubs w1)" "gx_threads w' = gx_threads w1 @ filter (periodic w1) xs"
      "\<And>b. b \<notin> set xs \<Longrightarrow> gx_pubs w' ! b = gx_pubs w1 ! b \<and> gx_wires w' b = gx_wires w1 b"
    using Cons.IH [of w1] Cons.prems one(3) by auto
  have ne: "a \<noteq> x" if "a \<in> set xs" for a using that Cons.prems(1) by auto
  have same: "periodic w1 a = periodic w a" "started gv w1 w' a = started gv w w' a" if "a \<in> set xs" for a
    using one(5) [OF ne [OF that]] by (simp_all add: periodic_def started_def)
  have "filter (periodic w1) xs = filter (periodic w) xs" using same(1) by (auto intro: filter_cong)
  moreover have "started gv w w' x"
    using one(2) rest(5) [of x] Cons.prems(1) by (auto simp: started_def)
  ultimately show ?case
    using one rest same by (intro exI [of _ w']) (auto simp: ebind_def)
qed simp

text \<open>Starting a built topology cannot fail: every publisher with a positive rate gets exactly one
  thread and has sent nothing yet; every other one has made one attempt, has sent its payload (padded
  by the serdata) if DDS accepts it and nothing otherwise, and its counter says which.\<close>

theorem start_publishing_once:
  assumes "gx_ok J specs w" "gx_threads w = []"
  shows "\<exists>w'. start_publishing gv w = (Inr (), w') \<and>
    gx_threads w' = filter (periodic w) [0..<length (gx_pubs w)] \<and> length (gx_pubs w') = length (gx_pubs w) \<and>
    (\<forall>a < length (gx_pubs w). started gv w w' a)"
proof -
  have "concat (map ge_publishers (gx_entries w)) = [0..<length (gx_pubs w)]" using assms(1) by (simp add: gx_ok_def)
  then show ?thesis
    using efor_start [of "[0..<length (gx_pubs w)]" w gv] assms(2)
    by (fastforce simp: start_publishing_def)
qed

definition demo_started_world :: "nat gx_world" where
  "demo_started_world = demo_gx_world
     \<lparr>gx_entries := [\<lparr>ge_fq_name = ''/b'', ge_namespace = ''/'', ge_node = 0, ge_publishers = [0], ge_subscriptions = []\<rparr>],
      gx_fresh := 1, gx_exec := (gx_exec demo_gx_world)\<lparr>xw_exec := (xw_exec (gx_exec demo_gx_world))\<lparr>ex_nodes := [0]\<rparr>\<rparr>,
      gx_pubs := [\<lparr>rpub_topic = ''/t'', rpub_type = ''p::m::dds_::T_'', rpub_writer = \<lparr>wr_handle = 7\<rparr>,
        rpub_payload = default_payload, rpub_rate_hz = 0, rpub_published = 0\<rparr>]\<rparr>"

definition demo_pub_spec :: demo_json where
  "demo_pub_spec = JObj [(''name'', JStr ''b''), (''publishers'', JArr [JObj [(''topic'', JStr ''/t''), (''type'', JStr ''p/m/T'')]])]"

theorem start_publishing_once_witness:
  "\<exists>w'. start_publishing demo_gx_env demo_started_world = (Inr (), w') \<and>
    gx_threads w' = filter (periodic demo_started_world) [0..<length (gx_pubs demo_started_world)] \<and>
    length (gx_pubs w') = length (gx_pubs demo_started_world) \<and> started demo_gx_env demo_started_world w' 0"
proof -
  have "endpoint_names (demo_api demo_topology) ''node /b publisher'' ''/''
      (JObj [(''topic'', JStr ''/t''), (''type'', JStr ''p/m/T'')]) = Inr (''p::m::dds_::T_'', ''/t'')"
    by code_simp
  then have "gx_ok (demo_api demo_topology) [demo_pub_spec] demo_started_world"
    by (simp add: gx_ok_def realises_def demo_pub_spec_def demo_started_world_def demo_gx_world_def spec_list_def
        pub_names_def gx_node_def demo_gx_node_def) (simp add: demo_api_def demo_has_def)
  moreover have "gx_threads demo_started_world = []" by (simp add: demo_started_world_def demo_gx_world_def)
  ultimately show ?thesis
    using start_publishing_once [of _ _ demo_started_world demo_gx_env] by (fastforce simp: demo_started_world_def)
qed

text \<open>The thread of a periodic publisher.  While it sleeps the other threads run: they do not touch its
  publisher, and the shutdown comes nearer (\<open>m\<close>).\<close>

lemma write_payload_invariant:
  assumes "a < length (gx_pubs w)" "write_payload gv a w = (r, w1)"
  shows "r = Inr ()" "length (gx_pubs w1) = length (gx_pubs w)"
    "rpub_rate_hz (gx_pubs w1 ! a) = rpub_rate_hz (gx_pubs w ! a)"
    "rpub_published (gx_pubs w ! a) = of_nat (length (gx_wires w a)) \<Longrightarrow>
       rpub_published (gx_pubs w1 ! a) = of_nat (length (gx_wires w1 a))"
  using write_payload_cases(1) [of gv a w] assms by auto

definition quiet_sleep :: "('j, 'u) gx_env \<Rightarrow> nat \<Rightarrow> bool" where
  "quiet_sleep gv a \<longleftrightarrow>
     (\<forall>d w. gx_wires (gv_sleep_until gv d w) a = gx_wires w a \<and> gx_pubs (gv_sleep_until gv d w) = gx_pubs w)"

text \<open>C36: A periodic publisher stops: when the shutdown flag is cleared within finitely many periods and
  the deadline stays within the clock's range, its thread returns with the flag cleared, and its counter
  is the number of samples it has sent (modulo \<open>2^64\<close>).\<close>

theorem periodic_loop_stops:
  assumes "quiet_sleep gv a" "\<forall>d w w1. gx_running w \<longrightarrow> write_payload gv a w = (Inr (), w1) \<longrightarrow> m (gv_sleep_until gv d w1) < m w"
    and "a < length (gx_pubs w)" "rpub_published (gx_pubs w ! a) = of_nat (length (gx_wires w a))"
    and "0 \<le> gv_period gv (rpub_rate_hz (gx_pubs w ! a))" "- (2 ^ 63) \<le> deadline"
    and "deadline + int (m w) * gv_period gv (rpub_rate_hz (gx_pubs w ! a)) < 2 ^ 63"
  shows "\<exists>w'. periodic_loop gv a deadline w = Some (Inr (), w') \<and> \<not> gx_running w' \<and>
    rpub_published (gx_pubs w' ! a) = of_nat (length (gx_wires w' a))"
  using assms(3-)
proof (induction "m w" arbitrary: w deadline rule: less_induct)
  case less
  show ?case
  proof (cases "gx_running w")
    case False
    then show ?thesis using less.prems by (subst periodic_loop.simps) simp
  next
    case True
    let ?pd = "gv_period gv (rpub_rate_hz (gx_pubs w ! a))"
    obtain r w1 where wp: "write_payload gv a w = (r, w1)" by fastforce
    note inv = write_payload_invariant [OF less.prems(1) wp]
    let ?d = "deadline + ?pd" and ?w2 = "gv_sleep_until gv (deadline + ?pd) w1"
    have wp: "write_payload gv a w = (Inr (), w1)" using wp inv(1) by simp
    have dec: "m ?w2 < m w" using assms(2) True wp by blast
    have "?pd \<le> int (m w) * ?pd" using dec less.prems(3) by (simp add: mult_le_cancel_right1)
    then have d: "in_int64 ?d" using less.prems(3-5) unfolding in_int64_def by linarith
    have w2: "gx_wires ?w2 a = gx_wires w1 a" "gx_pubs ?w2 = gx_pubs w1" using assms(1) by (simp_all add: quiet_sleep_def)
    have "int (m ?w2) + 1 \<le> int (m w)" using dec by simp
    then have "(int (m ?w2) + 1) * ?pd \<le> int (m w) * ?pd" using less.prems(3) by (rule mult_right_mono)
    then have far: "?d + int (m ?w2) * ?pd < 2 ^ 63" using less.prems(5) by (simp add: algebra_simps)
    have "\<exists>w'. periodic_loop gv a ?d ?w2 = Some (Inr (), w') \<and> \<not> gx_running w' \<and>
        rpub_published (gx_pubs w' ! a) = of_nat (length (gx_wires w' a))"
      using less.hyps [OF dec, of ?d] inv less.prems w2 far by simp
    then show ?thesis using True wp d by (subst periodic_loop.simps) (simp add: Let_def)
  qed
qed

theorem periodic_loop_stops_witness:
  "\<exists>w'. periodic_loop (demo_gx_env\<lparr>gv_sleep_until := \<lambda>d w. w\<lparr>gx_running := False\<rparr>\<rparr>) 0 5 demo_started_world = Some (Inr (), w') \<and>
    \<not> gx_running w' \<and> rpub_published (gx_pubs w' ! 0) = of_nat (length (gx_wires w' 0))"
  by (rule periodic_loop_stops [where m = "\<lambda>w. if gx_running w then 1 else 0"])
    (simp_all add: quiet_sleep_def demo_gx_env_def demo_started_world_def demo_gx_world_def)

end
