(* ===== verification/Graph_Lifetime.thy ===== *)
theory Graph_Lifetime
  imports Graph_Executor Handles
begin

text \<open>
  The lifetime of a topology (\<^verbatim>\<open>graph_executor.cpp\<close>): the account of the DDS handles over the construction of the
  launcher, the clean-up of a refused topology and the destructor.
\<close>

section \<open>Runs\<close>

text \<open>What happens to a running topology: spinning, cancelling, and the writes of the publisher threads.\<close>

datatype gx_call = GSpin | GSpinOnce int | GCancel | GThread nat

fun gx_do :: "('j, 'u) gx_env \<Rightarrow> gx_call \<Rightarrow> 'u gx_world \<Rightarrow> 'u gx_world" where
  "gx_do gv GSpin w = (case gx_spin gv w of None \<Rightarrow> w | Some (r, w') \<Rightarrow> w')"
| "gx_do gv (GSpinOnce t) w = snd (gx_spin_once gv t w)"
| "gx_do gv GCancel w = gx_cancel w"
| "gx_do gv (GThread a) w = (if gx_running w \<and> a \<in> set (gx_threads w) then snd (write_payload gv a w) else w)"


section \<open>What a topology owns\<close>

definition valid_handles :: "dds_entity list \<Rightarrow> dds_entity multiset" where
  "valid_handles hs = mset [h \<leftarrow> hs. 0 \<le> h]"

fun entity_handles :: "('j, 'u) gx_env \<Rightarrow> 'u gx_entity \<Rightarrow> dds_entity multiset" where
  "entity_handles gv (RawSub a r) = reader_own_handles r"
| "entity_handles gv (OtherEntity u) = valid_handles (gv_release gv u)"

definition core_handles :: "publisher option \<Rightarrow> dds_entity multiset" where
  "core_handles c = (case c of None \<Rightarrow> {#} | Some p \<Rightarrow> writer_own_handles (p_writer p))"

definition node_entities_handles :: "('j, 'u) gx_env \<Rightarrow> 'u gx_entity node \<Rightarrow> dds_entity multiset" where
  "node_entities_handles gv n = (\<Sum>x \<in> set (entities n). entity_handles gv x)"

definition made_handles :: "('j, 'u) gx_env \<Rightarrow> 'u made_node \<Rightarrow> dds_entity multiset" where
  "made_handles gv m =
     node_own_handles (mk_node m) + node_entities_handles gv (mk_node m) + core_handles (mk_core m) + valid_handles (mk_members m)"

definition gx_made :: "'u gx_world \<Rightarrow> nat \<Rightarrow> 'u made_node" where
  "gx_made w p = \<lparr>mk_node = gx_node p w, mk_core = gx_cores w p, mk_params = gx_params w p, mk_members = gx_members w p\<rparr>"

definition raw_pub_handles :: "raw_publisher list \<Rightarrow> dds_entity multiset" where
  "raw_pub_handles ps = (\<Sum>p \<in># mset ps. writer_own_handles (rpub_writer p))"

definition gx_owned :: "('j, 'u) gx_env \<Rightarrow> 'u gx_world \<Rightarrow> dds_entity multiset" where
  "gx_owned gv w =
     exec_handles (xw_exec (gx_exec w)) + (\<Sum>p \<in> set (gx_nodes w). made_handles gv (gx_made w p)) + raw_pub_handles (gx_pubs w)"

text \<open>Destroying a well-formed topology gives back exactly what it owns.\<close>

definition attached_known :: "'u gx_world \<Rightarrow> bool" where
  "attached_known w \<longleftrightarrow> (\<forall>e \<in> set (attached_entities w). \<exists>p \<in> set (gx_nodes w). e \<in> set (entities (gx_node p w)))"

definition pubs_listed :: "nat list \<Rightarrow> 'u gx_world \<Rightarrow> bool" where
  "pubs_listed as w \<longleftrightarrow> distinct (entry_pubs w @ as) \<and> set (entry_pubs w @ as) \<subseteq> {..<length (gx_pubs w)}"

definition gx_shape :: "'u gx_world \<Rightarrow> bool" where
  "gx_shape w \<longleftrightarrow> distinct (gx_nodes w) \<and> set (gx_nodes w) \<subseteq> {..<gx_fresh w} \<and> attached_known w \<and> pubs_listed [] w"

lemma deletes_delete_all [deletes_intros]: "deletes (delete_all hs) [h \<leftarrow> hs. 0 \<le> h]"
proof -
  have "deletes (delete_all hs) (concat (map (\<lambda>h. [x \<leftarrow> [h]. 0 \<le> x]) hs))"
    unfolding delete_all_def by (rule deletes_efor, rule deletes_intros)
  moreover have "concat (map (\<lambda>h. [x \<leftarrow> [h]. 0 \<le> x]) hs) = [h \<leftarrow> hs. 0 \<le> h]" by (induction hs) simp_all
  ultimately show ?thesis by simp
qed

lemma endpoint_deletes:
  "\<exists>hs. deletes (writer_dtor wr) hs \<and> mset hs = writer_own_handles wr"
  "\<exists>hs. deletes (reader_dtor rd) hs \<and> mset hs = reader_own_handles rd"
  using deletes_writer [of wr] deletes_reader [of rd] unfolding writer_own_handles_def reader_own_handles_def by blast+

lemma entity_deletes: "\<exists>hs. deletes (gx_entity_dtor gv e) hs \<and> mset hs = entity_handles gv e"
proof (cases e)
  case (RawSub a r)
  then show ?thesis using endpoint_deletes(2) by (simp add: gx_entity_dtor_def)
next
  case (OtherEntity u)
  show ?thesis
    unfolding OtherEntity gx_entity_dtor_def gx_entity.case entity_handles.simps valid_handles_def
    using deletes_delete_all by blast
qed

text \<open>A loop of destructors.\<close>

lemma deletes_each:
  assumes "\<And>x. x \<in> set xs \<Longrightarrow> \<exists>hs. deletes (f x) hs \<and> mset hs = own x"
  shows "\<exists>hs. deletes (efor f xs) hs \<and> mset hs = (\<Sum>x \<leftarrow> xs. own x)"
proof -
  obtain hs where hs: "\<And>x. x \<in> set xs \<Longrightarrow> deletes (f x) (hs x) \<and> mset (hs x) = own x" using assms by metis
  then have "deletes (efor f xs) (concat (map hs xs))" by (blast intro: deletes_efor)
  moreover have "mset (concat (map hs xs)) = (\<Sum>x \<leftarrow> xs. own x)" using hs by (induction xs) auto
  ultimately show ?thesis by blast
qed

lemma sum_list_set: "distinct xs \<Longrightarrow> (\<Sum>x \<leftarrow> xs. f x) = (\<Sum>x \<in> set xs. f x)"
  by (rule sum_list_distinct_conv_sum_set)

lemma node_deletes: "\<exists>hs. deletes (gx_node_dtor gv w p) hs \<and> mset hs = made_handles gv (gx_made w p)"
proof -
  let ?n = "gx_node p w"
  obtain es where es: "deletes (efor (gx_entity_dtor gv) (remdups (entities ?n))) es"
      "mset es = node_entities_handles gv ?n"
    using deletes_each [of "remdups (entities ?n)" "gx_entity_dtor gv" "entity_handles gv"] entity_deletes
    by (metis sum_list_set distinct_remdups set_remdups node_entities_handles_def)
  obtain cs where cs: "deletes (case gx_cores w p of None \<Rightarrow> ereturn () | Some core \<Rightarrow> writer_dtor (p_writer core)) cs"
      "mset cs = core_handles (gx_cores w p)"
    by (cases "gx_cores w p") (auto intro!: that deletes_intros simp: core_handles_def writer_own_handles_def simp del: filter.simps)
  show ?thesis
    unfolding gx_node_dtor_def Let_def
    by (intro exI conjI, (rule deletes_bind deletes_intros es(1) cs(1))+)
      (simp add: made_handles_def gx_made_def node_own_handles_def valid_handles_def es(2) cs(2))
qed

lemma map_upt_nth: "map (\<lambda>a. f (xs ! a)) [0..<length xs] = map f xs"
  by (rule nth_equalityI) simp_all

lemma sum_list_mset_cong:
  fixes f :: "'a \<Rightarrow> 'b :: comm_monoid_add"
  assumes "mset xs = mset ys"
  shows "(\<Sum>x \<leftarrow> xs. f x) = (\<Sum>x \<leftarrow> ys. f x)"
proof -
  have "mset (map f xs) = mset (map f ys)" using assms by simp
  then show ?thesis by (simp only: flip: sum_mset_sum_list)
qed

lemma pub_addresses:
  assumes "pubs_listed [] w"
  shows "mset (inflight_pubs w @ entry_pubs w) = mset [0..<length (gx_pubs w)]"
proof -
  have "set (entry_pubs w) \<subseteq> {..<length (gx_pubs w)}" "distinct (entry_pubs w)"
    using assms by (simp_all add: pubs_listed_def)
  moreover have "distinct (inflight_pubs w)" by (simp add: inflight_pubs_def)
  ultimately have "distinct (inflight_pubs w @ entry_pubs w)" "set (inflight_pubs w @ entry_pubs w) = set [0..<length (gx_pubs w)]"
    by (auto simp: inflight_pubs_def)
  then show ?thesis by (metis distinct_upt set_eq_iff_mset_eq_distinct)
qed

lemma gx_release_deletes:
  assumes "gx_shape w"
  shows "\<exists>hs. deletes (gx_release gv w) hs \<and> mset hs = gx_owned gv w"
proof -
  let ?x = "xw_exec (gx_exec w)"
  let ?own = "\<lambda>a. writer_own_handles (rpub_writer (gx_pubs w ! a))"
  obtain ps where ps: "deletes (efor (\<lambda>a. writer_dtor (rpub_writer (gx_pubs w ! a))) (inflight_pubs w @ entry_pubs w)) ps"
      "mset ps = (\<Sum>a \<leftarrow> inflight_pubs w @ entry_pubs w. ?own a)"
    using deletes_each [of "inflight_pubs w @ entry_pubs w" "\<lambda>a. writer_dtor (rpub_writer (gx_pubs w ! a))" ?own]
      endpoint_deletes(1) by blast
  have "(\<Sum>a \<leftarrow> inflight_pubs w @ entry_pubs w. ?own a) = (\<Sum>a \<leftarrow> [0..<length (gx_pubs w)]. ?own a)"
    by (rule sum_list_mset_cong) (use pub_addresses [of w] assms in \<open>simp add: gx_shape_def\<close>)
  also have "\<dots> = raw_pub_handles (gx_pubs w)"
    by (simp add: raw_pub_handles_def map_upt_nth [of "\<lambda>p. writer_own_handles (rpub_writer p)"]
        flip: mset_map sum_mset_sum_list)
  finally have pubs: "mset ps = raw_pub_handles (gx_pubs w)" by (simp add: ps(2))
  have none: "attached_only w = []"
    using assms by (auto simp: gx_shape_def attached_known_def attached_only_def list_ex_iff filter_empty_conv)
  obtain ns where ns: "deletes (efor (gx_node_dtor gv w) (gx_nodes w)) ns"
      "mset ns = (\<Sum>p \<in> set (gx_nodes w). made_handles gv (gx_made w p))"
    using deletes_each [of "gx_nodes w" "gx_node_dtor gv w" "\<lambda>p. made_handles gv (gx_made w p)"] node_deletes
      sum_list_set [of "gx_nodes w"] assms unfolding gx_shape_def by metis
  let ?hs = "ps @ [h \<leftarrow> [ex_waitset_handle ?x]. 0 \<le> h] @ ([] @ ns) @
      [h \<leftarrow> [ex_wake_handle ?x]. 0 \<le> h] @ [h \<leftarrow> [ex_cancel_handle ?x]. 0 \<le> h]"
  have "deletes (gx_release gv w) ?hs"
    unfolding gx_release_def executor_dtor_def none efor.simps
    by (intro deletes_bind deletes_intros ps(1) ns(1))
  moreover have "mset ?hs = gx_owned gv w" by (simp add: gx_owned_def exec_handles_def pubs ns(2))
  ultimately show ?thesis by blast
qed

lemma gx_destroy_returns:
  assumes "gx_shape w" "balanced child (M + gx_owned gv w) (gx_calls w)"
  shows "balanced child M (gx_calls (gx_destroy gv w))"
proof -
  obtain hs where "deletes (gx_release gv w) hs" "mset hs = gx_owned gv w" using gx_release_deletes [OF assms(1)] by blast
  then show ?thesis
    using balanced_release [of child M hs "gx_calls w"] assms(2) deletesD
    by (simp add: gx_destroy_def gx_set_calls_def gx_calls_def)
qed

section \<open>New handles in sequence\<close>

lemma returns_later:
  assumes "dds_returns child tr (new @ rest) (kids @ kids')" "touched ` set ts \<subseteq> set new \<union> set kids"
  shows "dds_returns child (tr @ ts) rest kids'"
proof -
  have "h \<notin> open_handles (tr @ ts)" if "h \<in> set rest" "0 \<le> h" for h
  proof -
    have "h \<notin> open_handles tr" "\<not> child h" "h \<notin> set new"
      using assms(1) that by (auto simp: dds_returns_def)
    then have "h \<notin> touched ` set ts" using assms by (auto simp: dds_returns_def)
    then show ?thesis using \<open>h \<notin> open_handles tr\<close> open_handles_created [of h ts]
      by (force simp: open_handles_append)
  qed
  then show ?thesis using assms(1) by (auto simp: dds_returns_def)
qed

lemma returns_first: "dds_returns child tr (new @ rest) (kids @ kids') \<Longrightarrow> dds_returns child tr new kids"
  by (auto simp: dds_returns_def)

text \<open>An owned handle is open, so that an object with a handle that was not open is a new one.\<close>

lemma new_owner:
  assumes "balanced child (M + N) tr" "h \<notin> open_handles tr"
  shows "h \<notin># N"
  using balanced_roots [OF assms(1)] assms(2) by (auto simp: roots_def)

text \<open>The calls of a constructor concern its own handles.\<close>

lemma writer_ctor_touched:
  assumes "writer_ctor t ty q wc tr = (r, tr')"
  shows "\<exists>ts. tr' = tr @ ts \<and> touched ` set ts \<subseteq> {wc_writer wc, wc_topic wc}"
  using writer_ctor_cases [OF assms] by auto

definition service_new :: "service_calls \<Rightarrow> dds_entity list" where
  "service_new sc = [wc_writer (sc_writer sc), rdc_reader (sc_reader sc), rdc_condition (sc_reader sc)]"

definition service_kids :: "service_calls \<Rightarrow> dds_entity list" where
  "service_kids sc = [wc_topic (sc_writer sc), rdc_topic (sc_reader sc)]"

definition service_handles :: "service \<Rightarrow> dds_entity list" where
  "service_handles s = [wr_handle (sv_reply_writer s), rc_handle (sv_request_reader s), rd_handle (sv_request_reader s)]"

lemma reply_writer_balanced:
  assumes M: "balanced child M tr" and new: "dds_returns child tr [wc_writer wc] [wc_topic wc]"
    and run: "ebind (elift t) (\<lambda>t. writer_ctor t ty q wc) tr = (r, tr')"
  shows "(\<exists>ts. tr' = tr @ ts \<and> touched ` set ts \<subseteq> {wc_writer wc, wc_topic wc}) \<and>
    (case r of Inl e \<Rightarrow> balanced child M tr' | Inr w \<Rightarrow> balanced child (M + writer_own_handles w) tr')"
proof (cases t)
  case (Inr x)
  then have w: "writer_ctor x ty q wc tr = (r, tr')" using run by (simp add: ebind_def elift_def)
  show ?thesis using writer_ctor_touched [OF w] writer_balanced [OF M new w] by simp
qed (use run M in \<open>auto simp: ebind_def elift_def\<close>)

lemma service_ctor_balanced:
  assumes M: "balanced child M tr" and new: "dds_returns child tr (service_new sc) (service_kids sc)"
    and pos: "0 \<le> rdc_condition (sc_reader sc)"
    and run: "service_ctor name q rq rs (sc_reader sc) (sc_writer sc) tr = (r, tr')"
  shows "(\<exists>ts. tr' = tr @ ts \<and> touched ` set ts \<subseteq> set (service_new sc) \<union> set (service_kids sc)) \<and>
    (case r of
      Inl e \<Rightarrow> is_ub e \<or> balanced child M tr'
    | Inr s \<Rightarrow> rd_handle (sv_request_reader s) \<notin> open_handles tr \<and> 0 \<le> rd_handle (sv_request_reader s) \<and>
        balanced child (M + valid_handles (service_handles s)) tr')"
proof -
  let ?rc = "sc_reader sc" and ?wc = "sc_writer sc"
  note ctor = service_ctor_def ebind_def elift_def service_new_def service_kids_def
  have ret: "dds_returns child tr ([rdc_reader ?rc, rdc_condition ?rc] @ [wc_writer ?wc]) ([rdc_topic ?rc] @ [wc_topic ?wc])"
    using new by (auto simp: dds_returns_def service_new_def service_kids_def)
  consider e where "r = Inl e" "tr' = tr"
    | t r1 tr1 where "ros_to_dds_request_topic_name name = Inr t" "reader_ctor t rq q ?rc tr = (r1, tr1)"
    using run by (cases "ros_to_dds_request_topic_name name"; cases "reader_ctor (projr (ros_to_dds_request_topic_name name)) rq q ?rc tr")
        (auto simp: service_ctor_def ebind_def elift_def)
  then show ?thesis
  proof cases
    case 2
    note R = reader_balanced [OF M returns_first [OF ret] pos 2(2)]
    obtain ts where ts: "tr1 = tr @ ts" "touched ` set ts \<subseteq> set [rdc_reader ?rc, rdc_condition ?rc] \<union> set [rdc_topic ?rc]"
      using reader_ctor_cases [OF 2(2)] by auto
    show ?thesis
    proof (cases r1)
      case (Inl e)
      then show ?thesis using run 2 R ts by (auto simp: ctor)
    next
      case (Inr rd)
      let ?g = "ebind (elift (ros_to_dds_reply_topic_name name)) (\<lambda>t. writer_ctor t rs q ?wc)"
      obtain r2 tr2 where g: "?g tr1 = (r2, tr2)" by fastforce
      have bal: "balanced child (M + reader_own_handles rd) tr1" and rd: "rd_handle rd \<notin> open_handles tr" "0 \<le> rd_handle rd"
          "rd = \<lparr>rd_handle = rdc_reader ?rc, rc_handle = rdc_condition ?rc\<rparr>"
        using R unfolding Inr sum.case by auto
      note W = reply_writer_balanced [OF bal returns_later [OF ret ts(2), folded ts(1)] g]
      obtain hs where hs: "deletes (reader_dtor rd) hs" "mset hs = reader_own_handles rd" using endpoint_deletes(2) by blast
      then have dt: "reader_dtor rd tr2 = (Inr (), tr2 @ map Deleted hs)" by (simp add: deletes_def)
      have "(r, tr') = ebind (ecatch ?g (\<lambda>e. ebind (reader_dtor rd) (\<lambda>_. ethrow e)))
          (\<lambda>wr. ereturn \<lparr>sv_ros_service = name, sv_request_reader = rd, sv_reply_writer = wr\<rparr>) tr1"
        using run 2 Inr by (simp add: service_ctor_def ebind_def elift_def)
      then have run': "(r, tr') = (case r2 of Inr w \<Rightarrow> (Inr \<lparr>sv_ros_service = name, sv_request_reader = rd, sv_reply_writer = w\<rparr>, tr2)
          | Inl e \<Rightarrow> (Inl e, if is_ub e then tr2 else tr2 @ map Deleted hs))"
        using g dt by (simp add: ebind_def [of "ecatch _ _"] ebind_def [of "reader_dtor rd"] ecatch_def split: sum.splits)
      let ?S = "set (service_new sc) \<union> set (service_kids sc)"
      obtain ts2 where ts2: "tr2 = tr1 @ ts2" "touched ` set ts2 \<subseteq> {wc_writer ?wc, wc_topic ?wc}" using W by blast
      have "set hs \<subseteq> ?S"
        using arg_cong [OF hs(2), of set_mset] rd(3) by (auto simp: service_new_def service_kids_def reader_own_handles_def)
      then have "touched ` set (ts @ ts2) \<subseteq> ?S" "touched ` set (map Deleted hs) \<subseteq> ?S"
        using ts(2) ts2(2) by (auto simp: service_new_def service_kids_def image_Un)
      moreover have "tr' = tr @ (ts @ ts2) \<or> tr' = tr @ ((ts @ ts2) @ map Deleted hs)"
        using run' by (cases r2) (auto simp: ts(1) ts2(1) split: if_splits)
      ultimately have T: "\<exists>ts. tr' = tr @ ts \<and> touched ` set ts \<subseteq> ?S"
        by (metis image_Un le_sup_iff set_append)
      show ?thesis
      proof (cases r2)
        case (Inl e)
        then have "balanced child M (tr2 @ map Deleted hs)"
          using W by (intro balanced_release) (simp add: hs(2))
        then show ?thesis using run' Inl T by simp
      next
        case ok: (Inr w)
        have "valid_handles (service_handles \<lparr>sv_ros_service = name, sv_request_reader = rd, sv_reply_writer = w\<rparr>) =
            reader_own_handles rd + writer_own_handles w"
          by (simp add: valid_handles_def service_handles_def reader_own_handles_def writer_own_handles_def)
        then show ?thesis using run' ok W T rd(1,2) by (simp add: ac_simps)
      qed
    qed
  qed (use M in auto)
qed

section \<open>The parameter core\<close>

lemma add_new_entity:
  assumes bal: "balanced child (M + node_entities_handles gv n) tr"
    and h: "h \<in># entity_handles gv x" "h \<notin> open_handles tr"
  shows "node_entities_handles gv (add_entity x n) = node_entities_handles gv n + entity_handles gv x"
proof -
  have "x \<notin> set (entities n)"
  proof
    assume "x \<in> set (entities n)"
    then have "entity_handles gv x \<subseteq># node_entities_handles gv n"
      unfolding node_entities_handles_def using sum.remove [of "set (entities n)" x "entity_handles gv"] by simp
    from mset_subset_eqD [OF this h(1)] new_owner [OF bal h(2)] show False by blast
  qed
  then show ?thesis by (simp add: node_entities_handles_def entities_def add_entity_def)
qed

lemma register_balanced:
  assumes bal: "balanced child (M + node_entities_handles gv n) tr"
    and new: "dds_returns child tr (service_new (calls x)) (service_kids (calls x))"
    and pos: "0 \<le> rdc_condition (sc_reader (calls x))"
    and wrap: "\<And>s. entity_handles gv (wrap x s) = valid_handles (service_handles s)"
    and run: "register_param_service wrap calls x (n, tr) = (r, n', tr')"
  shows "(\<exists>ts. tr' = tr @ ts \<and> touched ` set ts \<subseteq> set (service_new (calls x)) \<union> set (service_kids (calls x))) \<and>
    node_own_handles n' = node_own_handles n \<and> (may_ub r \<or> balanced child (M + node_entities_handles gv n') tr')"
proof -
  let ?sc = "calls x"
  obtain r1 tr1 where c: "service_ctor (n_fq_name n @ ''/'' @ x) qos_Parameters (sc_request_name ?sc)
      (sc_response_name ?sc) (sc_reader ?sc) (sc_writer ?sc) tr = (r1, tr1)" by fastforce
  note S = service_ctor_balanced [OF bal new pos c]
  show ?thesis
  proof (cases r1)
    case (Inl e)
    then show ?thesis using run c S by (auto simp: register_param_service_def ebind_def on_dds_def may_ub_def)
  next
    case (Inr s)
    let ?h = "rd_handle (sv_request_reader s)"
    have s: "?h \<notin> open_handles tr" "0 \<le> ?h"
      "balanced child (M + node_entities_handles gv n + valid_handles (service_handles s)) tr1"
      using S unfolding Inr sum.case by blast+
    then have "?h \<in># entity_handles gv (wrap x s)" by (simp add: wrap valid_handles_def service_handles_def)
    from add_new_entity [OF bal this s(1)] s(3)
    have "balanced child (M + node_entities_handles gv (add_entity (wrap x s) n)) tr1" by (simp add: wrap ac_simps)
    then show ?thesis
      using run c Inr S by (auto simp: register_param_service_def ebind_def on_dds_def add_entity_def node_own_handles_def)
  qed
qed

lemma registers_balanced:
  assumes "balanced child (M + node_entities_handles gv n) tr"
    and "dds_returns child tr (concat (map (\<lambda>x. service_new (calls x)) xs)) (concat (map (\<lambda>x. service_kids (calls x)) xs))"
    and "\<And>x. x \<in> set xs \<Longrightarrow> 0 \<le> rdc_condition (sc_reader (calls x))"
    and wrap: "\<And>x s. entity_handles gv (wrap x s) = valid_handles (service_handles s)"
    and "efor (register_param_service wrap calls) xs (n, tr) = (r, n', tr')"
  shows "node_own_handles n' = node_own_handles n \<and> (may_ub r \<or> balanced child (M + node_entities_handles gv n') tr')"
  using assms(1-3,5)
proof (induction xs arbitrary: n tr)
  case Nil
  then show ?case by simp
next
  case (Cons x xs)
  obtain r1 n1 tr1 where one: "register_param_service wrap calls x (n, tr) = (r1, n1, tr1)" by (metis prod_cases3)
  note ret = Cons.prems(2) [unfolded list.map concat.simps]
  note R = register_balanced [OF Cons.prems(1) returns_first [OF ret] _ wrap one]
  obtain ts where ts: "tr1 = tr @ ts" "touched ` set ts \<subseteq> set (service_new (calls x)) \<union> set (service_kids (calls x))"
    and n1: "node_own_handles n1 = node_own_handles n" "may_ub r1 \<or> balanced child (M + node_entities_handles gv n1) tr1"
    using R Cons.prems(3) by auto
  show ?case
  proof (cases r1)
    case (Inl e)
    then show ?thesis using Cons.prems(4) one n1 by (auto simp: ebind_def may_ub_def)
  next
    case (Inr u)
    then have "balanced child (M + node_entities_handles gv n1) tr1" using n1 by (simp add: may_ub_def)
    moreover have "efor (register_param_service wrap calls) xs (n1, tr1) = (r, n', tr')"
      using Cons.prems(4) one Inr by (simp add: ebind_def)
    ultimately show ?thesis
      using Cons.IH [of n1 tr1] returns_later [OF ret ts(2), folded ts(1)] Cons.prems(3) n1(1) by simp
  qed
qed

definition core_new :: "writer_calls \<Rightarrow> (string \<Rightarrow> service_calls) \<Rightarrow> dds_entity list" where
  "core_new wc calls = [wc_writer wc] @ concat (map (\<lambda>x. service_new (calls x)) param_service_suffixes)"

definition core_kids :: "writer_calls \<Rightarrow> (string \<Rightarrow> service_calls) \<Rightarrow> dds_entity list" where
  "core_kids wc calls = [wc_topic wc] @ concat (map (\<lambda>x. service_kids (calls x)) param_service_suffixes)"

lemma param_core_balanced:
  assumes bal: "balanced child (M + node_entities_handles gv n) tr"
    and new: "dds_returns child tr (core_new wc calls) (core_kids wc calls)"
    and pos: "\<And>x. 0 \<le> rdc_condition (sc_reader (calls x))"
    and wrap: "\<And>x s. entity_handles gv (wrap x s) = valid_handles (service_handles s)"
    and run: "param_core_ctor wrap calls ty wc (n, tr) = (r, n', tr')"
  shows "node_own_handles n' = node_own_handles n \<and> (case r of
      Inl e \<Rightarrow> is_ub e \<or> balanced child (M + node_entities_handles gv n') tr'
    | Inr p \<Rightarrow> balanced child (M + node_entities_handles gv n' + writer_own_handles (p_writer p)) tr')"
proof -
  note ret = new [unfolded core_new_def core_kids_def]
  obtain rp trp where p: "publisher_ctor ''/parameter_events'' qos_ParameterEvents False ty wc tr = (rp, trp)" by fastforce
  obtain rw trw where w: "ebind (elift (ros_to_dds_topic_name ''/parameter_events''))
      (\<lambda>t. writer_ctor t ty qos_ParameterEvents wc) tr = (rw, trw)" by fastforce
  have pw: "trp = trw" "rp = map_sum id (\<lambda>w. \<lparr>p_ros_topic = ''/parameter_events'', p_writer = w\<rparr>) rw"
    using p w by (auto simp: publisher_ctor_def ebind_def elift_def split: sum.splits prod.splits)
  note W = reply_writer_balanced [OF bal returns_first [OF ret] w]
  show ?thesis
  proof (cases rw)
    case (Inl e)
    then show ?thesis using run p pw W by (auto simp: param_core_ctor_def ebind_def on_dds_def)
  next
    case (Inr wr)
    obtain ts where ts: "trw = tr @ ts" "touched ` set ts \<subseteq> set [wc_writer wc] \<union> set [wc_topic wc]" using W by auto
    have "balanced child ((M + writer_own_handles wr) + node_entities_handles gv n) trw"
      using W unfolding Inr sum.case by (simp add: ac_simps)
    moreover obtain re ne tre where e: "efor (register_param_service wrap calls) param_service_suffixes (n, trw) = (re, ne, tre)"
      by (metis prod_cases3)
    ultimately have E: "node_own_handles ne = node_own_handles n"
        "may_ub re \<or> balanced child ((M + writer_own_handles wr) + node_entities_handles gv ne) tre"
      using registers_balanced [OF _ returns_later [OF ret ts(2), folded ts(1)] pos wrap e] by blast+
    obtain hs where hs: "deletes (writer_dtor wr) hs" "mset hs = writer_own_handles wr" using endpoint_deletes(1) by blast
    then have dt: "writer_dtor wr tre = (Inr (), tre @ map Deleted hs)" by (simp add: deletes_def)
    have given: "balanced child (M + node_entities_handles gv ne) (tre @ map Deleted hs)" if "\<not> may_ub re"
      using that E(2) by (intro balanced_release) (simp add: hs(2) ac_simps)
    have "(r, n', tr') = (case re of
        Inr _ \<Rightarrow> (Inr \<lparr>p_ros_topic = ''/parameter_events'', p_writer = wr\<rparr>, ne, tre)
      | Inl e \<Rightarrow> (Inl e, ne, if is_ub e then tre else tre @ map Deleted hs))"
      using run p pw Inr e dt by (cases re) (auto simp: param_core_ctor_def ebind_def ecatch_def on_dds_def)
    moreover have "may_ub re \<or> balanced child (M + node_entities_handles gv ne + writer_own_handles wr) tre"
      using E(2) by (simp add: ac_simps)
    ultimately show ?thesis using E(1) given by (cases re) (simp_all add: may_ub_def split: if_splits)
  qed
qed

section \<open>Construction keeps the account\<close>

text \<open>The account of a topology, beside the handles \<open>M\<close> of everything else; and the same while the entry of the
  node at \<open>p\<close> is being filled, which has the raw publishers \<open>as\<close>.\<close>

definition gx_inv :: "(dds_entity \<Rightarrow> bool) \<Rightarrow> ('j, 'u) gx_env \<Rightarrow> dds_entity multiset \<Rightarrow> 'u gx_world \<Rightarrow> bool" where
  "gx_inv child gv M w \<longleftrightarrow> gx_shape w \<and> balanced child (M + gx_owned gv w) (gx_calls w)"

definition site :: "(dds_entity \<Rightarrow> bool) \<Rightarrow> ('j, 'u) gx_env \<Rightarrow> dds_entity multiset \<Rightarrow> nat \<Rightarrow> nat list \<Rightarrow> 'u gx_world \<Rightarrow> bool" where
  "site child gv M p as w \<longleftrightarrow> gx_inv child gv M w \<and> p \<in> set (gx_nodes w) \<and> pubs_listed as w"

text \<open>CycloneDDS returns new handles and no constructor is refused half-way; the services of the parameter core
  own the endpoints they were built with; a registered class accounts for what its constructor creates.\<close>

definition gx_fresh_env :: "(dds_entity \<Rightarrow> bool) \<Rightarrow> ('j, 'u) gx_env \<Rightarrow> bool" where
  "gx_fresh_env child gv \<longleftrightarrow>
     (\<forall>tr.
       (let ne = gv_node gv tr; pc = ne_participant ne in
          0 \<le> pc_publisher pc \<and> 0 \<le> pc_subscriber pc \<and>
          dds_returns child tr [ne_guard ne, pc_participant pc, wc_writer (ne_writer ne)]
            [pc_publisher pc, pc_subscriber pc, wc_topic (ne_writer ne)]) \<and>
       (let xc = gv_executor gv tr in
          0 \<le> xc_attach_cancel xc \<and> 0 \<le> xc_attach_wake xc \<and>
          dds_returns child tr [xc_cancel xc, xc_wake xc, xc_waitset xc] []) \<and>
       dds_returns child tr (core_new (gv_writer gv tr) (gv_service gv tr)) (core_kids (gv_writer gv tr) (gv_service gv tr)) \<and>
       (\<forall>x. 0 \<le> rdc_condition (sc_reader (gv_service gv tr x))) \<and>
       (let rc = gv_reader gv tr in
          0 \<le> rdc_condition rc \<and> dds_returns child tr [rdc_reader rc, rdc_condition rc] [rdc_topic rc])) \<and>
     (\<forall>p x s. gv_release gv (gv_wrap gv p x s) = service_handles s)"

definition class_accounts :: "(dds_entity \<Rightarrow> bool) \<Rightarrow> ('j, 'u) gx_env \<Rightarrow> bool" where
  "class_accounts child gv \<longleftrightarrow>
     (\<forall>cls name ns b M. balanced child M (nw_calls b) \<longrightarrow>
        (case gv_create gv cls name ns b of
           (Inl e, b') \<Rightarrow> is_ub e \<or> balanced child M (nw_calls b')
         | (Inr None, b') \<Rightarrow> balanced child M (nw_calls b')
         | (Inr (Some m), b') \<Rightarrow> balanced child (M + made_handles gv m) (nw_calls b')))"

lemma fresh_envD:
  assumes "gx_fresh_env child gv"
  shows "dds_returns child tr (core_new (gv_writer gv tr) (gv_service gv tr)) (core_kids (gv_writer gv tr) (gv_service gv tr))"
    and "0 \<le> rdc_condition (sc_reader (gv_service gv tr x))"
    and "dds_returns child tr [wc_writer (gv_writer gv tr)] [wc_topic (gv_writer gv tr)]"
    and "gv_release gv (gv_wrap gv p x s) = service_handles s"
proof -
  show core: "dds_returns child tr (core_new (gv_writer gv tr) (gv_service gv tr)) (core_kids (gv_writer gv tr) (gv_service gv tr))"
    and "0 \<le> rdc_condition (sc_reader (gv_service gv tr x))" "gv_release gv (gv_wrap gv p x s) = service_handles s"
    using assms unfolding gx_fresh_env_def by blast+
  show "dds_returns child tr [wc_writer (gv_writer gv tr)] [wc_topic (gv_writer gv tr)]"
    by (rule returns_first [OF core [unfolded core_new_def core_kids_def]])
qed

text \<open>The account of one node and of the rest.\<close>

definition gx_rest :: "('j, 'u) gx_env \<Rightarrow> nat \<Rightarrow> 'u gx_world \<Rightarrow> dds_entity multiset" where
  "gx_rest gv p w =
     exec_handles (xw_exec (gx_exec w)) + (\<Sum>q \<in> set (gx_nodes w) - {p}. made_handles gv (gx_made w q)) + raw_pub_handles (gx_pubs w)"

lemma gx_owned_split: "p \<in> set (gx_nodes w) \<Longrightarrow> gx_owned gv w = made_handles gv (gx_made w p) + gx_rest gv p w"
  unfolding gx_owned_def gx_rest_def by (simp add: sum.remove [of "set (gx_nodes w)" p])

lemma gx_rest_cong:
  assumes "exec_handles (xw_exec (gx_exec w')) = exec_handles (xw_exec (gx_exec w))" "gx_nodes w' = gx_nodes w"
    and "gx_pubs w' = gx_pubs w" "\<And>q. q \<noteq> p \<Longrightarrow> gx_made w' q = gx_made w q"
  shows "gx_rest gv p w' = gx_rest gv p w"
  unfolding gx_rest_def using assms by (intro arg_cong2 [of _ _ _ _ "(+)"] sum.cong) auto

lemma gx_access [simp]:
  "gx_nodes (gx_set_node p n w) = gx_nodes w" "gx_nodes (w\<lparr>gx_build := b\<rparr>) = gx_nodes w"
  "gx_nodes (w\<lparr>gx_cores := c\<rparr>) = gx_nodes w" "gx_nodes (w\<lparr>gx_params := ps\<rparr>) = gx_nodes w"
  "gx_nodes (w\<lparr>gx_pubs := xs\<rparr>) = gx_nodes w" "gx_nodes (w\<lparr>gx_subs := ys\<rparr>) = gx_nodes w"
  "gx_nodes (w\<lparr>gx_entries := es\<rparr>) = gx_nodes w"
  "attached_entities (gx_set_node p n w) = attached_entities w" "attached_entities (w\<lparr>gx_build := b\<rparr>) = attached_entities w"
  "attached_entities (w\<lparr>gx_cores := c\<rparr>) = attached_entities w" "attached_entities (w\<lparr>gx_params := ps\<rparr>) = attached_entities w"
  "attached_entities (w\<lparr>gx_pubs := xs\<rparr>) = attached_entities w" "attached_entities (w\<lparr>gx_subs := ys\<rparr>) = attached_entities w"
  "attached_entities (w\<lparr>gx_entries := es\<rparr>) = attached_entities w"
  "entry_pubs (gx_set_node p n w) = entry_pubs w" "entry_pubs (w\<lparr>gx_build := b\<rparr>) = entry_pubs w"
  "entry_pubs (w\<lparr>gx_cores := c\<rparr>) = entry_pubs w" "entry_pubs (w\<lparr>gx_params := ps\<rparr>) = entry_pubs w"
  "entry_pubs (w\<lparr>gx_pubs := xs\<rparr>) = entry_pubs w" "entry_pubs (w\<lparr>gx_subs := ys\<rparr>) = entry_pubs w"
  "gx_calls (gx_set_node p n w) = gx_calls w" "gx_calls (w\<lparr>gx_build := b\<rparr>) = nw_calls b"
  "gx_calls (w\<lparr>gx_cores := c\<rparr>) = gx_calls w" "gx_calls (w\<lparr>gx_params := ps\<rparr>) = gx_calls w"
  "gx_calls (w\<lparr>gx_pubs := xs\<rparr>) = gx_calls w" "gx_calls (w\<lparr>gx_subs := ys\<rparr>) = gx_calls w"
  "gx_calls (w\<lparr>gx_entries := es\<rparr>) = gx_calls w"
  by (simp_all add: gx_nodes_def attached_entities_def entry_pubs_def gx_calls_def gx_set_node_def)

text \<open>Replacing the node at \<open>p\<close>, its parameter core and the calls made.\<close>

lemma site_update:
  assumes w: "site child gv M p as w"
    and w': "w' = (gx_set_node p n w)\<lparr>gx_build := b, gx_cores := (gx_cores w)(p := core)\<rparr>"
    and ents: "set (entities (gx_node p w)) \<subseteq> set (entities n)"
    and bal: "balanced child (M + gx_rest gv p w +
        (node_own_handles n + node_entities_handles gv n + core_handles core + valid_handles (gx_members w p))) (nw_calls b)"
  shows "site child gv M p as w'"
proof -
  have p: "p \<in> set (gx_nodes w')" using w by (simp add: w' site_def)
  have "gx_made w' p = \<lparr>mk_node = n, mk_core = core, mk_params = gx_params w p, mk_members = gx_members w p\<rparr>"
    by (simp add: gx_made_def w') (simp add: gx_set_node_def)
  then have "made_handles gv (gx_made w' p) = node_own_handles n + node_entities_handles gv n + core_handles core + valid_handles (gx_members w p)"
    by (simp add: made_handles_def)
  moreover have "gx_rest gv p w' = gx_rest gv p w"
    by (rule gx_rest_cong) (simp_all add: w' gx_made_def, simp_all add: gx_set_node_def)
  ultimately have "balanced child (M + gx_owned gv w') (gx_calls w')"
    using bal gx_owned_split [OF p, of gv] by (simp add: w' ac_simps)
  moreover have "gx_shape w'"
    using w ents unfolding site_def gx_inv_def gx_shape_def attached_known_def pubs_listed_def by (fastforce simp: w')
  ultimately show ?thesis using w by (auto simp: site_def gx_inv_def pubs_listed_def w')
qed

lemma site_balanced:
  assumes "site child gv M p as w"
  shows "balanced child (M + gx_rest gv p w + (node_own_handles (gx_node p w) + node_entities_handles gv (gx_node p w) +
      core_handles (gx_cores w p) + valid_handles (gx_members w p))) (gx_calls w)"
  using assms gx_owned_split [of p w gv] by (simp add: site_def gx_inv_def made_handles_def gx_made_def ac_simps)

lemma wrapped_services:
  assumes "gx_fresh_env child gv"
  shows "entity_handles gv (OtherEntity (gv_wrap gv p x s)) = valid_handles (service_handles s)"
  by (simp add: fresh_envD(4) [OF assms])

lemma gx_node_params_site:
  assumes env: "gx_fresh_env child gv"
  shows "ensures (site child gv M p as) (gx_node_params gv p) (\<lambda>_. site child gv M p as) (site child gv M p as)"
proof -
  have "(\<exists>e. r = Inl e \<and> is_ub e) \<or> site child gv M p as w'"
    if w: "site child gv M p as w" and run: "gx_node_params gv p w = (r, w')" for w r w'
  proof (cases "gx_cores w p")
    case (Some core)
    then have "w' = (gx_set_node p (gx_node p w) w)\<lparr>gx_build := gx_build w, gx_cores := (gx_cores w)(p := Some core)\<rparr>"
      using run by (auto simp: gx_node_params_def node_params_def gx_calls_def)
    from site_update [OF w this] site_balanced [OF w] Some show ?thesis by (simp add: gx_calls_def)
  next
    case None
    let ?n = "gx_node p w" and ?M = "M + gx_rest gv p w + node_own_handles (gx_node p w) + valid_handles (gx_members w p)"
    let ?wrap = "\<lambda>x s. OtherEntity (gv_wrap gv p x s)"
    obtain r1 n1 tr1 where c: "param_core_ctor ?wrap (gv_service gv (gx_calls w)) (gv_event_type gv)
        (gv_writer gv (gx_calls w)) (?n, gx_calls w) = (r1, n1, tr1)" by (metis prod_cases3)
    have "balanced child (?M + node_entities_handles gv ?n) (gx_calls w)"
      using site_balanced [OF w] None by (simp add: core_handles_def ac_simps)
    note C = param_core_balanced [OF this fresh_envD(1,2) [OF env] wrapped_services [OF env] c]
    have grow: "set (entities ?n) \<subseteq> set (entities n1)" using param_core_grows [OF c] by (simp add: entities_def)
    obtain core where w': "w' = (gx_set_node p n1 w)\<lparr>gx_build := (gx_build w)\<lparr>nw_calls := tr1\<rparr>, gx_cores := (gx_cores w)(p := core)\<rparr>"
        "r = r1" "core = (case r1 of Inl e \<Rightarrow> None | Inr pub \<Rightarrow> Some pub)"
      using run c None by (cases r1) (auto simp: gx_node_params_def node_params_def)
    have sum: "M + gx_rest gv p w + (node_own_handles n1 + node_entities_handles gv n1 + core_handles core +
        valid_handles (gx_members w p)) = ?M + node_entities_handles gv n1 + core_handles core"
      using conjunct1 [OF C] by (simp add: ac_simps)
    have "may_ub r1 \<or> balanced child (?M + node_entities_handles gv n1 + core_handles core) tr1"
      using conjunct2 [OF C] unfolding w'(3) core_handles_def may_ub_def
      by (cases r1) (simp_all only: sum.case option.case add_0_right, auto)
    then have "may_ub r1 \<or> balanced child (M + gx_rest gv p w + (node_own_handles n1 + node_entities_handles gv n1 +
        core_handles core + valid_handles (gx_members w p))) tr1" unfolding sum .
    then show ?thesis using site_update [OF w w'(1) grow] w'(2) by (auto simp: may_ub_def)
  qed
  then show ?thesis by (intro ensuresI) auto
qed

lemma gx_declare_site:
  assumes env: "gx_fresh_env child gv"
  shows "ensures (site child gv M p as) (gx_declare gv p name v) (\<lambda>_. site child gv M p as) (site child gv M p as)"
  unfolding gx_declare_def
proof (rule ensures_bind [OF gx_node_params_site [OF env]])
  have keep: "site child gv M p as (w\<lparr>gx_params := ps\<rparr>) \<longleftrightarrow> site child gv M p as w" for w ps
  proof -
    have "gx_owned gv (w\<lparr>gx_params := ps\<rparr>) = gx_owned gv w"
      by (simp add: gx_owned_def made_handles_def gx_made_def)
    then show ?thesis by (simp add: site_def gx_inv_def gx_shape_def attached_known_def pubs_listed_def)
  qed
  show "ensures (site child gv M p as) (\<lambda>w. case param_declare ((gv_param gv)\<lparr>pe_fq_name := n_fq_name (gx_node p w), pe_pub := core\<rparr>)
      name v (gx_params w p) of (r, st) \<Rightarrow> (r, w\<lparr>gx_params := (gx_params w)(p := st)\<rparr>)) (\<lambda>_. site child gv M p as) (site child gv M p as)" for core
    by (rule ensuresI) (auto simp: keep split: prod.splits)
qed

lemma declare_parameter_site:
  assumes env: "gx_fresh_env child gv"
  shows "ensures (site child gv M p as) (declare_parameter gv p fq kv) (\<lambda>_. site child gv M p as) (site child gv M p as)"
  unfolding declare_parameter_def Let_def
  by (cases kv) (auto intro!: ensures_intros ensures_bind [OF ensures_lift] gx_declare_site [OF env])

lemma build_parameters_site:
  assumes env: "gx_fresh_env child gv"
  shows "ensures (site child gv M (ge_node entry) as) (build_parameters gv spec entry)
    (\<lambda>_. site child gv M (ge_node entry) as) (site child gv M (ge_node entry) as)"
  unfolding build_parameters_def Let_def
  by (intro ensures_intros ensures_bind [OF ensures_lift] ensures_efor declare_parameter_site [OF env]) assumption+

text \<open>Raw endpoints.\<close>

lemma gx_inv_calls:
  assumes "gx_inv child gv M w" "balanced child (M' + gx_owned gv w) (nw_calls b)"
  shows "gx_inv child gv M' (w\<lparr>gx_build := b\<rparr>)"
proof -
  have "gx_owned gv (w\<lparr>gx_build := b\<rparr>) = gx_owned gv w" by (simp add: gx_owned_def made_handles_def gx_made_def)
  then show ?thesis using assms by (simp add: gx_inv_def gx_shape_def attached_known_def pubs_listed_def)
qed

lemma site_publisher:
  assumes env: "gx_fresh_env child gv" and w: "site child gv M p as w"
    and run: "writer_ctor t ty q (gv_writer gv (gx_calls w)) (gx_calls w) = (r, tr)"
  shows "r = Inl e \<Longrightarrow> gx_inv child gv M (w\<lparr>gx_build := (gx_build w)\<lparr>nw_calls := tr\<rparr>\<rparr>)"
    and "r = Inr (rpub_writer pub) \<Longrightarrow> site child gv M p (as @ [length (gx_pubs w)])
      (w\<lparr>gx_build := (gx_build w)\<lparr>nw_calls := tr\<rparr>, gx_pubs := gx_pubs w @ [pub]\<rparr>)"
proof -
  have inv: "gx_inv child gv M w" using w by (simp add: site_def)
  then have "balanced child (M + gx_owned gv w) (gx_calls w)" by (simp add: gx_inv_def)
  note W = writer_balanced [OF this fresh_envD(3) [OF env] run]
  show "r = Inl e \<Longrightarrow> gx_inv child gv M (w\<lparr>gx_build := (gx_build w)\<lparr>nw_calls := tr\<rparr>\<rparr>)"
    using W by (intro gx_inv_calls [OF inv]) simp
  assume r: "r = Inr (rpub_writer pub)"
  let ?w = "w\<lparr>gx_build := (gx_build w)\<lparr>nw_calls := tr\<rparr>, gx_pubs := gx_pubs w @ [pub]\<rparr>"
  have "gx_owned gv ?w = gx_owned gv w + writer_own_handles (rpub_writer pub)"
    by (simp add: gx_owned_def made_handles_def gx_made_def raw_pub_handles_def ac_simps)
  then have "balanced child (M + gx_owned gv ?w) (gx_calls ?w)" using W r by (simp add: ac_simps)
  moreover have "gx_shape ?w" "pubs_listed (as @ [length (gx_pubs w)]) ?w"
    using w by (auto simp: site_def gx_inv_def gx_shape_def attached_known_def pubs_listed_def subset_iff less_Suc_eq)
  ultimately show "site child gv M p (as @ [length (gx_pubs w)]) ?w"
    using w by (simp add: site_def gx_inv_def)
qed

lemma site_subscription:
  assumes env: "gx_fresh_env child gv" and w: "site child gv M p as w"
    and run: "reader_ctor t ty q (gv_reader gv (gx_calls w)) (gx_calls w) = (r, tr)"
  shows "r = Inl e \<Longrightarrow> gx_inv child gv M (w\<lparr>gx_build := (gx_build w)\<lparr>nw_calls := tr\<rparr>\<rparr>)"
    and "r = Inr rd \<Longrightarrow> site child gv M p as
      ((gx_set_node p (add_entity (RawSub a rd) (gx_node p w)) w)\<lparr>gx_build := (gx_build w)\<lparr>nw_calls := tr\<rparr>, gx_subs := ss\<rparr>)"
proof -
  let ?rc = "gv_reader gv (gx_calls w)" and ?n = "gx_node p w"
  have inv: "gx_inv child gv M w" using w by (simp add: site_def)
  then have bal: "balanced child (M + gx_owned gv w) (gx_calls w)" by (simp add: gx_inv_def)
  have ret: "dds_returns child (gx_calls w) [rdc_reader ?rc, rdc_condition ?rc] [rdc_topic ?rc]" "0 \<le> rdc_condition ?rc"
    using env by (simp_all add: gx_fresh_env_def Let_def)
  note R = reader_balanced [OF bal ret run]
  show "r = Inl e \<Longrightarrow> gx_inv child gv M (w\<lparr>gx_build := (gx_build w)\<lparr>nw_calls := tr\<rparr>\<rparr>)"
    using R by (intro gx_inv_calls [OF inv]) simp
  assume r: "r = Inr rd"
  have rd: "rd = \<lparr>rd_handle = rdc_reader ?rc, rc_handle = rdc_condition ?rc\<rparr>" "rdc_reader ?rc \<notin> open_handles (gx_calls w)"
      "0 \<le> rdc_reader ?rc" "balanced child (M + gx_owned gv w + reader_own_handles rd) tr"
    using R unfolding r sum.case by blast+
  let ?M = "M + gx_rest gv p w + (node_own_handles ?n + core_handles (gx_cores w p) + valid_handles (gx_members w p))"
  have "balanced child (?M + node_entities_handles gv ?n) (gx_calls w)" using site_balanced [OF w] by (simp add: ac_simps)
  moreover have "rdc_reader ?rc \<in># entity_handles gv (RawSub a rd)" using rd(3) by (simp add: rd(1) reader_own_handles_def)
  ultimately have "node_entities_handles gv (add_entity (RawSub a rd) ?n) = node_entities_handles gv ?n + reader_own_handles rd"
    using add_new_entity [OF _ _ rd(2)] by fastforce
  moreover have "gx_owned gv w = node_own_handles ?n + node_entities_handles gv ?n + core_handles (gx_cores w p) +
      valid_handles (gx_members w p) + gx_rest gv p w"
    using gx_owned_split [of p w gv] w by (simp add: site_def made_handles_def gx_made_def)
  moreover have "node_own_handles (add_entity (RawSub a rd) ?n) = node_own_handles ?n"
    by (simp add: add_entity_def node_own_handles_def)
  ultimately have "balanced child (M + gx_rest gv p w + (node_own_handles (add_entity (RawSub a rd) ?n) +
      node_entities_handles gv (add_entity (RawSub a rd) ?n) + core_handles (gx_cores w p) + valid_handles (gx_members w p))) tr"
    using rd(4) by (simp add: ac_simps)
  moreover have "set (entities ?n) \<subseteq> set (entities (add_entity (RawSub a rd) ?n))" by (auto simp: entities_def add_entity_def)
  ultimately have "site child gv M p as ((gx_set_node p (add_entity (RawSub a rd) ?n) w)
      \<lparr>gx_build := (gx_build w)\<lparr>nw_calls := tr\<rparr>, gx_cores := (gx_cores w)(p := gx_cores w p)\<rparr>)"
    by (intro site_update [OF w refl]) simp_all
  then show "site child gv M p as
      ((gx_set_node p (add_entity (RawSub a rd) ?n) w)\<lparr>gx_build := (gx_build w)\<lparr>nw_calls := tr\<rparr>, gx_subs := ss\<rparr>)"
    by (simp add: site_def gx_inv_def gx_shape_def attached_known_def pubs_listed_def gx_owned_def made_handles_def gx_made_def)
      (simp add: gx_set_node_def)
qed

definition filling :: "(dds_entity \<Rightarrow> bool) \<Rightarrow> ('j, 'u) gx_env \<Rightarrow> dds_entity multiset \<Rightarrow> gx_entry \<Rightarrow> 'u gx_world \<Rightarrow> bool" where
  "filling child gv M e = site child gv M (ge_node e) (ge_publishers e)"

lemma filling_inv: "filling child gv M e w \<Longrightarrow> gx_inv child gv M w"
  by (simp add: filling_def site_def)

text \<open>The constructor of an endpoint, then what depends on its result.\<close>

lemma ensures_acquire:
  assumes err: "\<And>w e tr. P w \<Longrightarrow> f (gx_calls w) (gx_calls w) = (Inl e, tr) \<Longrightarrow>
      E (w\<lparr>gx_build := (gx_build w)\<lparr>nw_calls := tr\<rparr>\<rparr>)"
    and ok: "\<And>w x tr. P w \<Longrightarrow> f (gx_calls w) (gx_calls w) = (Inr x, tr) \<Longrightarrow>
      ensures (\<lambda>s. s = w\<lparr>gx_build := (gx_build w)\<lparr>nw_calls := tr\<rparr>\<rparr>) (g x) Q E"
  shows "ensures P (ebind (egets gx_calls) (\<lambda>tr. ebind (on_build (on_calls (f tr))) g)) Q E"
  unfolding ensures_def
proof (intro allI impI)
  fix w
  assume "P w"
  obtain r tr where c: "f (gx_calls w) (gx_calls w) = (r, tr)" by fastforce
  then have "ebind (egets gx_calls) (\<lambda>tr. ebind (on_build (on_calls (f tr))) g) w =
      (case r of Inl e \<Rightarrow> (Inl e, w\<lparr>gx_build := (gx_build w)\<lparr>nw_calls := tr\<rparr>\<rparr>)
       | Inr x \<Rightarrow> g x (w\<lparr>gx_build := (gx_build w)\<lparr>nw_calls := tr\<rparr>\<rparr>))"
    by (simp add: ebind_def on_build_def on_calls_def gx_calls_def split: sum.splits)
  then show "case ebind (egets gx_calls) (\<lambda>tr. ebind (on_build (on_calls (f tr))) g) w of
      (Inl e, s') \<Rightarrow> is_ub e \<or> E s' | (Inr x, s') \<Rightarrow> Q x s'"
    using err [OF \<open>P w\<close>] ok [OF \<open>P w\<close>] c unfolding ensures_def by (cases r) simp_all
qed

lemma build_publisher_filling:
  assumes env: "gx_fresh_env child gv"
  shows "ensures (filling child gv M e) (build_publisher gv spec e) (filling child gv M) (gx_inv child gv M)"
  unfolding build_publisher_def Let_def
proof (rule ensures_lift_bind, erule filling_inv, simp only: split_paired_all prod.case,
    (rule ensures_lift_bind, erule filling_inv)+, rule ensures_acquire)
  fix ty rt pl rate t q w err tr
  assume "filling child gv M e w" "writer_ctor t ty q (gv_writer gv (gx_calls w)) (gx_calls w) = (Inl err, tr)"
  then show "gx_inv child gv M (w\<lparr>gx_build := (gx_build w)\<lparr>nw_calls := tr\<rparr>\<rparr>)"
    unfolding filling_def using site_publisher(1) [OF env] by blast
next
  fix ty rt pl rate t q w wr tr
  let ?pub = "\<lparr>rpub_topic = rt, rpub_type = ty, rpub_writer = wr, rpub_payload = pl, rpub_rate_hz = rate, rpub_published = 0\<rparr>"
  assume w: "filling child gv M e w" and c: "writer_ctor t ty q (gv_writer gv (gx_calls w)) (gx_calls w) = (Inr wr, tr)"
  have "filling child gv M (e\<lparr>ge_publishers := ge_publishers e @ [length (gx_pubs w)]\<rparr>)
      (w\<lparr>gx_build := (gx_build w)\<lparr>nw_calls := tr\<rparr>, gx_pubs := gx_pubs w @ [?pub]\<rparr>)"
    using site_publisher(2) [OF env w [unfolded filling_def] c, of ?pub] by (simp add: filling_def)
  then show "ensures (\<lambda>s. s = w\<lparr>gx_build := (gx_build w)\<lparr>nw_calls := tr\<rparr>\<rparr>)
      (ebind (egets (\<lambda>w. length (gx_pubs w))) (\<lambda>a.
       ebind (emodify (\<lambda>w. w\<lparr>gx_pubs := gx_pubs w @ [?pub]\<rparr>)) (\<lambda>_. ereturn (e\<lparr>ge_publishers := ge_publishers e @ [a]\<rparr>))))
      (filling child gv M) (gx_inv child gv M)"
    by (simp add: ensures_def ebind_def)
qed

lemma build_then_exec: "w\<lparr>gx_build := b, gx_exec := x\<rparr> = w\<lparr>gx_exec := x, gx_build := b\<rparr>"
  by (cases w) simp

lemma build_subscription_filling:
  assumes env: "gx_fresh_env child gv"
  shows "ensures (filling child gv M e) (build_subscription gv spec e) (filling child gv M) (gx_inv child gv M)"
  unfolding build_subscription_def Let_def
proof (rule ensures_lift_bind, erule filling_inv, simp only: split_paired_all prod.case,
    (rule ensures_lift_bind, erule filling_inv)+, rule ensures_acquire)
  fix ty rt t q w err tr
  assume "filling child gv M e w" "reader_ctor t ty q (gv_reader gv (gx_calls w)) (gx_calls w) = (Inl err, tr)"
  then show "gx_inv child gv M (w\<lparr>gx_build := (gx_build w)\<lparr>nw_calls := tr\<rparr>\<rparr>)"
    unfolding filling_def using site_subscription(1) [OF env] by blast
next
  fix ty rt t q w rd tr
  let ?sub = "\<lparr>rsub_topic = rt, rsub_type = ty, rsub_reader = rd, rsub_received = 0\<rparr>"
  assume w: "filling child gv M e w" and c: "reader_ctor t ty q (gv_reader gv (gx_calls w)) (gx_calls w) = (Inr rd, tr)"
  let ?w = "w\<lparr>gx_build := (gx_build w)\<lparr>nw_calls := tr\<rparr>\<rparr>" and ?p = "ge_node e"
  have "filling child gv M (e\<lparr>ge_subscriptions := ge_subscriptions e @ [length (gx_subs w)]\<rparr>)
      ((gx_set_node ?p (add_entity (RawSub (length (gx_subs w)) rd) (gx_node ?p ?w)) ?w)\<lparr>gx_subs := gx_subs w @ [?sub]\<rparr>)"
    using site_subscription(2) [OF env w [unfolded filling_def] c refl] by (simp add: filling_def gx_set_node_def build_then_exec)
  then show "ensures (\<lambda>s. s = w\<lparr>gx_build := (gx_build w)\<lparr>nw_calls := tr\<rparr>\<rparr>)
      (ebind (egets (\<lambda>w. length (gx_subs w))) (\<lambda>a.
       ebind (emodify (\<lambda>w. (gx_set_node (ge_node e) (add_entity (RawSub a rd) (gx_node (ge_node e) w)) w)
         \<lparr>gx_subs := gx_subs w @ [?sub]\<rparr>)) (\<lambda>_. ereturn (e\<lparr>ge_subscriptions := ge_subscriptions e @ [a]\<rparr>))))
      (filling child gv M) (gx_inv child gv M)"
    by (simp add: ensures_def ebind_def)
qed

text \<open>Nodes.\<close>

lemma make_node_inv:
  assumes env: "gx_fresh_env child gv" and cls: "class_accounts child gv"
  shows "ensures (gx_inv child gv M) (make_node gv spec name ns) (\<lambda>m. gx_inv child gv (M + made_handles gv m)) (gx_inv child gv M)"
proof -
  have plain: "ensures (gx_inv child gv M)
      (ebind (egets gx_calls) (\<lambda>tr. ebind (on_build (node_ctor (gv_node gv tr) name ns)) (\<lambda>nd. ereturn (plain_node nd))))
      (\<lambda>m. gx_inv child gv (M + made_handles gv m)) (gx_inv child gv M)"
    unfolding ensures_def
  proof (intro allI impI)
    fix w
    assume w: "gx_inv child gv M w"
    let ?ne = "gv_node gv (gx_calls w)"
    obtain r b where c: "node_ctor ?ne name ns (gx_build w) = (r :: 'b gx_entity node result, b)" by fastforce
    have ret: "dds_returns child (nw_calls (gx_build w)) [ne_guard ?ne, pc_participant (ne_participant ?ne), wc_writer (ne_writer ?ne)]
        [pc_publisher (ne_participant ?ne), pc_subscriber (ne_participant ?ne), wc_topic (ne_writer ?ne)]"
        "0 \<le> pc_publisher (ne_participant ?ne)" "0 \<le> pc_subscriber (ne_participant ?ne)"
      using env unfolding gx_fresh_env_def gx_calls_def Let_def by blast+
    have "balanced child (M + gx_owned gv w) (nw_calls (gx_build w))" using w by (simp add: gx_inv_def gx_calls_def)
    note N = node_ctor_balanced [OF this ret c]
    have made: "made_handles gv (plain_node n) = node_own_handles n" if "entities n = []" for n
      using that by (simp add: made_handles_def plain_node_def node_entities_handles_def core_handles_def valid_handles_def)
    show "case ebind (egets gx_calls) (\<lambda>tr. ebind (on_build (node_ctor (gv_node gv tr) name ns)) (\<lambda>nd. ereturn (plain_node nd))) w of
        (Inl e, s') \<Rightarrow> is_ub e \<or> gx_inv child gv M s' | (Inr x, s') \<Rightarrow> gx_inv child gv (M + made_handles gv x) s'"
      using c N made gx_inv_calls [OF w]
      by (cases r) (auto simp: ebind_def on_build_def ac_simps)
  qed
  have "ensures (gx_inv child gv M) (on_build (gv_create gv cls name ns))
      (\<lambda>n. case n of None \<Rightarrow> gx_inv child gv M | Some m \<Rightarrow> gx_inv child gv (M + made_handles gv m)) (gx_inv child gv M)" for cls
    unfolding ensures_def
  proof (intro allI impI)
    fix w
    assume w: "gx_inv child gv M w"
    obtain r b where c: "gv_create gv cls name ns (gx_build w) = (r, b)" by fastforce
    have "balanced child (M + gx_owned gv w) (nw_calls (gx_build w))" using w by (simp add: gx_inv_def gx_calls_def)
    then have "case gv_create gv cls name ns (gx_build w) of
           (Inl e, b') \<Rightarrow> is_ub e \<or> balanced child (M + gx_owned gv w) (nw_calls b')
         | (Inr None, b') \<Rightarrow> balanced child (M + gx_owned gv w) (nw_calls b')
         | (Inr (Some m), b') \<Rightarrow> balanced child (M + gx_owned gv w + made_handles gv m) (nw_calls b')"
      using cls [unfolded class_accounts_def, rule_format, of "M + gx_owned gv w" "gx_build w" _ name ns] by simp
    then have "case r of Inl e \<Rightarrow> is_ub e \<or> balanced child (M + gx_owned gv w) (nw_calls b)
        | Inr None \<Rightarrow> balanced child (M + gx_owned gv w) (nw_calls b)
        | Inr (Some m) \<Rightarrow> balanced child (M + made_handles gv m + gx_owned gv w) (nw_calls b)"
      unfolding c prod.case by (simp add: ac_simps split: sum.splits option.splits)
    then show "case on_build (gv_create gv cls name ns) w of (Inl e, s') \<Rightarrow> is_ub e \<or> gx_inv child gv M s'
        | (Inr x, s') \<Rightarrow> (case x of None \<Rightarrow> gx_inv child gv M | Some m \<Rightarrow> gx_inv child gv (M + made_handles gv m)) s'"
      using c gx_inv_calls [OF w] by (auto simp: on_build_def split: sum.splits option.splits)
  qed
  note created = ensures_bind [OF this]
  show ?thesis
    unfolding make_node_def Let_def
    by (intro ensures_if ensures_lift_bind plain created) (auto split: option.split intro!: ensures_intros)
qed

lemma attached_entities_iff:
  "e \<in> set (attached_entities w) \<longleftrightarrow> (\<exists>a \<in> snd ` set (ex_attached (xw_exec (gx_exec w))). a_entity a = Some e)"
  by (force simp: attached_entities_def map_filter_def)

lemma gx_add_node_site:
  assumes w: "gx_inv child gv (M + made_handles gv m) w" and run: "gx_add_node gv m w = (r, w')"
  shows "r = Inr (gx_fresh w) \<and> site child gv M (gx_fresh w) [] w'"
proof -
  let ?p = "gx_fresh w"
  have shape: "gx_shape w" and bal: "balanced child (M + made_handles gv m + gx_owned gv w) (gx_calls w)"
    using w by (simp_all add: gx_inv_def)
  have p: "?p \<notin> set (gx_nodes w)" using shape by (auto simp: gx_shape_def)
  let ?w1 = "gx_set_node ?p (mk_node m) w"
  let ?x1 = "(xw_exec (gx_exec w))\<lparr>ex_nodes := gx_nodes w @ [?p], ex_epochs := om_erase ?p (ex_epochs (xw_exec (gx_exec w)))\<rparr>"
  let ?x2 = "reconcile_locked (gx_exec_env gv) (xw_nodes (gx_exec ?w1)) ?x1"
  have r: "r = Inr ?p" and w': "w' = ?w1\<lparr>gx_exec := (gx_exec ?w1)\<lparr>xw_exec := ?x2\<lparr>ex_wake_guard := guard_trigger (ex_wake_guard ?x2)\<rparr>\<rparr>,
      gx_fresh := ?p + 1, gx_cores := (gx_cores w)(?p := mk_core m), gx_params := (gx_params w)(?p := mk_params m),
      gx_members := (gx_members w)(?p := mk_members m)\<rparr>"
    using run p by (auto simp: gx_add_node_def Let_def add_node_def gx_nodes_def)
  have nodes: "gx_nodes w' = gx_nodes w @ [?p]" by (simp add: gx_nodes_def w' reconcile_frame)
  have node: "gx_node q w' = (if q = ?p then mk_node m else gx_node q w)" for q
    by (simp add: w' gx_node_def gx_set_node_def)
  have made: "made_handles gv (gx_made w' q) = (if q = ?p then made_handles gv m else made_handles gv (gx_made w q))" for q
    unfolding gx_made_def node by (simp add: w' made_handles_def)
  have "exec_handles (xw_exec (gx_exec w')) = exec_handles (xw_exec (gx_exec w))"
    using reconcile_handles [of "gx_exec_env gv" "xw_nodes (gx_exec ?w1)" ?x1] by (simp add: w' exec_handles_def)
  moreover have "(\<Sum>q \<in> set (gx_nodes w). made_handles gv (gx_made w' q)) = (\<Sum>q \<in> set (gx_nodes w). made_handles gv (gx_made w q))"
    using p by (intro sum.cong) (auto simp: made)
  ultimately have "gx_owned gv w' = made_handles gv m + gx_owned gv w"
    using p by (simp add: gx_owned_def nodes made ac_simps) (simp add: w')
  then have "balanced child (M + gx_owned gv w') (gx_calls w')" using bal by (simp add: ac_simps) (simp add: w' gx_calls_def gx_set_node_def)
  moreover have "attached_known w'"
    unfolding attached_known_def
  proof
    fix e
    assume "e \<in> set (attached_entities w')"
    then obtain a where a: "a \<in> snd ` set (ex_attached ?x2)" "a_entity a = Some e"
      unfolding attached_entities_iff by (auto simp: w')
    from reconcile_attached_entities [OF this]
    show "\<exists>q \<in> set (gx_nodes w'). e \<in> set (entities (gx_node q w'))"
    proof
      assume "a \<in> snd ` set (ex_attached ?x1)"
      then have "e \<in> set (attached_entities w)" unfolding attached_entities_iff using a(2) by auto
      then show ?thesis using shape p unfolding gx_shape_def attached_known_def nodes node by fastforce
    next
      assume "\<exists>q \<in> set (ex_nodes ?x1). e \<in> set (entities (xw_nodes (gx_exec ?w1) q))"
      then show ?thesis unfolding nodes node by (auto simp: gx_set_node_def gx_node_def split: if_splits)
    qed
  qed
  moreover have "gx_fresh w' = ?p + 1" "entry_pubs w' = entry_pubs w" "gx_pubs w' = gx_pubs w"
    by (simp_all add: w') (simp add: entry_pubs_def)
  ultimately show ?thesis
    using shape p r by (auto simp: site_def gx_inv_def gx_shape_def nodes pubs_listed_def)
qed

lemma site_inv: "site child gv M p as w \<Longrightarrow> gx_inv child gv M w"
  by (simp add: site_def)

lemma ensures_efold:
  assumes "\<And>x b. ensures (P b) (f x b) P E"
  shows "ensures (P b) (efold f xs b) P E"
  by (induction xs arbitrary: b) (auto intro!: ensures_return intro: ensures_bind assms)

lemma build_endpoints_filling:
  assumes "\<And>spec e. ensures (filling child gv M e) (build spec e) (filling child gv M) (gx_inv child gv M)"
  shows "ensures (filling child gv M e) (build_endpoints gv build key spec e) (filling child gv M) (gx_inv child gv M)"
  unfolding build_endpoints_def
  by (intro ensures_if ensures_lift_bind ensures_efold [of "filling child gv M"] ensures_return assms)
    (auto dest: filling_inv)

lemma entry_done:
  assumes "filling child gv M e w"
  shows "gx_inv child gv M (w\<lparr>gx_entries := gx_entries w @ [e]\<rparr>)"
proof -
  let ?w = "w\<lparr>gx_entries := gx_entries w @ [e]\<rparr>"
  have "gx_owned gv ?w = gx_owned gv w" by (simp add: gx_owned_def made_handles_def gx_made_def)
  moreover have "entry_pubs ?w = entry_pubs w @ ge_publishers e" by (simp add: entry_pubs_def)
  ultimately show ?thesis
    using assms by (simp add: filling_def site_def gx_inv_def gx_shape_def attached_known_def pubs_listed_def)
qed

lemma build_node_inv:
  assumes env: "gx_fresh_env child gv" and cls: "class_accounts child gv"
  shows "ensures (gx_inv child gv M) (build_node gv spec) (\<lambda>_. gx_inv child gv M) (gx_inv child gv M)"
proof -
  have add: "ensures (gx_inv child gv (M + made_handles gv m)) (gx_add_node gv m) (\<lambda>p. site child gv M p []) (gx_inv child gv M)" for m
    by (rule ensuresI) (use gx_add_node_site in fastforce)+
  have params: "ensures (site child gv M p []) (build_parameters gv spec e) (\<lambda>_. filling child gv M e) (gx_inv child gv M)"
    if "ge_node e = p" "ge_publishers e = []" for e p
    by (rule ensures_weaken [OF build_parameters_site [OF env, of M e "[]"]])
      (use that in \<open>auto simp: filling_def dest: site_inv\<close>)
  note pubs = build_endpoints_filling [OF build_publisher_filling [OF env]]
    and subs = build_endpoints_filling [OF build_subscription_filling [OF env]]
  show ?thesis
    unfolding build_node_def Let_def
    by (intro ensures_if ensures_throw ensures_lift_bind ensures_bind [OF make_node_inv [OF env cls]] ensures_bind [OF add]
        ensures_bind [OF params] ensures_bind [OF pubs] ensures_bind [OF subs] ensures_modify entry_done) simp_all
qed

lemma gx_impl_ctor_inv:
  assumes env: "gx_fresh_env child gv" and cls: "class_accounts child gv"
  shows "ensures (gx_inv child gv M) (gx_impl_ctor gv json) (\<lambda>_. gx_inv child gv M) (gx_inv child gv M)"
proof -
  have parse: "ensures (gx_inv child gv M) (ecatch (elift r) h) (\<lambda>_. gx_inv child gv M) (gx_inv child gv M)"
    if "\<And>e. ensures (gx_inv child gv M) (h e) (\<lambda>_. gx_inv child gv M) (gx_inv child gv M)" for r :: "'c result" and h
    using that by (auto simp: ensures_def ecatch_def elift_def split: sum.splits prod.splits)
  show ?thesis
    unfolding gx_impl_ctor_def Let_def
    by (intro ensures_bind [OF parse] ensures_throw ensures_if ensures_lift_bind ensures_efor build_node_inv [OF env cls])
qed

text \<open>Publishing concerns no handle.\<close>

definition same_account :: "'u gx_world \<Rightarrow> 'u gx_world \<Rightarrow> bool" where
  "same_account w w' \<longleftrightarrow> gx_exec w' = gx_exec w \<and> gx_build w' = gx_build w \<and> gx_entries w' = gx_entries w \<and>
     gx_cores w' = gx_cores w \<and> gx_members w' = gx_members w \<and> gx_fresh w' = gx_fresh w \<and>
     map rpub_writer (gx_pubs w') = map rpub_writer (gx_pubs w)"

lemma raw_pub_handles_map: "raw_pub_handles ps = (\<Sum>x \<in># mset (map rpub_writer ps). writer_own_handles x)"
  by (simp add: raw_pub_handles_def image_mset.compositionality comp_def)

lemma same_account_inv:
  assumes "same_account w w'"
  shows "gx_inv child gv M w' \<longleftrightarrow> gx_inv child gv M w"
proof -
  have "gx_node p w' = gx_node p w" "gx_nodes w' = gx_nodes w" "entry_pubs w' = entry_pubs w" "gx_calls w' = gx_calls w"
      "attached_entities w' = attached_entities w" for p
    using assms by (simp_all add: same_account_def gx_node_def gx_nodes_def entry_pubs_def gx_calls_def attached_entities_def)
  moreover have "length (gx_pubs w') = length (gx_pubs w)" using assms unfolding same_account_def by (metis length_map)
  moreover have "gx_owned gv w' = gx_owned gv w"
    using assms calculation by (simp add: gx_owned_def raw_pub_handles_map same_account_def made_handles_def gx_made_def)
  ultimately show ?thesis
    using assms by (simp add: gx_inv_def gx_shape_def attached_known_def pubs_listed_def same_account_def)
qed

lemma write_payload_account: "\<exists>w'. write_payload gv a w = (Inr (), w') \<and> same_account w w'"
proof -
  have "map rpub_writer ((gx_pubs w)[a := (gx_pubs w ! a)\<lparr>rpub_published := n\<rparr>]) = map rpub_writer (gx_pubs w)" for n
    by (simp add: map_update list_update_same_conv [THEN iffD2] nth_map list_update_beyond not_less flip: nth_map)
      (metis length_map linorder_not_le list_update_beyond list_update_id nth_map)
  then have "same_account w (counted a (w\<lparr>gx_wires := ws\<rparr>))" for ws
    by (simp add: same_account_def counted_def)
  moreover have "same_account w w" by (simp add: same_account_def)
  ultimately show ?thesis using write_payload_cases(1) [of gv a w] by auto
qed

lemma efor_account:
  assumes "\<And>a w. \<exists>w'. f a w = (Inr (), w') \<and> same_account w w'" "gx_inv child gv M w"
  shows "\<exists>w'. efor f as w = (Inr (), w') \<and> gx_inv child gv M w'"
  using assms(2)
proof (induction as arbitrary: w)
  case (Cons a as)
  obtain w1 where w1: "f a w = (Inr (), w1)" "same_account w w1" using assms(1) by blast
  then have "gx_inv child gv M w1" using same_account_inv Cons.prems by blast
  from Cons.IH [OF this] w1(1) show ?case by (simp add: ebind_def)
qed simp

lemma start_publishing_inv:
  assumes "gx_inv child gv M w"
  shows "\<exists>w'. start_publishing gv w = (Inr (), w') \<and> gx_inv child gv M w'"
proof -
  have "\<exists>w'. start_publisher gv a w = (Inr (), w') \<and> same_account w w'" for a w
    using write_payload_account [of gv a w] by (auto simp: start_publisher_def same_account_def)
  from efor_account [OF this assms] show ?thesis by (simp add: start_publishing_def ebind_def)
qed


section \<open>Running keeps the account\<close>

definition attachments_known :: "'e exec_world \<Rightarrow> bool" where
  "attachments_known w \<longleftrightarrow>
     (\<forall>a \<in> snd ` set (ex_attached (xw_exec w)). \<forall>e. a_entity a = Some e \<longrightarrow>
        (\<exists>p \<in> set (ex_nodes (xw_exec w)). e \<in> set (entities (xw_nodes w p))))"

text \<open>No node, endpoint or handle comes or goes.\<close>

definition steady :: "'e exec_world \<Rightarrow> 'e exec_world \<Rightarrow> bool" where
  "steady w w' \<longleftrightarrow>
     ex_nodes (xw_exec w') = ex_nodes (xw_exec w) \<and> exec_handles (xw_exec w') = exec_handles (xw_exec w) \<and>
     (\<forall>p. node_own_handles (xw_nodes w' p) = node_own_handles (xw_nodes w p) \<and>
        set (entities (xw_nodes w' p)) = set (entities (xw_nodes w p))) \<and>
     (attachments_known w \<longrightarrow> attachments_known w')"

text \<open>The callbacks create and destroy no endpoint.\<close>

definition gx_tame :: "('j, 'u) gx_env \<Rightarrow> bool" where
  "gx_tame gv \<longleftrightarrow>
     (\<forall>t w. steady w (snd (xe_wait (gv_exec gv) t w))) \<and> (\<forall>e w. steady w (snd (xe_dispatch (gv_exec gv) e w)))"

lemma steady_reconcile: "steady w (w\<lparr>xw_exec := reconcile_locked xe (xw_nodes w) (xw_exec w)\<rparr>)"
  using reconcile_attached_entities [of _ xe "xw_nodes w" "xw_exec w"]
  unfolding steady_def attachments_known_def by (fastforce simp: reconcile_frame reconcile_handles)

lemma steady_refl: "steady w w"
  by (simp add: steady_def)

lemmas steady_simps = steady_def attachments_known_def exec_handles_def node_own_handles_def

interpretation steady: exec_relation "gx_exec_env gv" "\<lambda>w w'. gx_tame gv \<longrightarrow> steady w w'" for gv :: "('j, 'u) gx_env"
proof
  show "gx_tame gv \<longrightarrow> steady w (refresh (gx_exec_env gv) w)" for w
    using steady_reconcile [of w "gx_exec_env gv"] steady_refl [of w] by (simp add: refresh_def)
  show "gx_tame gv \<longrightarrow> steady w (absorb_guards w)" for w
    by (simp add: absorb_guards_def steady_simps entities_def)
  show "gx_tame gv \<longrightarrow> steady w (snd (xe_wait (gx_exec_env gv) t w))" for t w
    by (simp add: gx_tame_def gx_exec_env_def)
  show "gx_tame gv \<longrightarrow> steady w (snd (xe_dispatch (gx_exec_env gv) e w))" for e w
    by (simp add: gx_tame_def gx_exec_env_def)
  show "gx_tame gv \<longrightarrow> steady w1 w2 \<Longrightarrow> gx_tame gv \<longrightarrow> steady w2 w3 \<Longrightarrow> gx_tame gv \<longrightarrow> steady w1 w3" for w1 w2 w3
    by (auto simp: steady_def)
qed (simp_all add: steady_simps)

lemma gx_inv_exec:
  assumes "gx_inv child gv M w" "steady (gx_exec w) x"
  shows "gx_inv child gv M (w\<lparr>gx_exec := x\<rparr>)"
proof -
  let ?w = "w\<lparr>gx_exec := x\<rparr>"
  have nodes: "gx_nodes ?w = gx_nodes w" using assms(2) by (simp add: steady_def gx_nodes_def)
  have "made_handles gv (gx_made ?w p) = made_handles gv (gx_made w p)" for p
    using assms(2) by (simp add: steady_def made_handles_def gx_made_def gx_node_def node_entities_handles_def)
  then have "gx_owned gv ?w = gx_owned gv w" using assms(2) by (simp add: gx_owned_def nodes) (simp add: steady_def)
  moreover have "attached_known v \<longleftrightarrow> attachments_known (gx_exec v)" for v :: "'b gx_world"
    unfolding attached_known_def attachments_known_def Ball_def attached_entities_iff Bex_def gx_nodes_def gx_node_def by blast
  ultimately show ?thesis
    using assms by (simp add: gx_inv_def gx_shape_def nodes pubs_listed_def) (simp add: steady_def entry_pubs_def gx_calls_def)
qed

lemma gx_do_inv:
  assumes inv: "gx_inv child gv M w" and tame: "gx_tame gv"
  shows "gx_inv child gv M (gx_do gv c w)"
proof (cases c)
  case GSpin
  have "steady (gx_exec w) x" if "spin (gx_exec_env gv) (gx_exec w) = Some (r, x)" for r x
    using steady.spin_R [rule_format, OF that tame] .
  then show ?thesis using inv GSpin gx_inv_exec by (auto simp: gx_spin_def split: option.splits)
next
  case (GSpinOnce t)
  obtain r x where run: "spin_once (gx_exec_env gv) t (gx_exec w) = (r, x)" by fastforce
  have "steady (gx_exec w) x" using steady.spin_once_R [rule_format, OF tame] run by (metis snd_conv)
  from gx_inv_exec [OF inv this] show ?thesis by (simp add: GSpinOnce gx_spin_once_def run)
next
  case GCancel
  have "steady (gx_exec w) (cancel (gx_exec w))" by (simp add: cancel_def steady_simps)
  from gx_inv_exec [OF inv this] show ?thesis by (simp add: GCancel gx_cancel_def)
next
  case (GThread a)
  obtain w' where w': "write_payload gv a w = (Inr (), w')" "same_account w w'" using write_payload_account by blast
  have "gx_inv child gv M w'" using same_account_inv [OF w'(2)] inv by blast
  then show ?thesis using inv w'(1) by (simp add: GThread)
qed

lemma graph_executor_dtor_returns:
  assumes "gx_inv child gv M w"
  shows "\<exists>w'. graph_executor_dtor gv late w = (Inr (), w') \<and> balanced child M (gx_calls w')"
proof -
  have "steady (gx_exec w) (cancel (gx_exec w))" by (simp add: cancel_def steady_simps)
  from gx_inv_exec [OF assms this] have "gx_inv child gv M (w\<lparr>gx_exec := cancel (gx_exec w)\<rparr>)" .
  moreover have "same_account (w\<lparr>gx_exec := cancel (gx_exec w)\<rparr>) (gx_impl_stop w)"
    by (simp add: same_account_def gx_impl_stop_def)
  ultimately have "gx_inv child gv M (gx_impl_stop w)" using same_account_inv by blast
  from efor_account [of "write_payload gv", OF write_payload_account this] obtain w1 where
    w1: "efor (write_payload gv) late (gx_impl_stop w) = (Inr (), w1)" "gx_inv child gv M w1" by blast
  then show ?thesis using gx_destroy_returns [of w1 child M gv] by (simp add: graph_executor_dtor_def ebind_def gx_inv_def)
qed

section \<open>No handle is left behind\<close>

lemma balanced_self: "balanced child (mset_set (roots child tr)) tr"
  by (simp add: balanced_def)

lemma balanced_self_roots: "balanced child (mset_set (roots child tr)) tr' \<Longrightarrow> roots child tr' = roots child tr"
  using balanced_roots by fastforce

text \<open>The outcome of the constructor.\<close>

lemma graph_executor_new_inv:
  assumes env: "gx_fresh_env child gv" and cls: "class_accounts child gv" and init: "gx_init w"
    and M: "balanced child M (gx_calls w)" and run: "graph_executor_new gv json w = (r, w')"
  shows "case r of Inl e \<Rightarrow> is_ub e \<or> balanced child M (gx_calls w') | Inr _ \<Rightarrow> gx_inv child gv M w'"
proof -
  let ?xc = "gv_executor gv (gx_calls w)"
  obtain rx tr where x: "executor_ctor (xc_cancel ?xc) (xc_wake ?xc) (xc_waitset ?xc) (xc_attach_cancel ?xc) (xc_attach_wake ?xc)
      (gx_calls w) = (rx :: 'b gx_entity executor result, tr)" by fastforce
  have "dds_returns child (gx_calls w) [xc_cancel ?xc, xc_wake ?xc, xc_waitset ?xc] []" "0 \<le> xc_attach_cancel ?xc" "0 \<le> xc_attach_wake ?xc"
    using env by (simp_all add: gx_fresh_env_def Let_def)
  note X = executor_balanced [OF M this x]
  show ?thesis
  proof (cases rx)
    case (Inl e)
    then have "(r, w') = (Inl e, gx_set_calls tr w)" using run x by (simp add: graph_executor_new_def Let_def)
    then show ?thesis using X Inl by (simp add: gx_set_calls_def)
  next
    case (Inr ex)
    let ?w = "gx_set_calls tr (w\<lparr>gx_exec := (gx_exec w)\<lparr>xw_exec := ex\<rparr>\<rparr>)"
    have ex: "ex_nodes ex = []" "ex_attached ex = []" "balanced child (M + exec_handles ex) tr"
      using X unfolding Inr sum.case by blast+
    have w0: "gx_inv child gv M ?w"
      using init ex by (simp add: gx_inv_def gx_shape_def gx_init_def gx_owned_def gx_nodes_def gx_set_calls_def attached_known_def
          attached_entities_def map_filter_def pubs_listed_def entry_pubs_def raw_pub_handles_def gx_calls_def)
    obtain r1 w1 where impl: "gx_impl_ctor gv json ?w = (r1, w1)" by fastforce
    note I = ensuresD [OF gx_impl_ctor_inv [OF env cls] w0]
    show ?thesis
    proof (cases r1)
      case err: (Inl e)
      have "(r, w') = (Inl e, if is_ub e then w1 else gx_destroy gv w1)"
        using run x Inr impl err by (auto simp: graph_executor_new_def ebind_def ecatch_def)
      then show ?thesis using I(2) impl err gx_destroy_returns unfolding gx_inv_def by fastforce
    next
      case ok: (Inr u)
      then obtain w2 where w2: "start_publishing gv w1 = (Inr (), w2)" "gx_inv child gv M w2"
        using start_publishing_inv I(1) impl by blast
      then have "(r, w') = (Inr (), w2)"
        using run x Inr impl ok by (simp add: graph_executor_new_def ebind_def ecatch_def)
      then show ?thesis using w2(2) by simp
    qed
  qed
qed


text \<open>A topology with one plain node that has a parameter and a subscription; and one whose second publisher has a
  payload that is not hexadecimal.\<close>

definition lifetime_topology :: "(string \<times> demo_json) list \<Rightarrow> demo_json" where
  "lifetime_topology content = JObj [(''nodes'', JArr [JObj ((''name'', JStr ''b'') # content)])]"

definition good_content :: "(string \<times> demo_json) list" where
  "good_content = [(''parameters'', JObj [(''rate'', JNum 5)]),
     (''subscriptions'', JArr [JObj [(''topic'', JStr ''/c''), (''type'', JStr ''p/m/T'')]])]"

definition bad_content :: "(string \<times> demo_json) list" where
  "bad_content = [(''publishers'', JArr [JObj [(''topic'', JStr ''/c''), (''type'', JStr ''p/m/T'')],
     JObj [(''topic'', JStr ''/d''), (''type'', JStr ''p/m/T''), (''payload_hex'', JStr ''0'')]])]"

definition demo_index :: "string \<Rightarrow> int" where
  "demo_index x = int (length (takeWhile (\<lambda>y. y \<noteq> x) param_service_suffixes))"

definition lifetime_env :: "(string \<times> demo_json) list \<Rightarrow> (demo_json, service) gx_env" where
  "lifetime_env content =
     \<lparr>gv_json = demo_api (lifetime_topology content),
      gv_node = (\<lambda>tr. demo_node_env\<lparr>ne_we := demo_writer_env, ne_guard := demo_base tr,
        ne_participant := \<lparr>pc_domain = 0, pc_qos = True, pc_participant = demo_base tr + 1, pc_publisher = demo_base tr + 50,
          pc_subscriber = demo_base tr + 51\<rparr>,
        ne_writer := \<lparr>wc_sertype = True, wc_qos = True, wc_topic = demo_base tr + 52, wc_writer = demo_base tr + 2\<rparr>\<rparr>),
      gv_create = (\<lambda>cls name ns. ereturn None),
      gv_exec = \<lparr>xe_cond_of = (\<lambda>_. 0), xe_attach = (\<lambda>_. True), xe_wait = (\<lambda>_ w. ((0, []), w)), xe_dispatch = (\<lambda>_. ereturn ())\<rparr>,
      gv_executor = (\<lambda>tr. \<lparr>xc_cancel = demo_base tr, xc_wake = demo_base tr + 1, xc_waitset = demo_base tr + 2,
        xc_attach_cancel = 0, xc_attach_wake = 0\<rparr>),
      gv_cond = (\<lambda>s. rc_handle (sv_request_reader s)), gv_release = service_handles, gv_wrap = (\<lambda>_ _ s. s),
      gv_service = (\<lambda>tr x. \<lparr>
        sc_reader = \<lparr>rdc_sertype = True, rdc_qos = True, rdc_topic = demo_base tr + (52 + 2 * demo_index x),
          rdc_reader = demo_base tr + (2 + 3 * demo_index x), rdc_condition = demo_base tr + (3 + 3 * demo_index x)\<rparr>,
        sc_writer = \<lparr>wc_sertype = True, wc_qos = True, wc_topic = demo_base tr + (51 + 2 * demo_index x),
          wc_writer = demo_base tr + (1 + 3 * demo_index x)\<rparr>,
        sc_request_name = ''Q'', sc_response_name = ''R''\<rparr>),
      gv_event_type = ''E'', gv_param = demo_param_env,
      gv_writer = (\<lambda>tr. \<lparr>wc_sertype = True, wc_qos = True, wc_topic = demo_base tr + 50, wc_writer = demo_base tr\<rparr>),
      gv_reader = (\<lambda>tr. \<lparr>rdc_sertype = True, rdc_qos = True, rdc_topic = demo_base tr + 50, rdc_reader = demo_base tr,
        rdc_condition = demo_base tr + 1\<rparr>),
      gv_we = (\<lambda>_. demo_writer_env), gv_period = (\<lambda>_. 1000), gv_sleep_until = (\<lambda>_ w. w)\<rparr>"

definition lifetime_world :: "service gx_world" where
  "lifetime_world =
     \<lparr>gx_exec = \<lparr>xw_exec = \<lparr>ex_nodes = [], ex_attached = [], ex_epochs = [], ex_next_id = 2, ex_cancel_requested = False,
        ex_cancel_guard = False, ex_wake_guard = False, ex_waitset = [],
        ex_cancel_handle = - 1, ex_wake_handle = - 1, ex_waitset_handle = - 1\<rparr>,
        xw_nodes = (\<lambda>_. \<lparr>n_name = [], n_ns = [], n_fq_name = [], n_domain_id = 0, n_entities = [], n_epoch = 0,
          n_guard = False, n_guard_handle = - 1, n_participant = n_participant demo_node, n_discovery = n_discovery demo_node\<rparr>),
        xw_log = []\<rparr>,
      gx_build = \<lparr>nw_ctx = ctx_globals_init, nw_calls = [], nw_wire = []\<rparr>, gx_entries = [], gx_pubs = [], gx_subs = [],
      gx_wires = (\<lambda>_. []), gx_cores = (\<lambda>_. None), gx_params = (\<lambda>_. param_state_init), gx_members = (\<lambda>_. []), gx_fresh = 0,
      gx_running = True, gx_threads = []\<rparr>"

lemma lifetime_env_fresh: "gx_fresh_env demo_child (lifetime_env content)"
proof -
  have node: "dds_returns demo_child tr [demo_base tr, demo_base tr + 1, demo_base tr + 2]
      [demo_base tr + 50, demo_base tr + 51, demo_base tr + 52]"
    and exec: "dds_returns demo_child tr [demo_base tr, demo_base tr + 1, demo_base tr + 2] []"
    and reader: "dds_returns demo_child tr [demo_base tr, demo_base tr + 1] [demo_base tr + 50]" for tr
    using demo_returns [of "[0, 1, 2]" "[50, 51, 52]" tr] demo_returns [of "[0, 1, 2]" "[]" tr] demo_returns [of "[0, 1]" "[50]" tr]
    by simp_all
  have idx: "map demo_index param_service_suffixes = [0, 1, 2, 3, 4, 5]" by code_simp
  have "concat (map (\<lambda>x. service_new (gv_service (lifetime_env content) tr x)) xs) =
      map (\<lambda>i. demo_base tr + i) (concat (map (\<lambda>k. [1 + 3 * k, 2 + 3 * k, 3 + 3 * k]) (map demo_index xs)))" for tr xs
    by (induction xs) (simp_all add: service_new_def lifetime_env_def)
  then have new: "core_new (gv_writer (lifetime_env content) tr) (gv_service (lifetime_env content) tr) =
      map (\<lambda>i. demo_base tr + i) (0 # concat (map (\<lambda>k. [1 + 3 * k, 2 + 3 * k, 3 + 3 * k]) (map demo_index param_service_suffixes)))" for tr
    by (simp add: core_new_def) (simp add: lifetime_env_def)
  have "concat (map (\<lambda>x. service_kids (gv_service (lifetime_env content) tr x)) xs) =
      map (\<lambda>i. demo_base tr + i) (concat (map (\<lambda>k. [51 + 2 * k, 52 + 2 * k]) (map demo_index xs)))" for tr xs
    by (induction xs) (simp_all add: service_kids_def lifetime_env_def)
  then have kids: "core_kids (gv_writer (lifetime_env content) tr) (gv_service (lifetime_env content) tr) =
      map (\<lambda>i. demo_base tr + i) (50 # concat (map (\<lambda>k. [51 + 2 * k, 52 + 2 * k]) (map demo_index param_service_suffixes)))" for tr
    by (simp add: core_kids_def) (simp add: lifetime_env_def)
  have core: "dds_returns demo_child tr (core_new (gv_writer (lifetime_env content) tr) (gv_service (lifetime_env content) tr))
      (core_kids (gv_writer (lifetime_env content) tr) (gv_service (lifetime_env content) tr))" for tr
    unfolding new kids idx by (rule demo_returns) simp_all
  have "0 \<le> demo_base tr + i" if "0 \<le> i" for tr i
    using that demo_base_new(2) [of 0 tr] by simp
  moreover have "0 \<le> demo_index x" for x by (simp add: demo_index_def)
  ultimately show ?thesis
    unfolding gx_fresh_env_def using node exec reader core by (simp add: Let_def) (simp add: lifetime_env_def)
qed

lemma lifetime_env_classes: "class_accounts child (lifetime_env content)"
  by (simp add: class_accounts_def lifetime_env_def)

lemma lifetime_env_tame: "gx_tame (lifetime_env content)"
  by (simp add: gx_tame_def lifetime_env_def steady_refl)

lemma lifetime_outcomes:
  "fst (graph_executor_new (lifetime_env good_content) [] lifetime_world) = Inr ()"
  "fst (graph_executor_new (lifetime_env bad_content) [] lifetime_world) =
     Inl (InvalidArguments (''node /b publisher: odd hex length''))"
  by code_simp+

lemma lifetime_world_init: "gx_init lifetime_world"
  by (simp add: gx_init_def lifetime_world_def)


end
