(* ===== verification/Ffi_Graph.thy ===== *)
theory Ffi_Graph
  imports Ffi Graph_Monitor Graph_Lifetime
begin

text \<open>
  The part of the Python bindings (\<^verbatim>\<open>src/ffi/rcllite_ffi.cpp\<close>) that concerns the graph: the process-wide monitor
  and the registry of graph executors.  The code that uses a raw pointer after the lock was released is
  split into the part before and the part after.
\<close>

section \<open>The graph monitor\<close>

text \<open>\<^verbatim>\<open>g_graph\<close> owns the monitor; \<open>fg_heap\<close> is the memory: \<open>None\<close> once the object is destroyed.  \<open>fg_build\<close> is the
  state of DDS in the process.\<close>

record ffi_graph =
  fg_heap :: "monitor option list"
  fg_current :: "nat option"
  fg_build :: node_world

definition GraphStart :: "monitor_calls \<Rightarrow> bool \<Rightarrow> (ffi_graph, unit) eff" where
  "GraphStart mc thread_ok s =
     (if fg_current s \<noteq> None then (Inr (), s)
      else case graph_monitor_ctor mc thread_ok (fg_build s) of
             (Inl e, b) \<Rightarrow> (Inl e, s\<lparr>fg_build := b\<rparr>)
           | (Inr m, b) \<Rightarrow>
               (Inr (), s\<lparr>fg_heap := fg_heap s @ [Some m], fg_current := Some (length (fg_heap s)), fg_build := b\<rparr>))"

text \<open>\<^verbatim>\<open>g_graph.reset()\<close>: the destructor joins the thread and releases the DDS entities.\<close>

definition GraphStop :: "(ffi_graph, unit) eff" where
  "GraphStop s =
     (case fg_current s of
        None \<Rightarrow> (Inr (), s)
      | Some a \<Rightarrow>
          (case fg_heap s ! a of
             None \<Rightarrow> (Inl (UndefinedBehaviour ''second destruction of a graph monitor''), s)
           | Some m \<Rightarrow>
               (case on_calls (monitor_impl_dtor m) (fg_build s) of
                  (r, b) \<Rightarrow> (r, s\<lparr>fg_heap := (fg_heap s)[a := None], fg_current := None, fg_build := b\<rparr>))))"

text \<open>\<^verbatim>\<open>GraphSnapshot_\<close>: the part under the lock and the part after it.\<close>

definition GraphSnapshot_pointer :: "(ffi_graph, nat) eff" where
  "GraphSnapshot_pointer s =
     (case fg_current s of None \<Rightarrow> (Inl (ValueError ''graph monitor not started''), s) | Some a \<Rightarrow> (Inr a, s))"

definition GraphSnapshot_document :: "nat \<Rightarrow> (ffi_graph, string) eff" where
  "GraphSnapshot_document a s =
     (case fg_heap s ! a of
        None \<Rightarrow> (Inl (UndefinedBehaviour ''use of a destroyed graph monitor''), s)
      | Some m \<Rightarrow> (snapshot_json (gm_graph m), s))"

definition GraphSnapshot :: "(ffi_graph, string) eff" where
  "GraphSnapshot = ebind GraphSnapshot_pointer GraphSnapshot_document"


section \<open>Graph executors\<close>

text \<open>The graph executors share the state of DDS in the process, \<open>fx_build\<close>; the field \<open>gx_build\<close> of an object that
  is not running is not used.\<close>

record 'u ffi_execs =
  fx_heap :: "'u gx_world option list"
  fx_map :: "(int, nat) omap"
  fx_next :: int
  fx_build :: node_world

text \<open>\<open>blank\<close> is an \<^verbatim>\<open>Impl\<close> before its members are initialised.\<close>

definition GraphExecCreate :: "('j, 'u) gx_env \<Rightarrow> 'u gx_world \<Rightarrow> string \<Rightarrow> ('u ffi_execs, int) eff" where
  "GraphExecCreate gv blank json_topology s =
     (case graph_executor_new gv json_topology (blank\<lparr>gx_build := fx_build s\<rparr>) of
        (Inl e, g) \<Rightarrow> (Inl e, s\<lparr>fx_build := gx_build g\<rparr>)
      | (Inr _, g) \<Rightarrow>
          let s1 = s\<lparr>fx_heap := fx_heap s @ [Some g], fx_build := gx_build g\<rparr>; h = fx_next s in
          if in_int64 (h + 1)
          then (Inr h, s1\<lparr>fx_next := h + 1, fx_map := om_emplace h (length (fx_heap s)) (fx_map s)\<rparr>)
          else (Inl (UndefinedBehaviour ''handle counter overflow''), s1))"

definition graph_exec_lookup :: "int \<Rightarrow> ('u ffi_execs, nat) eff" where
  "graph_exec_lookup h s =
     (case om_find (fx_map s) h of
        None \<Rightarrow> (Inl (ValueError (''unknown graph executor handle: '' @ show_int h)), s)
      | Some a \<Rightarrow> (Inr a, s))"

definition exec_put :: "nat \<Rightarrow> 'u gx_world \<Rightarrow> 'u gx_world \<Rightarrow> 'u ffi_execs \<Rightarrow> 'u ffi_execs" where
  "exec_put a g g' s = s\<lparr>fx_heap := (fx_heap s)[a := Some (g'\<lparr>gx_build := gx_build g\<rparr>)], fx_build := gx_build g'\<rparr>"

text \<open>A call on the object the lookup returned a raw pointer to.\<close>

definition on_exec :: "nat \<Rightarrow> ('u gx_world, 'a) eff \<Rightarrow> ('u ffi_execs, 'a) eff" where
  "on_exec a f s =
     (case fx_heap s ! a of
        None \<Rightarrow> (Inl (UndefinedBehaviour ''use of a destroyed graph executor''), s)
      | Some g \<Rightarrow> (case f (g\<lparr>gx_build := fx_build s\<rparr>) of (r, g') \<Rightarrow> (r, exec_put a g g' s)))"

definition GraphExecSpin :: "('j, 'u) gx_env \<Rightarrow> int \<Rightarrow> 'u ffi_execs \<Rightarrow> (unit result \<times> 'u ffi_execs) option" where
  "GraphExecSpin gv h s =
     (case graph_exec_lookup h s of
        (Inl e, s1) \<Rightarrow> Some (Inl e, s1)
      | (Inr a, s1) \<Rightarrow>
          (case fx_heap s1 ! a of
             None \<Rightarrow> Some (Inl (UndefinedBehaviour ''use of a destroyed graph executor''), s1)
           | Some g \<Rightarrow> map_option (\<lambda>(r, g'). (r, exec_put a g g' s1)) (gx_spin gv (g\<lparr>gx_build := fx_build s1\<rparr>))))"

definition GraphExecSpinOnce :: "('j, 'u) gx_env \<Rightarrow> int \<Rightarrow> int \<Rightarrow> ('u ffi_execs, bool) eff" where
  "GraphExecSpinOnce gv h timeout_ms =
     ebind (graph_exec_lookup h) (\<lambda>a.
       if \<not> in_int64 (timeout_ms * 1000000) then ethrow (UndefinedBehaviour ''timeout overflow'')
       else on_exec a (gx_spin_once gv (timeout_ms * 1000000)))"

definition GraphExecCancel :: "int \<Rightarrow> ('u ffi_execs, unit) eff" where
  "GraphExecCancel h = ebind (graph_exec_lookup h) (\<lambda>a. on_exec a (emodify gx_cancel))"

definition GraphExecStatus :: "int \<Rightarrow> ('u ffi_execs, string) eff" where
  "GraphExecStatus h = ebind (graph_exec_lookup h) (\<lambda>a. on_exec a (egets status_json))"

definition GraphExecRegisteredNodes :: "string list \<Rightarrow> string" where
  "GraphExecRegisteredNodes registered = registered_nodes_json registered"

text \<open>The entry leaves the registry under the lock, the object is destroyed after it; \<open>late\<close> are the publisher
  threads that write once more before they are joined.\<close>

definition GraphExecDestroy :: "('j, 'u) gx_env \<Rightarrow> nat list \<Rightarrow> int \<Rightarrow> ('u ffi_execs, unit) eff" where
  "GraphExecDestroy gv late h s =
     (case om_find (fx_map s) h of
        None \<Rightarrow> (Inr (), s)
      | Some a \<Rightarrow>
          (case fx_heap s ! a of
             None \<Rightarrow> (Inl (UndefinedBehaviour ''second destruction of a graph executor''), s)
           | Some g \<Rightarrow>
               (case graph_executor_dtor gv late (g\<lparr>gx_build := fx_build s\<rparr>) of
                  (r, g') \<Rightarrow>
                    (r, s\<lparr>fx_map := om_erase h (fx_map s), fx_heap := (fx_heap s)[a := None], fx_build := gx_build g'\<rparr>))))"


section \<open>Handles of graph executors\<close>

text \<open>The registry of graph executors is another source of handles.\<close>

definition heap_live :: "'a option list \<Rightarrow> nat \<Rightarrow> bool" where
  "heap_live m a \<longleftrightarrow> a < length m \<and> m ! a \<noteq> None"

lemma heap_live_simps:
  "heap_live m a \<Longrightarrow> heap_live (m @ ms) a"
  "heap_live (m @ [Some v]) (length m)"
  "heap_live m a \<Longrightarrow> heap_live (m[b := Some v]) a"
  "heap_live m a \<Longrightarrow> a \<noteq> b \<Longrightarrow> heap_live (m[b := None]) a"
  by (cases "a = b"; auto simp: heap_live_def nth_append)+

definition execs_ok :: "'u ffi_execs \<Rightarrow> bool" where
  "execs_ok s \<longleftrightarrow> om_ok (fx_map s) \<and> set (om_keys (fx_map s)) \<subseteq> {1..<fx_next s} \<and> 1 \<le> fx_next s \<and>
     (\<forall>h a. om_find (fx_map s) h = Some a \<longrightarrow> heap_live (fx_heap s) a) \<and>
     (\<forall>h h' a. om_find (fx_map s) h = Some a \<longrightarrow> om_find (fx_map s) h' = Some a \<longrightarrow> h = h')"

text \<open>The calls, and what the publisher threads do in between.  A call with undefined behaviour has no successor.\<close>

inductive execs_step :: "('j, 'u) gx_env \<Rightarrow> 'u gx_world \<Rightarrow> 'u ffi_execs \<Rightarrow> 'u ffi_execs \<Rightarrow> bool"
  for gv :: "('j, 'u) gx_env" and blank :: "'u gx_world" where
  x_create: "GraphExecCreate gv blank json s = (r, t) \<Longrightarrow> \<not> may_ub r \<Longrightarrow> execs_step gv blank s t"
| x_spin: "GraphExecSpin gv h s = Some (r, t) \<Longrightarrow> execs_step gv blank s t"
| x_spin_once: "execs_step gv blank s (snd (GraphExecSpinOnce gv h tm s))"
| x_cancel: "execs_step gv blank s (snd (GraphExecCancel h s))"
| x_status: "execs_step gv blank s (snd (GraphExecStatus h s))"
| x_thread: "heap_live (fx_heap s) a \<Longrightarrow>
    execs_step gv blank s (snd (on_exec a (emodify (gx_do gv (GThread b))) s))"
| x_destroy: "execs_step gv blank s (snd (GraphExecDestroy gv late h s))"

lemma on_exec_frame:
  assumes "execs_ok s" "on_exec a f s = (r, s')"
  shows "fx_map s' = fx_map s" "fx_next s' = fx_next s" "execs_ok s'"
  using assms
  by (auto simp: on_exec_def exec_put_def execs_ok_def heap_live_simps split: option.splits prod.splits)

lemma exec_call_frame:
  fixes g :: "nat \<Rightarrow> ('u ffi_execs, 'b) eff"
  assumes ok: "execs_ok s" and t: "t = snd (ebind (graph_exec_lookup h) g s)"
    and g: "\<And>a. (\<exists>e. g a = ethrow e) \<or> (\<exists>f. g a = on_exec a f)"
  shows "execs_ok t \<and> fx_next s \<le> fx_next t \<and> set (om_keys (fx_map t)) \<subseteq> set (om_keys (fx_map s)) \<union> {fx_next s..<fx_next t}"
proof -
  have "t = s \<or> (\<exists>a (f :: ('u gx_world, 'b) eff). t = snd (on_exec a f s))"
  proof (cases "om_find (fx_map s) h")
    case (Some a)
    then have "t = snd (g a s)" using t by (simp add: graph_exec_lookup_def ebind_def)
    with g [of a] show ?thesis by fastforce
  qed (use t in \<open>auto simp: graph_exec_lookup_def ebind_def\<close>)
  then show ?thesis
  proof
    assume "\<exists>a (f :: ('u gx_world, 'b) eff). t = snd (on_exec a f s)"
    then obtain a r and f :: "('u gx_world, 'b) eff" where "on_exec a f s = (r, t)" by (metis prod.collapse)
    from on_exec_frame [OF ok this] show ?thesis by simp
  qed (use ok in simp)
qed

lemma execs_create:
  assumes ok: "execs_ok s" and run: "GraphExecCreate gv blank json s = (r, t)"
  shows "execs_ok t \<and> fx_next s \<le> fx_next t \<and> set (om_keys (fx_map t)) \<subseteq> set (om_keys (fx_map s)) \<union> {fx_next s..<fx_next t}"
proof -
  have new: "om_find (fx_map s) (fx_next s) = None"
    using ok by (auto simp: execs_ok_def om_find_eq_None_iff)
  have len: "om_find (fx_map s) h \<noteq> Some (length (fx_heap s))" for h
    using ok unfolding execs_ok_def heap_live_def by blast
  have keys: "set (om_keys (om_emplace (fx_next s) (length (fx_heap s)) (fx_map s))) \<subseteq> {1..<fx_next s + 1}"
    using ok new by (auto simp: execs_ok_def om_emplace_def)
  obtain r1 g where c: "graph_executor_new gv json (blank\<lparr>gx_build := fx_build s\<rparr>) = (r1, g)" by fastforce
  show ?thesis
  proof (cases r1)
    case (Inl e)
    then show ?thesis using ok run c by (auto simp: GraphExecCreate_def execs_ok_def)
  next
    case (Inr u)
    then have "execs_ok t"
      using ok new len keys run c unfolding execs_ok_def
      by (auto simp: GraphExecCreate_def Let_def om_emplace_def heap_live_simps split: if_splits)
    moreover have "fx_next s \<le> fx_next t \<and> set (om_keys (fx_map t)) \<subseteq> set (om_keys (fx_map s)) \<union> {fx_next s..<fx_next t}"
      using new run c Inr by (auto simp: GraphExecCreate_def Let_def om_emplace_def split: if_splits)
    ultimately show ?thesis by blast
  qed
qed

lemma destroy_cases:
  "(om_find (fx_map s) h = None \<or> (\<exists>a. om_find (fx_map s) h = Some a \<and> fx_heap s ! a = None)) \<and>
     snd (GraphExecDestroy gv late h s) = s \<or>
   (\<exists>a g. om_find (fx_map s) h = Some a \<and> fx_heap s ! a = Some g \<and>
     snd (GraphExecDestroy gv late h s) = s\<lparr>fx_map := om_erase h (fx_map s), fx_heap := (fx_heap s)[a := None],
       fx_build := gx_build (snd (graph_executor_dtor gv late (g\<lparr>gx_build := fx_build s\<rparr>)))\<rparr>)"
  by (auto simp: GraphExecDestroy_def split: option.splits prod.splits)

lemma execs_destroy:
  assumes "execs_ok s" "t = snd (GraphExecDestroy gv late h s)"
  shows "execs_ok t \<and> fx_next t = fx_next s \<and> set (om_keys (fx_map t)) \<subseteq> set (om_keys (fx_map s)) - {h}"
  using destroy_cases [of s h gv late]
proof (elim disjE conjE exE)
  fix a g
  assume a: "om_find (fx_map s) h = Some a"
    and t: "snd (GraphExecDestroy gv late h s) = s\<lparr>fx_map := om_erase h (fx_map s), fx_heap := (fx_heap s)[a := None],
       fx_build := gx_build (snd (graph_executor_dtor gv late (g\<lparr>gx_build := fx_build s\<rparr>)))\<rparr>"
  have "om_find (fx_map s) h' \<noteq> Some a" if "h' \<noteq> h" for h' using assms(1) a that unfolding execs_ok_def by blast
  then have "execs_ok t"
    using assms(1) unfolding execs_ok_def assms(2) t by (auto intro!: heap_live_simps(4) split: if_splits)
  then show ?thesis unfolding assms(2) t by auto
next
  fix a
  assume "om_find (fx_map s) h = Some a" "fx_heap s ! a = None"
  then show ?thesis using assms(1) unfolding execs_ok_def heap_live_def by blast
qed (use assms in \<open>simp add: om_find_eq_None_iff\<close>)

lemma execs_spin:
  assumes "execs_ok s" "GraphExecSpin gv h s = Some (r, t)"
  shows "execs_ok t \<and> fx_next t = fx_next s \<and> fx_map t = fx_map s"
  using assms
  by (auto simp: GraphExecSpin_def graph_exec_lookup_def exec_put_def execs_ok_def heap_live_simps split: option.splits prod.splits)

interpretation exec_handles: handle_registry fx_next "\<lambda>s. set (om_keys (fx_map s))" "execs_step gv blank" execs_ok
  for gv :: "('j, 'u) gx_env" and blank :: "'u gx_world"
proof
  fix s t :: "'u ffi_execs"
  show "set (om_keys (fx_map s)) \<subseteq> {1..<fx_next s}" if "execs_ok s" using that by (simp add: execs_ok_def)
  assume ok: "execs_ok s" and step: "execs_step gv blank s t"
  have "execs_ok t \<and> fx_next s \<le> fx_next t \<and> set (om_keys (fx_map t)) \<subseteq> set (om_keys (fx_map s)) \<union> {fx_next s..<fx_next t}"
    using step
  proof (cases rule: execs_step.cases)
    case (x_create json r)
    then show ?thesis using execs_create [OF ok] by blast
  next
    case (x_spin h r)
    then show ?thesis using execs_spin [OF ok] by fastforce
  next
    case (x_spin_once h tm)
    then show ?thesis unfolding GraphExecSpinOnce_def by (rule exec_call_frame [OF ok]) auto
  next
    case (x_cancel h)
    then show ?thesis unfolding GraphExecCancel_def by (rule exec_call_frame [OF ok]) auto
  next
    case (x_status h)
    then show ?thesis unfolding GraphExecStatus_def by (rule exec_call_frame [OF ok]) auto
  next
    case (x_thread a b)
    then obtain r where "on_exec a (emodify (gx_do gv (GThread b))) s = (r, t)" by (metis prod.collapse)
    from on_exec_frame [OF ok this] show ?thesis by simp
  next
    case (x_destroy late h)
    then show ?thesis using execs_destroy [OF ok, of t gv late h] by auto
  qed
  then show "execs_ok t" "fx_next s \<le> fx_next t" "set (om_keys (fx_map t)) \<subseteq> set (om_keys (fx_map s)) \<union> {fx_next s..<fx_next t}"
    by auto
qed


text \<open>C28: The raw pointers of the bindings are sound only without a concurrent stop: in a consistent state a
  lookup yields a live object, but when \<^verbatim>\<open>graph_exec_destroy\<close> of the same handle runs before the call
  on the pointer, the call uses a destroyed object; \<^verbatim>\<open>graph_snapshot\<close> has the same window against
  \<^verbatim>\<open>graph_stop\<close>.\<close>

theorem raw_pointer_windows:
  assumes "execs_ok s" "om_find (fx_map s) h = Some a" "fg_current m = Some b" "heap_live (fg_heap m) b"
  shows "graph_exec_lookup h s = (Inr a, s) \<and> (\<exists>g. fx_heap s ! a = Some g \<and> GraphExecStatus h s = (Inr (status_json g), s)) \<and>
    fst (on_exec a (egets status_json) (snd (GraphExecDestroy gv late h s))) =
      Inl (UndefinedBehaviour ''use of a destroyed graph executor'') \<and>
    (\<exists>d. fg_heap m ! b = Some d \<and> GraphSnapshot m = (snapshot_json (gm_graph d), m)) \<and>
    GraphSnapshot_pointer m = (Inr b, m) \<and>
    fst (GraphSnapshot_document b (snd (GraphStop m))) = Inl (UndefinedBehaviour ''use of a destroyed graph monitor'')"
proof -
  have "heap_live (fx_heap s) a" using assms(1,2) by (simp add: execs_ok_def)
  then obtain g where g: "a < length (fx_heap s)" "fx_heap s ! a = Some g" by (auto simp: heap_live_def)
  then have same: "(fx_heap s)[a := Some g] = fx_heap s" by (metis list_update_id)
  obtain d where d: "b < length (fg_heap m)" "fg_heap m ! b = Some d" using assms(4) by (auto simp: heap_live_def)
  have "entry_json (g\<lparr>gx_build := b\<rparr>) = entry_json g" for b by (simp add: fun_eq_iff entry_json_def)
  then have "status_json (g\<lparr>gx_build := b\<rparr>) = status_json g" for b by (simp add: status_json_def)
  then show ?thesis
    using assms(2,3) g same d
    by (simp add: graph_exec_lookup_def GraphExecStatus_def ebind_def on_exec_def exec_put_def GraphExecDestroy_def
        GraphSnapshot_def GraphSnapshot_pointer_def GraphSnapshot_document_def GraphStop_def split: prod.splits)
qed

definition demo_execs :: "nat ffi_execs" where
  "demo_execs = \<lparr>fx_heap = [Some demo_gx_world], fx_map = [(1, 0)], fx_next = 2, fx_build = gx_build demo_gx_world\<rparr>"

definition demo_monitor :: monitor where
  "demo_monitor = \<lparr>gm_ppant = n_participant demo_node, gm_discovery_rd = \<lparr>rd_handle = 40, rc_handle = 41\<rparr>,
     gm_rosout_rd = \<lparr>rd_handle = 42, rc_handle = 43\<rparr>, gm_stop_guard = 44, gm_waitset = 45, gm_slots = [], gm_graph = demo_graph\<rparr>"

definition demo_ffi_graph :: ffi_graph where
  "demo_ffi_graph = \<lparr>fg_heap = [Some demo_monitor], fg_current = Some 0, fg_build = gx_build demo_gx_world\<rparr>"

theorem raw_pointer_windows_witness:
  "fst (on_exec 0 (egets status_json) (snd (GraphExecDestroy demo_gx_env [] 1 demo_execs))) =
      Inl (UndefinedBehaviour ''use of a destroyed graph executor'') \<and>
   fst (GraphSnapshot_document 0 (snd (GraphStop demo_ffi_graph))) =
      Inl (UndefinedBehaviour ''use of a destroyed graph monitor'')"
proof -
  have "execs_ok demo_execs"
    by (simp add: execs_ok_def demo_execs_def heap_live_def om_find_Cons om_keys_def split: if_splits)
  moreover have "om_find (fx_map demo_execs) 1 = Some 0" by (simp add: demo_execs_def om_find_Cons)
  moreover have "fg_current demo_ffi_graph = Some 0" "heap_live (fg_heap demo_ffi_graph) 0"
    by (simp_all add: demo_ffi_graph_def heap_live_def)
  ultimately show ?thesis using raw_pointer_windows by blast
qed

text \<open>The handles of graph executors are not reused either: once destroyed, a handle stays unknown.\<close>

theorem graph_exec_handles_never_reused:
  assumes "execs_ok s" "(execs_step gv blank)\<^sup>*\<^sup>* (snd (GraphExecDestroy gv late h s)) t" "h < fx_next s"
  shows "graph_exec_lookup h t = (Inl (ValueError (''unknown graph executor handle: '' @ show_int h)), t)"
proof -
  let ?s = "snd (GraphExecDestroy gv late h s)"
  have "execs_ok ?s" "h \<notin> set (om_keys (fx_map ?s))" "fx_next ?s = fx_next s"
    using execs_destroy [OF assms(1) refl, of gv late h] by auto
  then have "h \<notin> set (om_keys (fx_map t))"
    using exec_handles.never_reused [OF assms(2)] assms(3) by simp
  then show ?thesis by (simp add: graph_exec_lookup_def om_find_eq_None_iff [symmetric])
qed

section \<open>The handles of the graph executors\<close>

definition cell_owned :: "('j, 'u) gx_env \<Rightarrow> 'u gx_world option \<Rightarrow> dds_entity multiset" where
  "cell_owned gv c = (case c of None \<Rightarrow> {#} | Some g \<Rightarrow> gx_owned gv g)"

definition execs_owned :: "('j, 'u) gx_env \<Rightarrow> 'u ffi_execs \<Rightarrow> dds_entity multiset" where
  "execs_owned gv s = (\<Sum>c \<in># mset (fx_heap s). cell_owned gv c)"

text \<open>Every object is well formed and reachable by a handle, and the open handles are those of the objects and
  the ones that were open before, \<open>M\<close>.\<close>

definition execs_account :: "(dds_entity \<Rightarrow> bool) \<Rightarrow> ('j, 'u) gx_env \<Rightarrow> dds_entity multiset \<Rightarrow> 'u ffi_execs \<Rightarrow> bool" where
  "execs_account child gv M s \<longleftrightarrow>
     execs_ok s \<and> (\<forall>g. Some g \<in> set (fx_heap s) \<longrightarrow> gx_shape g) \<and>
     (\<forall>a. heap_live (fx_heap s) a \<longrightarrow> (\<exists>h. om_find (fx_map s) h = Some a)) \<and>
     balanced child (M + execs_owned gv s) (nw_calls (fx_build s))"

text \<open>The rest of the registry, as a frame for the object at \<open>a\<close>.\<close>

definition execs_rest :: "('j, 'u) gx_env \<Rightarrow> nat \<Rightarrow> 'u gx_world option list \<Rightarrow> dds_entity multiset" where
  "execs_rest gv a m = (\<Sum>c \<in># mset m - {#m ! a#}. cell_owned gv c)"

lemma execs_rest_update:
  assumes "a < length m"
  shows "(\<Sum>c \<in># mset (m[a := c]). cell_owned gv c) = cell_owned gv c + execs_rest gv a m"
  using assms by (simp add: execs_rest_def mset_update)

lemma execs_rest_split:
  assumes "a < length (fx_heap s)" "fx_heap s ! a = Some g"
  shows "execs_owned gv s = gx_owned gv g + execs_rest gv a (fx_heap s)"
  using execs_rest_update [OF assms(1), of gv "fx_heap s ! a"]
  unfolding list_update_id by (simp add: assms(2) execs_owned_def cell_owned_def)

lemma gx_owned_build: "gx_owned gv (g\<lparr>gx_build := b\<rparr>) = gx_owned gv g"
  by (simp add: gx_owned_def made_handles_def gx_made_def)

lemma gx_shape_build: "gx_shape (g\<lparr>gx_build := b\<rparr>) = gx_shape g"
  by (simp add: gx_shape_def attached_known_def pubs_listed_def)

lemma account_object:
  assumes "execs_account child gv M s" "a < length (fx_heap s)" "fx_heap s ! a = Some g"
  shows "gx_inv child gv (M + execs_rest gv a (fx_heap s)) (g\<lparr>gx_build := fx_build s\<rparr>)"
  using assms nth_mem [OF assms(2)]
  by (simp add: gx_inv_def gx_owned_build gx_shape_build execs_account_def execs_rest_split [OF assms(2,3)] ac_simps)

text \<open>A call that keeps the account of its object keeps that of the registry.\<close>

lemma account_put:
  assumes acc: "execs_account child gv M s" and a: "a < length (fx_heap s)" "fx_heap s ! a = Some g"
    and g': "gx_inv child gv (M + execs_rest gv a (fx_heap s)) g'" and ok: "execs_ok (exec_put a g g' s)"
  shows "execs_account child gv M (exec_put a g g' s)"
proof -
  let ?t = "exec_put a g g' s" and ?c = "Some (g'\<lparr>gx_build := gx_build g\<rparr>)"
  have "execs_owned gv ?t = gx_owned gv g' + execs_rest gv a (fx_heap s)"
    unfolding execs_owned_def exec_put_def by (simp add: execs_rest_update [OF a(1)]) (simp add: cell_owned_def gx_owned_build)
  then have "balanced child (M + execs_owned gv ?t) (nw_calls (fx_build ?t))"
    using g' by (simp add: gx_inv_def exec_put_def gx_calls_def ac_simps)
  moreover have "gx_shape k" if "Some k \<in> set (fx_heap ?t)" for k
    using that acc g' set_update_subset_insert [of "fx_heap s" a ?c]
    by (auto simp: exec_put_def execs_account_def gx_inv_def gx_shape_build dest!: subsetD)
  moreover have "\<exists>h. om_find (fx_map ?t) h = Some b" if "heap_live (fx_heap ?t) b" for b
  proof -
    have "heap_live (fx_heap s) b" using that a by (cases "b = a") (auto simp: heap_live_def exec_put_def)
    then show ?thesis using acc by (simp add: execs_account_def exec_put_def)
  qed
  ultimately show ?thesis using ok by (simp add: execs_account_def)
qed

lemma on_exec_account:
  assumes acc: "execs_account child gv M s" and a: "a < length (fx_heap s)"
    and f: "\<And>M g. gx_inv child gv M g \<Longrightarrow> gx_inv child gv M (snd (f g))"
  shows "execs_account child gv M (snd (on_exec a f s))"
proof (cases "fx_heap s ! a")
  case None
  then show ?thesis using acc by (simp add: on_exec_def)
next
  case (Some g)
  let ?g = "snd (f (g\<lparr>gx_build := fx_build s\<rparr>))"
  have t: "snd (on_exec a f s) = exec_put a g ?g s" using Some by (simp add: on_exec_def split: prod.splits)
  have "execs_ok (exec_put a g ?g s)"
    using on_exec_frame(3) [of s a f "fst (on_exec a f s)"] acc t by (simp add: execs_account_def flip: t)
  then show ?thesis unfolding t by (intro account_put [OF acc a Some f [OF account_object [OF acc a Some]]])
qed

lemma registered_live:
  assumes "execs_account child gv M s" "om_find (fx_map s) h = Some a"
  obtains g where "a < length (fx_heap s)" "fx_heap s ! a = Some g"
proof -
  have "heap_live (fx_heap s) a" using assms unfolding execs_account_def execs_ok_def by blast
  then show thesis using that by (auto simp: heap_live_def)
qed

lemma looked_up_account:
  assumes acc: "execs_account child gv M s"
    and t: "t = snd (ebind (graph_exec_lookup h) (\<lambda>a. if b then ethrow e else on_exec a f) s)"
    and f: "\<And>M g. gx_inv child gv M g \<Longrightarrow> gx_inv child gv M (snd (f g))"
  shows "execs_account child gv M t"
proof (cases "om_find (fx_map s) h")
  case (Some a)
  then have "a < length (fx_heap s)" using registered_live [OF acc] by blast
  then show ?thesis using Some t acc on_exec_account [OF acc _ f, of a] by (simp add: graph_exec_lookup_def ebind_def)
qed (use acc t in \<open>simp add: graph_exec_lookup_def ebind_def\<close>)

lemma spin_account:
  assumes acc: "execs_account child gv M s" and tame: "gx_tame gv" and run: "GraphExecSpin gv h s = Some (r, t)"
  shows "execs_account child gv M t"
proof (cases "om_find (fx_map s) h")
  case (Some a)
  obtain g where a: "a < length (fx_heap s)" "fx_heap s ! a = Some g" by (rule registered_live [OF acc Some])
  obtain g' where spin: "gx_spin gv (g\<lparr>gx_build := fx_build s\<rparr>) = Some (r, g')" and t: "t = exec_put a g g' s"
    using run Some a by (auto simp: GraphExecSpin_def graph_exec_lookup_def)
  have "gx_inv child gv (M + execs_rest gv a (fx_heap s)) g'"
    using gx_do_inv [OF account_object [OF acc a] tame, of GSpin] spin by simp
  then show ?thesis
    unfolding t using execs_spin [OF _ run] acc by (intro account_put [OF acc a]) (simp_all add: t execs_account_def)
qed (use acc run in \<open>simp add: GraphExecSpin_def graph_exec_lookup_def\<close>)

lemma create_account:
  assumes acc: "execs_account child gv M s" and env: "gx_fresh_env child gv" "class_accounts child gv" and init: "gx_init blank"
    and run: "GraphExecCreate gv blank json s = (r, t)" and r: "\<not> may_ub r"
  shows "execs_account child gv M t"
proof -
  have ok: "execs_ok t" using execs_create [OF _ run] acc by (simp add: execs_account_def)
  obtain r1 g where c: "graph_executor_new gv json (blank\<lparr>gx_build := fx_build s\<rparr>) = (r1, g)" by fastforce
  have "gx_init (blank\<lparr>gx_build := fx_build s\<rparr>)" using init by (simp add: gx_init_def)
  moreover have "balanced child (M + execs_owned gv s) (gx_calls (blank\<lparr>gx_build := fx_build s\<rparr>))"
    using acc by (simp add: execs_account_def)
  ultimately have N: "case r1 of Inl e \<Rightarrow> is_ub e \<or> balanced child (M + execs_owned gv s) (gx_calls g)
      | Inr _ \<Rightarrow> gx_inv child gv (M + execs_owned gv s) g"
    by (rule graph_executor_new_inv [OF env _ _ c])
  show ?thesis
  proof (cases r1)
    case (Inl e)
    then have "t = s\<lparr>fx_build := gx_build g\<rparr>" "\<not> is_ub e" using run c r by (auto simp: GraphExecCreate_def may_ub_def)
    then show ?thesis using acc N Inl ok by (simp add: execs_account_def execs_owned_def gx_calls_def)
  next
    case (Inr u)
    have t: "t = s\<lparr>fx_heap := fx_heap s @ [Some g], fx_build := gx_build g, fx_next := fx_next s + 1,
        fx_map := om_emplace (fx_next s) (length (fx_heap s)) (fx_map s)\<rparr>"
      using run c r Inr by (auto simp: GraphExecCreate_def Let_def may_ub_def split: if_splits)
    have "om_find (fx_map s) (fx_next s) = None"
      using acc by (auto simp: execs_account_def execs_ok_def om_find_eq_None_iff)
    then have find: "om_find (fx_map t) h = (if h = fx_next s then Some (length (fx_heap s)) else om_find (fx_map s) h)" for h
      using acc by (simp add: t om_emplace_def execs_account_def execs_ok_def)
    have "\<exists>h. om_find (fx_map t) h = Some b" if "heap_live (fx_heap t) b" for b
    proof (cases "b = length (fx_heap s)")
      case False
      then have "heap_live (fx_heap s) b" using that by (auto simp: heap_live_def t nth_append split: if_splits)
      then obtain h where h: "om_find (fx_map s) h = Some b" using acc by (auto simp: execs_account_def)
      then have "h \<noteq> fx_next s" using \<open>om_find (fx_map s) (fx_next s) = None\<close> by auto
      with h show ?thesis unfolding find by auto
    qed (auto simp: find)
    moreover have "balanced child (M + execs_owned gv t) (nw_calls (fx_build t))"
      using N Inr by (simp add: t execs_owned_def gx_inv_def cell_owned_def gx_calls_def ac_simps)
    ultimately show ?thesis using acc N Inr ok by (auto simp: execs_account_def gx_inv_def t)
  qed
qed

lemma destroy_account:
  assumes acc: "execs_account child gv M s" and t: "t = snd (GraphExecDestroy gv late h s)"
  shows "execs_account child gv M t"
  using destroy_cases [of s h gv late]
proof (elim disjE conjE exE)
  fix a g
  let ?g = "snd (graph_executor_dtor gv late (g\<lparr>gx_build := fx_build s\<rparr>))"
  assume find: "om_find (fx_map s) h = Some a" and g: "fx_heap s ! a = Some g"
    and t': "snd (GraphExecDestroy gv late h s) = s\<lparr>fx_map := om_erase h (fx_map s), fx_heap := (fx_heap s)[a := None], fx_build := gx_build ?g\<rparr>"
  have a: "a < length (fx_heap s)" using registered_live [OF acc find] by blast
  obtain v where v: "graph_executor_dtor gv late (g\<lparr>gx_build := fx_build s\<rparr>) = (Inr (), v)"
      "balanced child (M + execs_rest gv a (fx_heap s)) (gx_calls v)"
    using graph_executor_dtor_returns [OF account_object [OF acc a g]] by blast
  have "execs_owned gv t = execs_rest gv a (fx_heap s)"
    unfolding execs_owned_def t t' by (simp add: execs_rest_update [OF a]) (simp add: cell_owned_def)
  then have "balanced child (M + execs_owned gv t) (nw_calls (fx_build t))" using v by (simp add: t t' gx_calls_def)
  moreover have "gx_shape k" if "Some k \<in> set (fx_heap t)" for k
    using that acc set_update_subset_insert [of "fx_heap s" a None] by (auto simp: t t' execs_account_def dest!: subsetD)
  moreover have "\<exists>h. om_find (fx_map t) h = Some b" if "heap_live (fx_heap t) b" for b
  proof -
    have b: "b \<noteq> a" "heap_live (fx_heap s) b" using that a by (auto simp: heap_live_def t t' nth_list_update split: if_splits)
    then obtain k where k: "om_find (fx_map s) k = Some b" using acc by (auto simp: execs_account_def)
    then have "k \<noteq> h" using b find by auto
    then show ?thesis using k by (auto simp: t t')
  qed
  moreover have "execs_ok t" using execs_destroy [OF _ t] acc by (simp add: execs_account_def)
  ultimately show ?thesis by (simp add: execs_account_def)
qed (use acc t in simp_all)

lemma execs_step_account:
  assumes step: "execs_step gv blank s t" and acc: "execs_account child gv M s"
    and env: "gx_fresh_env child gv" "class_accounts child gv" "gx_tame gv" and init: "gx_init blank"
  shows "execs_account child gv M t"
  using step
proof (cases rule: execs_step.cases)
  case (x_create json r)
  then show ?thesis using create_account [OF acc env(1,2) init] by blast
next
  case (x_spin h r)
  then show ?thesis using spin_account [OF acc env(3)] by blast
next
  case (x_spin_once h tm)
  have "gx_inv child gv M' (snd (gx_spin_once gv i g))" if "gx_inv child gv M' g" for M' i g
    using gx_do_inv [OF that env(3), of "GSpinOnce i"] by simp
  then show ?thesis
    using x_spin_once unfolding GraphExecSpinOnce_def by (rule looked_up_account [OF acc, rotated])
next
  case (x_cancel h)
  have "gx_inv child gv M' (snd (emodify gx_cancel g))" if "gx_inv child gv M' g" for M' g
    using gx_do_inv [OF that env(3), of GCancel] by simp
  then show ?thesis
    using x_cancel looked_up_account [OF acc, where b = False and f = "emodify gx_cancel"] by (simp add: GraphExecCancel_def)
next
  case (x_status h)
  then show ?thesis using looked_up_account [OF acc, where b = False and f = "egets status_json"] by (simp add: GraphExecStatus_def)
next
  case (x_thread a b)
  have "gx_inv child gv M' (snd (emodify (gx_do gv (GThread b)) g))" if "gx_inv child gv M' g" for M' g
    using gx_do_inv [OF that env(3), of "GThread b"] by (simp del: gx_do.simps)
  then have "execs_account child gv M (snd (on_exec a (emodify (gx_do gv (GThread b))) s))"
    using x_thread(2) by (intro on_exec_account [OF acc]) (simp add: heap_live_def)
  then show ?thesis using x_thread(1) by (simp only:)
next
  case (x_destroy late h)
  then show ?thesis using destroy_account [OF acc] by blast
qed


definition lifetime_execs :: "service ffi_execs" where
  "lifetime_execs = \<lparr>fx_heap = [], fx_map = [], fx_next = 1, fx_build = gx_build lifetime_world\<rparr>"


end
