(* ===== verification/Abc_Graph.thy ===== *)
theory Abc_Graph
  imports Parameter "HOL-Library.Sublist"
begin

text \<open>
  The A, B, C pipeline (\<^verbatim>\<open>examples/graph/abc_graph.cpp\<close>): the three node classes, the check of \<^verbatim>\<open>main\<close> and the
  system they form.

  The thread of \<^verbatim>\<open>NodeA\<close> publishes and stores in two steps; the callbacks of \<^verbatim>\<open>NodeB\<close> and \<^verbatim>\<open>NodeC\<close> run on the one
  executor thread and are atomic for the rest.  Each topic is the queue of its one reader; how a sample gets
  there is CycloneDDS, a parameter.  A publish that throws ends the program and is not a step.  \<^verbatim>\<open>int64_t\<close> counters are integers, with the overflow of signed arithmetic written out;
  atomic additions wrap.
\<close>

section \<open>The nodes\<close>

definition int_message :: "string \<Rightarrow> int \<Rightarrow> rcl_parameter" where
  "int_message name v =
     \<lparr>rp_name = name,
      rp_value = rcl_parameter_value_init\<lparr>rv_type := type_byte PT_Integer, rv_integer := word_of_int v\<rparr>\<rparr>"

definition integer_value :: "rcl_parameter \<Rightarrow> int" where
  "integer_value m = sint (rv_integer (rp_value m))"

definition wrap64 :: "int \<Rightarrow> int" where
  "wrap64 x = signed_take_bit 63 x"

text \<open>\<open>a_stored\<close>: the thread is at the head of its loop; otherwise it is between \<^verbatim>\<open>publish\<close> and \<^verbatim>\<open>published_.store\<close>.\<close>

record node_a =
  a_n :: int
  a_published :: int
  a_stored :: bool

definition node_a_init :: node_a where
  "node_a_init = \<lparr>a_n = 0, a_published = 0, a_stored = True\<rparr>"

definition node_a_publish :: "(node_a, rcl_parameter) eff" where
  "node_a_publish a =
     (if in_int64 (a_n a + 1)
      then (Inr (int_message ''counter'' (a_n a + 1)), a\<lparr>a_n := a_n a + 1, a_stored := False\<rparr>)
      else (Inl (UndefinedBehaviour ''counter overflow''), a))"

definition node_a_store :: "node_a \<Rightarrow> node_a" where
  "node_a_store a = a\<lparr>a_published := a_n a, a_stored := True\<rparr>"

record node_b =
  b_sum :: int
  b_inputs :: int
  b_first :: int
  b_last :: int
  b_sums :: "int list"

definition node_b_init :: node_b where
  "node_b_init = \<lparr>b_sum = 0, b_inputs = 0, b_first = 0, b_last = 0, b_sums = []\<rparr>"

text \<open>The callback of \<^verbatim>\<open>NodeB\<close>; the result is the message it publishes.\<close>

definition node_b_input :: "rcl_parameter \<Rightarrow> (node_b, rcl_parameter) eff" where
  "node_b_input m b =
     (let x = integer_value m; old = b_sum b; b1 = b\<lparr>b_sum := wrap64 (old + x)\<rparr> in
      if \<not> in_int64 (old + x) then (Inl (UndefinedBehaviour ''sum overflow''), b1)
      else
        let total = old + x;
            b2 = (if b_first b1 = 0 then b1\<lparr>b_first := x\<rparr> else b1);
            b3 = b2\<lparr>b_last := x, b_inputs := wrap64 (b_inputs b2 + 1), b_sums := b_sums b2 @ [total]\<rparr>
        in (Inr (int_message ''sum'' total), b3))"

definition node_c_input :: "rcl_parameter \<Rightarrow> int list \<Rightarrow> int list" where
  "node_c_input m received = received @ [integer_value m]"


section \<open>The check of main\<close>

function suffix_loop :: "int list \<Rightarrow> int list \<Rightarrow> nat \<Rightarrow> nat \<Rightarrow> bool" where
  "suffix_loop published received offset i =
     (if i < length received then
        if published ! (offset + i) \<noteq> received ! i then False
        else suffix_loop published received offset (i + 1)
      else True)"
  by auto
termination by (relation "measure (\<lambda>(published, received, offset, i). length received - i)") auto

declare suffix_loop.simps [simp del]

definition received_is_suffix :: "int list \<Rightarrow> int list \<Rightarrow> bool" where
  "received_is_suffix published received =
     (if length received > length published \<or> received = [] then False
      else suffix_loop published received (length published - length received) 0)"

function sums_loop :: "int list \<Rightarrow> int \<Rightarrow> int \<Rightarrow> int \<Rightarrow> int \<Rightarrow> bool \<Rightarrow> bool result" where
  "sums_loop sums lo hi x expect ok =
     (if x \<le> hi then
        if \<not> in_int64 (expect + x) \<or> \<not> in_int64 (x - lo) \<or> \<not> in_int64 (x + 1)
        then Inl (UndefinedBehaviour ''signed overflow'')
        else
          let expect1 = expect + x; idx = nat (x - lo) in
          sums_loop sums lo hi (x + 1) expect1 (ok \<and> idx < length sums \<and> sums ! idx = expect1)
      else Inr ok)"
  by auto
termination by (relation "measure (\<lambda>(sums, lo, hi, x, expect, ok). nat (hi + 1 - x))") auto

declare sums_loop.simps [simp del]

definition pipeline_check :: "int \<Rightarrow> node_b \<Rightarrow> int list \<Rightarrow> bool result" where
  "pipeline_check published b c_received =
     (if \<not> in_int64 (b_last b - b_first b) \<or> \<not> in_int64 (b_last b - b_first b + 1)
      then Inl (UndefinedBehaviour ''signed overflow'')
      else
        let ok = (b_inputs b > 0 \<and> b_last b - b_first b + 1 = b_inputs b \<and>
                  b_first b \<ge> 1 \<and> b_last b \<le> published)
        in case sums_loop (b_sums b) (b_first b) (b_last b) (b_first b) 0 ok of
             Inl e \<Rightarrow> Inl e
           | Inr ok1 \<Rightarrow> Inr (ok1 \<and> received_is_suffix (b_sums b) c_received))"


section \<open>The running pipeline\<close>

record abc =
  w_a :: node_a
  w_counter :: "rcl_parameter list"
  w_b :: node_b
  w_sum :: "rcl_parameter list"
  w_c :: "int list"
  w_ab :: bool
  w_bc :: bool
  w_lost :: bool

text \<open>
  The transport \<open>tr matched q m\<close> is CycloneDDS: what the queue \<open>q\<close> of a reader becomes when \<open>m\<close> is published.  What is
  relied on is documented of a reliable reader: it gets nothing before the endpoints match, and afterwards
  every sample, in order, while its history has room.  \<open>w_lost\<close> records that a sample found it full.
\<close>

type_synonym transport = "bool \<Rightarrow> rcl_parameter list \<Rightarrow> rcl_parameter \<Rightarrow> rcl_parameter list"

definition reliable_transport :: "transport \<Rightarrow> bool" where
  "reliable_transport tr \<longleftrightarrow>
     (\<forall>q m. tr False q m = q) \<and> (\<forall>q m. length q < unat (q_depth qos_Default) \<longrightarrow> tr True q m = q @ [m])"

definition overruns :: "bool \<Rightarrow> rcl_parameter list \<Rightarrow> bool" where
  "overruns matched q \<longleftrightarrow> matched \<and> \<not> length q < unat (q_depth qos_Default)"

definition abc_init :: "abc \<Rightarrow> bool" where
  "abc_init w \<longleftrightarrow> w = \<lparr>w_a = node_a_init, w_counter = [], w_b = node_b_init, w_sum = [], w_c = [],
     w_ab = False, w_bc = False, w_lost = False\<rparr>"

inductive abc_step :: "transport \<Rightarrow> abc \<Rightarrow> abc \<Rightarrow> bool" for tr :: transport where
  match_ab: "abc_step tr w (w\<lparr>w_ab := True\<rparr>)"
| match_bc: "abc_step tr w (w\<lparr>w_bc := True\<rparr>)"
| a_publish: "a_stored (w_a w) \<Longrightarrow> node_a_publish (w_a w) = (Inr m, a) \<Longrightarrow>
    abc_step tr w (w\<lparr>w_a := a, w_counter := tr (w_ab w) (w_counter w) m,
      w_lost := (w_lost w \<or> overruns (w_ab w) (w_counter w))\<rparr>)"
| a_store: "\<not> a_stored (w_a w) \<Longrightarrow> abc_step tr w (w\<lparr>w_a := node_a_store (w_a w)\<rparr>)"
| b_dispatch: "w_counter w = m # q \<Longrightarrow> node_b_input m (w_b w) = (Inr m', b) \<Longrightarrow>
    abc_step tr w (w\<lparr>w_counter := q, w_b := b, w_sum := tr (w_bc w) (w_sum w) m',
      w_lost := (w_lost w \<or> overruns (w_bc w) (w_sum w))\<rparr>)"
| c_dispatch: "w_sum w = m # q \<Longrightarrow> abc_step tr w (w\<lparr>w_sum := q, w_c := node_c_input m (w_c w)\<rparr>)"

inductive_cases abc_stepE: "abc_step tr w w'"


section \<open>What the check decides\<close>

lemma suffix_loop_iff:
  assumes "i \<le> length received" "offset + length received = length published"
  shows "suffix_loop published received offset i \<longleftrightarrow> drop (offset + i) published = drop i received"
  using assms
proof (induction published received offset i rule: suffix_loop.induct)
  case (1 published received offset i)
  show ?case
  proof (cases "i < length received")
    case True
    then have "drop i received = received ! i # drop (Suc i) received"
      "drop (offset + i) published = published ! (offset + i) # drop (Suc (offset + i)) published"
      using 1(3) by (auto simp: Cons_nth_drop_Suc)
    with True 1 show ?thesis by (subst suffix_loop.simps) auto
  next
    case False
    then show ?thesis using 1(2,3) by (subst suffix_loop.simps) simp
  qed
qed

text \<open>\<^verbatim>\<open>received_is_suffix\<close> is the non-empty suffix relation.\<close>

lemma received_is_suffix_iff: "received_is_suffix published received \<longleftrightarrow> received \<noteq> [] \<and> suffix received published"
proof (cases "length received > length published \<or> received = []")
  case False
  let ?k = "length published - length received"
  have "received_is_suffix published received \<longleftrightarrow> drop ?k published = received"
    using False suffix_loop_iff [of 0 received ?k published] by (simp add: received_is_suffix_def)
  also have "\<dots> \<longleftrightarrow> suffix received published"
    using False by (auto simp: suffix_def suffix_drop) (metis append_take_drop_id)
  finally show ?thesis using False by simp
qed (auto simp: received_is_suffix_def dest: suffix_length_le)

text \<open>The sum of \<open>k\<close> consecutive numbers from \<open>f\<close>.\<close>

definition run_sum :: "int \<Rightarrow> nat \<Rightarrow> int" where
  "run_sum f k = (\<Sum>i < k. f + int i)"

lemma run_sum_simps [simp]: "run_sum f 0 = 0" "run_sum f (Suc k) = run_sum f k + (f + int k)"
  by (simp_all add: run_sum_def)

lemma run_sum_bounds:
  assumes "1 \<le> f" "f + int k \<le> 2 ^ 31 + 1"
  shows "0 \<le> run_sum f k \<and> run_sum f k \<le> int k * 2 ^ 31"
  using assms by (induction k) auto

lemma run_sum_in_int64:
  assumes "1 \<le> f" "f + int k \<le> 2 ^ 31 + 1"
  shows "in_int64 (run_sum f k)"
proof -
  have "int k * 2 ^ 31 \<le> 2 ^ 31 * 2 ^ 31" using assms by (intro mult_right_mono) simp_all
  with run_sum_bounds [OF assms] show ?thesis by (simp add: in_int64_def)
qed

lemma sums_loop_eq:
  assumes "1 \<le> f" "f + int k \<le> 2 ^ 31 + 1" "j \<le> k"
  shows "sums_loop sums f (f + int k - 1) (f + int j) (run_sum f j) ok =
    Inr (ok \<and> (\<forall>i \<in> {j..<k}. i < length sums \<and> sums ! i = run_sum f (Suc i)))"
  using assms(3)
proof (induction "k - j" arbitrary: j ok)
  case 0
  then show ?case by (subst sums_loop.simps) simp
next
  case (Suc d)
  then have j: "j < k" by simp
  have b: "run_sum f (Suc j) \<le> int (Suc j) * 2 ^ 31" "0 \<le> run_sum f (Suc j)"
    using run_sum_bounds [of f "Suc j"] assms j by auto
  have "int (Suc j) \<le> 2 ^ 31" using j assms by simp
  then have "int (Suc j) * 2 ^ 31 \<le> 2 ^ 62" by simp
  with b have i64: "in_int64 (run_sum f j + (f + int j))" "in_int64 (f + int j - f)" "in_int64 (f + int j + 1)"
    using assms j by (simp_all add: in_int64_def)
  have "sums_loop sums f (f + int k - 1) (f + int j) (run_sum f j) ok =
      sums_loop sums f (f + int k - 1) (f + int (Suc j)) (run_sum f (Suc j)) (ok \<and> j < length sums \<and> sums ! j = run_sum f (Suc j))"
    using i64 j by (subst sums_loop.simps) (simp add: Let_def algebra_simps)
  also have "\<dots> = Inr ((ok \<and> j < length sums \<and> sums ! j = run_sum f (Suc j)) \<and>
      (\<forall>i \<in> {Suc j..<k}. i < length sums \<and> sums ! i = run_sum f (Suc i)))"
    by (rule Suc(1)) (use Suc(2) j in auto)
  finally have "sums_loop sums f (f + int k - 1) (f + int j) (run_sum f j) ok =
      Inr ((ok \<and> j < length sums \<and> sums ! j = run_sum f (Suc j)) \<and>
        (\<forall>i \<in> {Suc j..<k}. i < length sums \<and> sums ! i = run_sum f (Suc i)))" .
  moreover have "{j..<k} = insert j {Suc j..<k}" using j by auto
  ultimately show ?case by (simp add: conj_assoc)
qed


text \<open>The check of \<^verbatim>\<open>main\<close> decides what it is meant to: the inputs of B are consecutive numbers that A
  has published, its sums are the running sums of them, and C received a non-empty suffix of the sums.\<close>

theorem pipeline_check_exact:
  assumes "1 \<le> b_first b" "- (2 ^ 31) \<le> b_last b" "b_first b \<le> 2 ^ 31" "b_last b \<le> 2 ^ 31"
  shows "pipeline_check published b c = Inr (0 < b_inputs b \<and> b_last b = b_first b + b_inputs b - 1 \<and>
    b_last b \<le> published \<and>
    (\<forall>i < nat (b_inputs b). i < length (b_sums b) \<and> b_sums b ! i = run_sum (b_first b) (Suc i)) \<and>
    c \<noteq> [] \<and> suffix c (b_sums b))"
proof -
  let ?f = "b_first b" and ?l = "b_last b"
  let ?ok = "b_inputs b > 0 \<and> ?l - ?f + 1 = b_inputs b \<and> ?f \<ge> 1 \<and> ?l \<le> published"
  define k where "k = nat (?l - ?f + 1)"
  have loop: "sums_loop (b_sums b) ?f ?l ?f 0 ok =
      Inr (ok \<and> (\<forall>i \<in> {0..<k}. i < length (b_sums b) \<and> b_sums b ! i = run_sum ?f (Suc i)))" for ok
  proof (cases "?f \<le> ?l")
    case True
    then have "?l = ?f + int k - 1" by (simp add: k_def)
    then show ?thesis using sums_loop_eq [of ?f k 0 "b_sums b" ok] assms by simp
  next
    case False
    then show ?thesis by (subst sums_loop.simps) (simp add: k_def)
  qed
  have k: "k = nat (b_inputs b)" if ?ok using that by (simp add: k_def)
  have "in_int64 (?l - ?f)" "in_int64 (?l - ?f + 1)" using assms by (simp_all add: in_int64_def)
  then have "pipeline_check published b c =
      Inr ((?ok \<and> (\<forall>i \<in> {0..<k}. i < length (b_sums b) \<and> b_sums b ! i = run_sum ?f (Suc i))) \<and>
        received_is_suffix (b_sums b) c)"
    by (simp only: pipeline_check_def Let_def loop sum.case simp_thms if_False)
  also have "\<dots> = Inr (0 < b_inputs b \<and> b_last b = b_first b + b_inputs b - 1 \<and> b_last b \<le> published \<and>
    (\<forall>i < nat (b_inputs b). i < length (b_sums b) \<and> b_sums b ! i = run_sum (b_first b) (Suc i)) \<and>
    c \<noteq> [] \<and> suffix c (b_sums b))"
    using k assms(1) by (auto simp: received_is_suffix_iff)
  finally show ?thesis .
qed

theorem pipeline_check_exact_witness:
  "pipeline_check 3 \<lparr>b_sum = 5, b_inputs = 2, b_first = 2, b_last = 3, b_sums = [2, 5]\<rparr> [5] = Inr True"
proof -
  have "suffix [5] [2, 5::int]" by (simp add: suffix_def)
  then show ?thesis
    using pipeline_check_exact [of "\<lparr>b_sum = 5, b_inputs = 2, b_first = 2, b_last = 3, b_sums = [2, 5]\<rparr>" 3 "[5]"]
    by (simp add: less_Suc_eq numeral_2_eq_2)
qed


section \<open>The pipeline invariant\<close>

text \<open>The state of B after the inputs \<open>f\<close>, \<open>f + 1\<close>, ... (\<open>k\<close> of them).\<close>

definition b_after :: "int \<Rightarrow> nat \<Rightarrow> node_b" where
  "b_after f k = \<lparr>b_sum = run_sum f k, b_inputs = int k, b_first = (if k = 0 then 0 else f),
     b_last = (if k = 0 then 0 else f + int k - 1), b_sums = map (\<lambda>j. run_sum f (Suc j)) [0..<k]\<rparr>"

definition stream_inv :: "abc \<Rightarrow> bool" where
  "stream_inv w \<longleftrightarrow>
     (\<exists>f k. 1 \<le> f \<and> f + int k \<le> a_n (w_a w) + 1 \<and> w_b w = b_after f k \<and> (\<not> w_ab w \<longrightarrow> k = 0) \<and>
        w_counter w = (if w_ab w then map (int_message ''counter'') [f + int k..a_n (w_a w)] else []))"

definition sums_inv :: "abc \<Rightarrow> bool" where
  "sums_inv w \<longleftrightarrow>
     (\<exists>s. w_sum w = map (int_message ''sum'') s \<and> suffix (w_c w @ s) (b_sums (w_b w)) \<and> (\<not> w_bc w \<longrightarrow> w_c w @ s = []))"

definition abc_inv :: "abc \<Rightarrow> bool" where
  "abc_inv w \<longleftrightarrow> 0 \<le> a_n (w_a w) \<and>
     a_published (w_a w) = (if a_stored (w_a w) then a_n (w_a w) else a_n (w_a w) - 1) \<and> stream_inv w \<and> sums_inv w"

lemma wrap64_id: "in_int64 x \<Longrightarrow> wrap64 x = x"
  unfolding wrap64_def in_int64_def by (rule signed_take_bit_int_eq_self) auto

lemma integer_value_message [simp]: "in_int64 v \<Longrightarrow> integer_value (int_message name v) = v"
  using wrap64_id [of v] by (simp add: integer_value_def int_message_def wrap64_def sint_sbintrunc')

lemma node_b_input_after:
  assumes "1 \<le> f" "f + int k \<le> 2 ^ 31"
  shows "node_b_input (int_message ''counter'' (f + int k)) (b_after f k) =
    (Inr (int_message ''sum'' (run_sum f (Suc k))), b_after f (Suc k))"
proof -
  have b: "0 \<le> run_sum f (Suc k) \<and> run_sum f (Suc k) \<le> int (Suc k) * 2 ^ 31"
    by (rule run_sum_bounds) (use assms in simp_all)
  have "int (Suc k) * 2 ^ 31 \<le> 2 ^ 31 * 2 ^ 31" using assms by (intro mult_right_mono) simp_all
  then have i64: "in_int64 (run_sum f k + (f + int k))" "in_int64 (f + int k)" "in_int64 (int k + 1)"
    using b assms by (simp_all add: in_int64_def)
  show ?thesis
    using i64 assms(1) by (simp add: node_b_input_def Let_def b_after_def wrap64_id)
qed

lemma transport_kept:
  "reliable_transport tr \<Longrightarrow> \<not> overruns matched q \<Longrightarrow> tr matched q m = (if matched then q @ [m] else q)"
  by (cases matched) (auto simp: reliable_transport_def overruns_def)

lemma inv_frames:
  "stream_inv (w\<lparr>w_bc := x\<rparr>) = stream_inv w" "stream_inv (w\<lparr>w_a := node_a_store (w_a w)\<rparr>) = stream_inv w"
  "stream_inv (w\<lparr>w_sum := q, w_c := c\<rparr>) = stream_inv w" "sums_inv (w\<lparr>w_a := a\<rparr>) = sums_inv w"
  by (simp_all add: stream_inv_def sums_inv_def node_a_store_def)

lemma abc_inv_step:
  assumes "abc_step tr w w'" "abc_inv w" "\<not> w_lost w'" "a_n (w_a w') \<le> 2 ^ 31" and tr: "reliable_transport tr"
  shows "abc_inv w'"
  using assms
proof (cases rule: abc_step.cases)
  case match_ab
  obtain f k where "1 \<le> f" "f + int k \<le> a_n (w_a w) + 1" "w_b w = b_after f k" "\<not> w_ab w \<longrightarrow> k = 0"
      "w_counter w = (if w_ab w then map (int_message ''counter'') [f + int k..a_n (w_a w)] else [])"
    using assms(2) by (auto simp: abc_inv_def stream_inv_def)
  moreover have "b_after f 0 = b_after (a_n (w_a w) + 1) 0" by (simp add: b_after_def)
  moreover have "0 \<le> a_n (w_a w)" using assms(2) by (simp add: abc_inv_def)
  ultimately have "stream_inv w'"
    unfolding stream_inv_def match_ab
    by (intro exI [of _ "if w_ab w then f else a_n (w_a w) + 1"] exI [of _ k]) auto
  then show ?thesis using assms(2) match_ab by (simp add: abc_inv_def sums_inv_def)
next
  case match_bc
  have "stream_inv w'" using assms(2) match_bc by (simp add: abc_inv_def inv_frames)
  moreover have "sums_inv w'" using assms(2) unfolding match_bc by (auto simp: abc_inv_def sums_inv_def)
  ultimately show ?thesis using assms(2) by (simp add: abc_inv_def match_bc)
next
  case (a_publish m a)
  then have m: "m = int_message ''counter'' (a_n (w_a w) + 1)" "a = (w_a w)\<lparr>a_n := a_n (w_a w) + 1, a_stored := False\<rparr>"
    by (auto simp: node_a_publish_def split: if_splits)
  obtain f k where fk: "1 \<le> f" "f + int k \<le> a_n (w_a w) + 1" "w_b w = b_after f k" "\<not> w_ab w \<longrightarrow> k = 0"
      "w_counter w = (if w_ab w then map (int_message ''counter'') [f + int k..a_n (w_a w)] else [])"
    using assms(2) by (auto simp: abc_inv_def stream_inv_def)
  have "[f + int k..a_n (w_a w) + 1] = [f + int k..a_n (w_a w)] @ [a_n (w_a w) + 1]"
    using upto_rec2 [of "f + int k" "a_n (w_a w) + 1"] fk(2) by simp
  then have "stream_inv w'"
    using fk assms(3) unfolding stream_inv_def a_publish(1) m
    by (intro exI [of _ f] exI [of _ k]) (simp add: transport_kept [OF tr])
  then show ?thesis using assms(2) a_publish m by (simp add: abc_inv_def sums_inv_def)
next
  case a_store
  then show ?thesis using assms(2) by (simp add: abc_inv_def inv_frames) (simp add: node_a_store_def)
next
  case (b_dispatch m q m' b)
  obtain f k where fk: "1 \<le> f" "f + int k \<le> a_n (w_a w) + 1" "w_b w = b_after f k" "\<not> w_ab w \<longrightarrow> k = 0"
      "w_counter w = (if w_ab w then map (int_message ''counter'') [f + int k..a_n (w_a w)] else [])"
    using assms(2) by (auto simp: abc_inv_def stream_inv_def)
  with b_dispatch(2) have ab: "w_ab w" and le: "f + int k \<le> a_n (w_a w)"
    by (auto split: if_splits) (metis list.distinct(1) list.simps(8) not_le upto_empty)
  then have mq: "m = int_message ''counter'' (f + int k)" "q = map (int_message ''counter'') [f + int (Suc k)..a_n (w_a w)]"
    using fk(5) b_dispatch(2) upto_rec1 [OF le] by (auto simp: ac_simps)
  have out: "m' = int_message ''sum'' (run_sum f (Suc k))" "b = b_after f (Suc k)"
    using node_b_input_after [of f k] fk(1,3) le assms(4) b_dispatch mq(1) by auto
  have "stream_inv w'" unfolding stream_inv_def b_dispatch(1) out mq
    using fk(1) le ab by (intro exI [of _ f] exI [of _ "Suc k"]) simp
  moreover have sums: "b_sums b = b_sums (w_b w) @ [run_sum f (Suc k)]" unfolding out fk(3) by (simp add: b_after_def)
  obtain s where s: "w_sum w = map (int_message ''sum'') s" "suffix (w_c w @ s) (b_sums (w_b w))" "\<not> w_bc w \<longrightarrow> w_c w @ s = []"
    using assms(2) by (auto simp: abc_inv_def sums_inv_def)
  have "sums_inv w'"
  proof (cases "w_bc w")
    case True
    then show ?thesis
      unfolding sums_inv_def b_dispatch(1) using s assms(3) sums b_dispatch(1)
      by (intro exI [of _ "s @ [run_sum f (Suc k)]"]) (auto simp: transport_kept [OF tr] out(1) suffix_def)
  next
    case False
    then show ?thesis unfolding sums_inv_def b_dispatch(1) using s tr by (simp add: reliable_transport_def)
  qed
  ultimately show ?thesis using assms(2) b_dispatch by (simp add: abc_inv_def)
next
  case (c_dispatch m q)
  obtain s where s: "w_sum w = map (int_message ''sum'') s" "suffix (w_c w @ s) (b_sums (w_b w))" "\<not> w_bc w \<longrightarrow> w_c w @ s = []"
    using assms(2) by (auto simp: abc_inv_def sums_inv_def)
  obtain v s' where v: "s = v # s'" "m = int_message ''sum'' v" "q = map (int_message ''sum'') s'"
    using s(1) c_dispatch(2) by (cases s) auto
  have "v \<in> set (b_sums (w_b w))" using s(2) v(1) by (auto simp: suffix_def)
  moreover obtain f k where "1 \<le> f" "f + int k \<le> a_n (w_a w) + 1" "w_b w = b_after f k"
    using assms(2) by (auto simp: abc_inv_def stream_inv_def)
  ultimately obtain j where "j < k" "v = run_sum f (Suc j)" "1 \<le> f" "f + int k \<le> a_n (w_a w) + 1"
    by (auto simp: b_after_def)
  then have "in_int64 v" using run_sum_in_int64 [of f "Suc j"] assms(4) c_dispatch(1) by simp
  then have "sums_inv w'"
    unfolding sums_inv_def c_dispatch(1) using s v by (intro exI [of _ s']) (simp add: node_c_input_def)
  then show ?thesis using assms(2) c_dispatch(1) by (simp add: abc_inv_def inv_frames)
qed


lemma abc_step_mono:
  assumes "abc_step tr w w'"
  shows "a_n (w_a w) \<le> a_n (w_a w')" "w_lost w \<Longrightarrow> w_lost w'"
  using assms by (auto elim!: abc_stepE simp: node_a_publish_def node_a_store_def split: if_splits)

lemma abc_reach_inv:
  assumes "reach abc_init (abc_step tr) w" "\<not> w_lost w" "a_n (w_a w) \<le> 2 ^ 31" and tr: "reliable_transport tr"
  shows "abc_inv w"
  using assms(1-3)
proof (induction rule: reach.induct)
  case (reach_init w)
  then show ?case
    by (auto simp: abc_init_def abc_inv_def stream_inv_def sums_inv_def node_a_init_def node_b_init_def b_after_def
        intro!: exI [of _ 1] exI [of _ "0::nat"])
next
  case (reach_step w w')
  then show ?case using abc_step_mono [OF reach_step(2)] abc_inv_step [OF reach_step(2) _ _ _ tr] by force
qed

text \<open>C15: The pipeline and its check agree: once both sides of the two topics have matched and nothing was
  pushed out of a queue, in every state in which A has stored the number it published last, the queue of C is
  empty and C received something, the check of \<^verbatim>\<open>main\<close> succeeds, wherever discovery cut the streams.\<close>

theorem pipeline_passes_check:
  assumes "reliable_transport tr" "reach abc_init (abc_step tr) w" "\<not> w_lost w" "a_n (w_a w) \<le> 2 ^ 31"
    and "a_stored (w_a w)" "w_sum w = []" "w_c w \<noteq> []"
  shows "pipeline_check (a_published (w_a w)) (w_b w) (w_c w) = Inr True"
proof -
  have inv: "abc_inv w" using abc_reach_inv [OF assms(2-4,1)] .
  obtain f k where fk: "1 \<le> f" "f + int k \<le> a_n (w_a w) + 1" "w_b w = b_after f k"
    using inv by (auto simp: abc_inv_def stream_inv_def)
  have c: "suffix (w_c w) (b_sums (w_b w))" using inv assms(6) by (auto simp: abc_inv_def sums_inv_def)
  have k: "k \<noteq> 0"
  proof
    assume "k = 0"
    then have "b_sums (w_b w) = []" using fk(3) by (simp add: b_after_def)
    then show False using c assms(7) by simp
  qed
  have "a_published (w_a w) = a_n (w_a w)" using inv assms(5) by (simp add: abc_inv_def)
  then show ?thesis
    using pipeline_check_exact [of "w_b w" "a_published (w_a w)" "w_c w"] fk k c assms(4,7) by (simp add: b_after_def)
qed

text \<open>Concrete runs: the endpoints match, A publishes 1, B and C run.\<close>

definition abc_start :: abc where
  "abc_start = \<lparr>w_a = node_a_init, w_counter = [], w_b = node_b_init, w_sum = [], w_c = [],
     w_ab = True, w_bc = True, w_lost = False\<rparr>"

definition abc_sent :: abc where
  "abc_sent = abc_start\<lparr>w_a := \<lparr>a_n = 1, a_published = 0, a_stored = False\<rparr>, w_counter := [int_message ''counter'' 1]\<rparr>"

definition abc_summed :: "abc \<Rightarrow> abc" where
  "abc_summed w = w\<lparr>w_counter := [], w_b := b_after 1 1, w_sum := [int_message ''sum'' 1], w_lost := False\<rparr>"

definition abc_printed :: "abc \<Rightarrow> abc" where
  "abc_printed w = (abc_summed w)\<lparr>w_sum := [], w_c := [1]\<rparr>"

lemma abc_reach_start: "reach abc_init (abc_step tr) abc_start"
proof -
  let ?w = "\<lparr>w_a = node_a_init, w_counter = [], w_b = node_b_init, w_sum = [], w_c = [],
     w_ab = False, w_bc = False, w_lost = False\<rparr>"
  have "reach abc_init (abc_step tr) ?w" by (rule reach_init) (simp add: abc_init_def)
  then have "reach abc_init (abc_step tr) (?w\<lparr>w_ab := True\<rparr>)" by (rule reach_step) (rule match_ab)
  then have "reach abc_init (abc_step tr) (?w\<lparr>w_ab := True, w_bc := True\<rparr>)" using reach_step match_bc by metis
  then show ?thesis by (simp add: abc_start_def)
qed

lemmas queue_simps = reliable_transport_def overruns_def qos_Default_def qos_init_def

lemma abc_reach_sent:
  assumes "reliable_transport tr"
  shows "reach abc_init (abc_step tr) abc_sent"
proof (rule reach_step [OF abc_reach_start])
  have "node_a_publish (w_a abc_start) = (Inr (int_message ''counter'' 1), w_a abc_sent)" "a_stored (w_a abc_start)"
    by (simp_all add: abc_start_def abc_sent_def node_a_init_def node_a_publish_def in_int64_def)
  from a_publish [OF this(2,1), of tr] show "abc_step tr abc_start abc_sent"
    using assms by (simp add: abc_start_def abc_sent_def queue_simps)
qed

lemma abc_run:
  assumes "reliable_transport tr" "reach abc_init (abc_step tr) w" "w_counter w = [int_message ''counter'' 1]"
    and "w_b w = node_b_init" "w_sum w = []" "w_c w = []" "w_bc w" "\<not> w_lost w"
  shows "reach abc_init (abc_step tr) (abc_summed w)" "reach abc_init (abc_step tr) (abc_printed w)"
proof -
  have "b_after 1 0 = node_b_init" by (simp add: b_after_def node_b_init_def)
  then have "node_b_input (int_message ''counter'' 1) (w_b w) = (Inr (int_message ''sum'' 1), b_after 1 1)"
    using node_b_input_after [of 1 0] assms(4) by simp
  from b_dispatch [OF assms(3) this, of tr] have "abc_step tr w (abc_summed w)"
    using assms by (simp add: abc_summed_def queue_simps)
  then show s: "reach abc_init (abc_step tr) (abc_summed w)" by (rule reach_step [OF assms(2)])
  have "w_sum (abc_summed w) = [int_message ''sum'' 1]" by (simp add: abc_summed_def)
  from c_dispatch [OF this, of tr] have "abc_step tr (abc_summed w) (abc_printed w)"
    using assms by (simp add: abc_printed_def abc_summed_def node_c_input_def in_int64_def)
  then show "reach abc_init (abc_step tr) (abc_printed w)" by (rule reach_step [OF s])
qed

lemma abc_reach_stored:
  assumes "reliable_transport tr"
  shows "reach abc_init (abc_step tr) (abc_sent\<lparr>w_a := \<lparr>a_n = 1, a_published = 1, a_stored = True\<rparr>\<rparr>)"
proof (rule reach_step [OF abc_reach_sent [OF assms]])
  show "abc_step tr abc_sent (abc_sent\<lparr>w_a := \<lparr>a_n = 1, a_published = 1, a_stored = True\<rparr>\<rparr>)"
    using a_store [of abc_sent] by (simp add: abc_sent_def node_a_store_def)
qed

definition demo_transport :: transport where
  "demo_transport matched q m =
     (if \<not> matched then q else if length q < unat (q_depth qos_Default) then q @ [m] else tl q @ [m])"

lemma demo_transport_reliable: "reliable_transport demo_transport"
  by (simp add: reliable_transport_def demo_transport_def)

theorem pipeline_passes_check_witness:
  "pipeline_check 1 (b_after 1 1) [1] = Inr True"
proof -
  let ?w = "abc_printed (abc_sent\<lparr>w_a := \<lparr>a_n = 1, a_published = 1, a_stored = True\<rparr>\<rparr>)"
  have "reach abc_init (abc_step demo_transport) ?w"
    by (rule abc_run(2) [OF demo_transport_reliable abc_reach_stored [OF demo_transport_reliable]])
      (simp_all add: abc_sent_def abc_start_def)
  from pipeline_passes_check [OF demo_transport_reliable this] show ?thesis
    by (simp add: abc_printed_def abc_summed_def abc_sent_def abc_start_def)
qed

text \<open>Without these two conditions the check reports a failure although no sample was lost: A stores the
  count after it publishes, so B may have received a number that A does not yet count; and the executor can
  be cancelled between the dispatch of B and that of C.\<close>

theorem pipeline_false_alarms:
  assumes tr: "reliable_transport tr"
  shows "(\<exists>w. reach abc_init (abc_step tr) w \<and> \<not> w_lost w \<and> w_sum w = [] \<and> w_c w = b_sums (w_b w) \<and>
      pipeline_check (a_published (w_a w)) (w_b w) (w_c w) = Inr False) \<and>
   (\<exists>w. reach abc_init (abc_step tr) w \<and> \<not> w_lost w \<and> a_stored (w_a w) \<and> w_sum w = [int_message ''sum'' 1] \<and> w_c w = [] \<and>
      pipeline_check (a_published (w_a w)) (w_b w) (w_c w) = Inr False)" (is "(\<exists>w. ?P w) \<and> (\<exists>w. ?Q w)")
proof
  let ?stored = "abc_sent\<lparr>w_a := \<lparr>a_n = 1, a_published = 1, a_stored = True\<rparr>\<rparr>"
  note eqs = abc_printed_def abc_summed_def abc_sent_def abc_start_def
  have check: "pipeline_check 0 (b_after 1 1) [1] = Inr False" "pipeline_check 1 (b_after 1 1) [] = Inr False"
    using pipeline_check_exact [of "b_after 1 1" 0 "[1]"] pipeline_check_exact [of "b_after 1 1" 1 "[]"]
    by (simp_all add: b_after_def)
  have sums: "b_sums (b_after 1 1) = [1]" by (simp add: b_after_def)
  have "reach abc_init (abc_step tr) (abc_printed abc_sent)"
    by (rule abc_run(2) [OF tr abc_reach_sent [OF tr]]) (simp_all add: abc_sent_def abc_start_def)
  then have "?P (abc_printed abc_sent)" using check(1) sums by (simp add: eqs)
  then show "\<exists>w. ?P w" by (rule exI)
  have "reach abc_init (abc_step tr) (abc_summed ?stored)"
    by (rule abc_run(1) [OF tr abc_reach_stored [OF tr]]) (simp_all add: abc_sent_def abc_start_def)
  then have "?Q (abc_summed ?stored)" using check(2) by (simp add: eqs)
  then show "\<exists>w. ?Q w" by (rule exI)
qed

theorem pipeline_false_alarms_witness:
  "\<exists>w. reach abc_init (abc_step demo_transport) w \<and> \<not> w_lost w \<and> w_sum w = [] \<and> w_c w = b_sums (w_b w) \<and>
     pipeline_check (a_published (w_a w)) (w_b w) (w_c w) = Inr False"
  using pipeline_false_alarms [OF demo_transport_reliable] by blast

end
