(* ===== verification/Examples.thy ===== *)
theory Examples
  imports Graph_Executor
begin

text \<open>
  The example programs (\<^verbatim>\<open>examples/talker.cpp\<close>, \<^verbatim>\<open>listener.cpp\<close>, \<^verbatim>\<open>service_server.cpp\<close>,
  \<^verbatim>\<open>service_client.cpp\<close>, \<^verbatim>\<open>parameters_demo.cpp\<close>) and the raw topic dump (\<^verbatim>\<open>tools/debug_raw.cpp\<close>): their
  callbacks and loops.

  Standard output is a list of lines.  \<^verbatim>\<open>printf\<close> of a double and \<^verbatim>\<open>std::hash\<close> are function arguments; the
  clock and the sleep are those of \<open>Pubsub\<close>.  Node construction and spinning are in the library theories.
\<close>

section \<open>Talker and listener\<close>

record talk =
  tk_wire :: wire
  tk_out :: "string list"

text \<open>\<^verbatim>\<open>std::atoi\<close>: \<^verbatim>\<open>strtol\<close>, truncated to 32 bits.\<close>

definition atoi :: "string \<Rightarrow> int" where
  "atoi s = sint (word_of_int (strtol10 s) :: 32 word)"

definition talker_max :: "string list \<Rightarrow> 64 word" where
  "talker_max args = (case args of [] \<Rightarrow> 0 | a # _ \<Rightarrow> word_of_int (atoi a))"

definition talker_message :: "64 word \<Rightarrow> rcl_parameter" where
  "talker_message count =
     \<lparr>rp_name = ''Hello, world! '' @ show_nat (unat count), rp_value = rcl_parameter_value_init\<rparr>"

definition talker_line :: "rcl_parameter \<Rightarrow> string" where
  "talker_line m = ''publishing: '' @ squote (rp_name m)"

partial_function (option) talker_loop ::
    "rcl_parameter serializer \<Rightarrow> dds_writer_env \<Rightarrow> publisher \<Rightarrow> 64 word \<Rightarrow> 64 word \<Rightarrow> talk \<Rightarrow> (unit result \<times> talk) option" where
  "talker_loop ser we p max_count count st =
     (if max_count = 0 \<or> count < max_count then
        (case publish ser we p (talker_message count) (tk_wire st) of
           (Inl e, ws) \<Rightarrow> Some (Inl e, st\<lparr>tk_wire := ws\<rparr>)
         | (Inr _, ws) \<Rightarrow>
             talker_loop ser we p max_count (count + 1)
               (st\<lparr>tk_wire := ws, tk_out := tk_out st @ [talker_line (talker_message count)]\<rparr>))
      else Some (Inr (), st))"

definition talker_run ::
    "rcl_parameter serializer \<Rightarrow> dds_writer_env \<Rightarrow> publisher \<Rightarrow> string list \<Rightarrow> (unit result \<times> talk) option" where
  "talker_run ser we p args = talker_loop ser we p (talker_max args) 0 \<lparr>tk_wire = [], tk_out = []\<rparr>"

definition listener_line :: "rcl_parameter \<Rightarrow> string" where
  "listener_line m = ''I heard: ['' @ rp_name m @ '']''"

definition listener_callback :: "rcl_parameter \<Rightarrow> (string list, unit) eff" where
  "listener_callback m = emodify (\<lambda>out. out @ [listener_line m])"


section \<open>Service server and client\<close>

definition server_value :: "(string \<Rightarrow> 64 word) \<Rightarrow> string \<Rightarrow> rcl_parameter_value" where
  "server_value hash name = rcl_parameter_value_init\<lparr>rv_type := 2, rv_integer := take_bit 16 (hash name)\<rparr>"

definition server_handler :: "(string \<Rightarrow> 64 word) \<Rightarrow> string list \<Rightarrow> rcl_parameter_value list" where
  "server_handler hash names = fold (\<lambda>name vals. vals @ [server_value hash name]) names []"

definition client_line :: "string \<Rightarrow> rcl_parameter_value \<Rightarrow> string" where
  "client_line name v =
     name @ '' -> type='' @ show_nat (unat (rv_type v)) @ '' integer='' @ show_int (sint (rv_integer v)) @
     '' string='' @ squote (rv_string v)"

text \<open>The loop over the names; \<^verbatim>\<open>resp.values[i]\<close> is not checked.\<close>

function client_lines :: "string list \<Rightarrow> rcl_parameter_value list \<Rightarrow> nat \<Rightarrow> string list result" where
  "client_lines names vals i =
     (if i < length names then
        if length vals \<le> i then Inl (UndefinedBehaviour ''resp.values index out of range'')
        else (case client_lines names vals (i + 1) of
                Inl e \<Rightarrow> Inl e
              | Inr ls \<Rightarrow> Inr (client_line (names ! i) (vals ! i) # ls))
      else Inr [])"
  by auto
termination by (relation "measure (\<lambda>(names, vals, i). length names - i)") auto

declare client_lines.simps [simp del]

definition client_names :: "string list" where
  "client_names = [''speed'', ''name'']"


section \<open>Parameters demo\<close>

definition demo_double :: "64 word" where
  "demo_double = 0x40091EB851EB851F"

definition demo_declare :: "param_env \<Rightarrow> (param_state, unit) eff" where
  "demo_declare pe =
     ebind (node_declare_parameter to_value_int pe ''my_int'' 42) (\<lambda>_.
     ebind (node_declare_parameter to_value_string pe ''my_string'' ''hello'') (\<lambda>_.
     node_declare_parameter to_value_double pe ''my_double'' demo_double))"

definition demo_text :: "(64 word \<Rightarrow> string) \<Rightarrow> int \<Rightarrow> string \<Rightarrow> 64 word \<Rightarrow> string" where
  "demo_text fmt2 i s d = ''my_int='' @ show_int i @ '' my_string='' @ squote s @ '' my_double='' @ fmt2 d"

definition demo_line :: "(64 word \<Rightarrow> string) \<Rightarrow> (param_state, string) eff" where
  "demo_line fmt2 st =
     ebind (elift (node_get_parameter value_as_int64 ''my_int'' st)) (\<lambda>i.
     ebind (elift (node_get_parameter value_as_string ''my_string'' st)) (\<lambda>s.
     ebind (elift (node_get_parameter value_as_double ''my_double'' st)) (\<lambda>d.
     ereturn (demo_text fmt2 (sint i) s d)))) st"

text \<open>The rounds of the loop; \<open>i\<close> is the loop variable and \<^verbatim>\<open>42 + i + 1\<close> is computed in an \<^verbatim>\<open>int\<close>.\<close>

fun demo_loop :: "param_env \<Rightarrow> (64 word \<Rightarrow> string) \<Rightarrow> nat \<Rightarrow> nat \<Rightarrow> string list \<Rightarrow> (param_state, string list) eff" where
  "demo_loop pe fmt2 0 i out = ereturn out"
| "demo_loop pe fmt2 (Suc n) i out =
     ebind (demo_line fmt2) (\<lambda>l.
       if 2 ^ 31 \<le> 42 + int i + 1 then ethrow (UndefinedBehaviour ''int overflow'')
       else
         ebind (node_set_parameter pe ''my_int'' (to_value_int64 (word_of_int (42 + int i + 1)))) (\<lambda>_.
         demo_loop pe fmt2 n (i + 1) (out @ [l])))"

definition demo_run :: "param_env \<Rightarrow> (64 word \<Rightarrow> string) \<Rightarrow> string list \<Rightarrow> (param_state, string list) eff" where
  "demo_run pe fmt2 args =
     (let seconds = (case args of [] \<Rightarrow> 10 | a # _ \<Rightarrow> atoi a) in
      ebind (demo_declare pe) (\<lambda>_. demo_loop pe fmt2 (nat seconds) 0 []))"


section \<open>Raw topic dump\<close>

text \<open>\<^verbatim>\<open>%02x\<close>.\<close>

definition hex2 :: "byte \<Rightarrow> string" where
  "hex2 b = [lower_hex (unat b div 16), lower_hex (unat b mod 16)]"

text \<open>State of the callback: the sample counter and the lines.\<close>

definition dump_line :: "nat \<Rightarrow> byte list \<Rightarrow> string" where
  "dump_line count p =
     ''sample '' @ show_nat count @ '' ('' @ show_nat (length p) @ '' bytes):'' @
     concat (map (\<lambda>b. '' '' @ hex2 b) (take 160 p))"

definition dump_callback :: "byte list \<Rightarrow> (nat \<times> string list, unit) eff" where
  "dump_callback p = emodify (\<lambda>(count, out). (count + 1, out @ [dump_line count p]))"

text \<open>The polling loop: a take every 200 ms until the deadline.  The world \<open>'s\<close> holds the clock and the
  reader's queue.\<close>

partial_function (option) dump_loop ::
    "('s \<Rightarrow> int \<times> 's) \<Rightarrow> (int \<Rightarrow> 's \<Rightarrow> 's) \<Rightarrow> ('s \<Rightarrow> byte list list \<times> 's) \<Rightarrow> int \<Rightarrow> 's \<Rightarrow> nat \<times> string list \<Rightarrow>
     ((nat \<times> string list) \<times> 's) option" where
  "dump_loop now slp tk deadline s st =
     (case now s of (t, s1) \<Rightarrow>
        if t < deadline then
          (case tk s1 of (ps, s2) \<Rightarrow>
             dump_loop now slp tk deadline (slp 200000000 s2) (snd (efor dump_callback ps st)))
        else Some (st, s1))"

definition dump_total :: "nat \<times> string list \<Rightarrow> string" where
  "dump_total st = ''total '' @ show_nat (fst st) @ '' samples''"


section \<open>What the programs do\<close>

definition accepts :: "rcl_parameter serializer \<Rightarrow> dds_writer_env \<Rightarrow> bool" where
  "accepts ser we \<longleftrightarrow> (\<forall>m. write_ready we (payload (ser m cdr_writer_init)))"

lemma publish_accepted:
  "accepts ser we \<Longrightarrow> publish ser we p m ws = (Inr (), ws @ [wire_of ser m])"
  by (simp add: accepts_def publish_def ebind_def writer_write_ready wire_of_def Let_def)

lemma talker_loop_counts:
  assumes "accepts ser we" "max_count \<noteq> 0" "unat count + n = unat max_count"
  shows "talker_loop ser we p max_count count st =
    Some (Inr (), \<lparr>tk_wire = tk_wire st @ map (\<lambda>i. wire_of ser (talker_message (word_of_nat i))) [unat count..<unat max_count],
      tk_out = tk_out st @ map (\<lambda>i. talker_line (talker_message (word_of_nat i))) [unat count..<unat max_count]\<rparr>)"
  using assms(3)
proof (induction n arbitrary: count st)
  case 0
  then have "count = max_count" by (simp add: word_unat_eq_iff)
  then show ?case using assms(2) by (subst talker_loop.simps) simp
next
  case (Suc n)
  have lt: "count < max_count" using Suc.prems by (simp add: word_less_nat_alt)
  then have "Suc (unat count) < 2 ^ 64" using unsigned_less [of max_count, where 'a = nat] by (simp add: word_less_nat_alt)
  then have next1: "unat (count + 1) = Suc (unat count)" by (simp add: unat_word_ariths)
  have range: "[unat count..<unat max_count] = unat count # [Suc (unat count)..<unat max_count]"
    using lt by (simp add: word_less_nat_alt upt_conv_Cons)
  show ?case
    using lt Suc.IH [of "count + 1"] Suc.prems
    by (subst talker_loop.simps) (simp add: publish_accepted [OF assms(1)] next1 range)
qed

lemma talker_loop_forever:
  assumes "accepts ser we"
  shows "talker_loop ser we p 0 count st = None"
proof -
  have "\<not> (max_count = 0 \<and> accepts ser we)" if "talker_loop ser we p max_count count st = Some y" for ser we p max_count count st y
    by (rule talker_loop.raw_induct [OF _ that, where P = "\<lambda>ser we p max_count count st y. \<not> (max_count = 0 \<and> accepts ser we)"])
      (auto simp: publish_accepted)
  with assms show ?thesis by (metis not_None_eq)
qed

text \<open>The talker publishes and prints the messages 0, 1, ... in order, as many as its argument says, and
  returns; without an argument, or with 0, it never returns.\<close>

theorem talker_counts:
  assumes "accepts ser we"
  shows "talker_run ser we p args =
    (if talker_max args = 0 then None
     else Some (Inr (), \<lparr>tk_wire = map (\<lambda>i. wire_of ser (talker_message (word_of_nat i))) [0..<unat (talker_max args)],
       tk_out = map (\<lambda>i. talker_line (talker_message (word_of_nat i))) [0..<unat (talker_max args)]\<rparr>))"
  using talker_loop_forever [OF assms] talker_loop_counts [OF assms, of "talker_max args" 0 "unat (talker_max args)"]
  by (simp add: talker_run_def)

lemma client_lines_eq:
  "i \<le> length names \<Longrightarrow> client_lines names vals i =
     (if length vals < length names \<and> i < length names then Inl (UndefinedBehaviour ''resp.values index out of range'')
      else Inr (map2 client_line (drop i names) (drop i vals)))"
proof (induction names vals i rule: client_lines.induct)
  case (1 names vals i)
  show ?case
  proof (cases "i < length names")
    case True
    show ?thesis
    proof (cases "length vals \<le> i")
      case True
      then show ?thesis using \<open>i < length names\<close> by (subst client_lines.simps) auto
    next
      case False
      have "drop i names = names ! i # drop (i + 1) names" "drop i vals = vals ! i # drop (i + 1) vals"
        using True False by (simp_all add: Cons_nth_drop_Suc)
      then show ?thesis using 1(1) [OF True False] True False by (subst client_lines.simps) auto
    qed
  next
    case False
    then show ?thesis using 1(2) by (subst client_lines.simps) simp
  qed
qed

lemma server_handler_eq: "server_handler hash names = map (server_value hash) names"
proof -
  have "fold (\<lambda>name vals. vals @ [server_value hash name]) names vs = vs @ map (server_value hash) names" for vs
    by (induction names arbitrary: vs) simp_all
  then show ?thesis by (simp add: server_handler_def)
qed

text \<open>The client prints one line per name when the service answers with as many vals, as the example
  server does; a shorter answer is read out of bounds.\<close>

theorem client_reads_answer:
  "client_lines names vals 0 =
     (if length vals < length names then Inl (UndefinedBehaviour ''resp.values index out of range'')
      else Inr (map2 client_line names vals)) \<and>
   client_lines names (server_handler hash names) 0 = Inr (map (\<lambda>n. client_line n (server_value hash n)) names)"
  by (auto simp: client_lines_eq server_handler_eq zip_map2 zip_same_conv_map)

lemma sint_word64: "in_int64 k \<Longrightarrow> sint (word_of_int k :: 64 word) = k"
  using signed_take_bit_int_eq_self [of 63 k] by (simp add: in_int64_def sint_sbintrunc')

lemma demo_loop_counts:
  assumes "event_ready pe" "om_find (ps_values st) ''my_int'' = Some (to_value_int64 (word_of_int (42 + int i)))"
    and "om_find (ps_values st) ''my_string'' = Some (to_value_string ''hello'')"
    and "om_find (ps_values st) ''my_double'' = Some (to_value_double demo_double)"
    and "int i + int n + 42 < 2 ^ 31"
  shows "fst (demo_loop pe fmt2 n i out st) =
    Inr (out @ map (\<lambda>j. demo_text fmt2 (42 + int j) ''hello'' demo_double) [i..<i + n])"
  using assms(2-5)
proof (induction n arbitrary: i out st)
  case (Suc n)
  have "sint (word_of_int (42 + int i) :: 64 word) = 42 + int i"
    by (rule sint_word64) (use Suc.prems(4) in \<open>simp add: in_int64_def\<close>)
  then have line: "demo_line fmt2 st = (Inr (demo_text fmt2 (42 + int i) ''hello'' demo_double), st)"
    using Suc.prems(1-3)
    by (simp add: demo_line_def ebind_def node_get_parameter_def param_get_or_def value_as_int64_def value_as_string_def
        value_as_double_def to_value_int64_def to_value_string_def to_value_double_def)
  let ?v = "to_value_int64 (word_of_int (42 + int i + 1))"
  obtain ws where set: "param_set pe ''my_int'' ?v st = (Inr True, st\<lparr>ps_values := om_upd ''my_int'' ?v (ps_values st), ps_events := ws\<rparr>)"
    using param_set_declared [OF assms(1), of st "''my_int''" ?v] Suc.prems(1) by auto
  have "fst (demo_loop pe fmt2 n (i + 1) (out @ [demo_text fmt2 (42 + int i) ''hello'' demo_double])
      (st\<lparr>ps_values := om_upd ''my_int'' ?v (ps_values st), ps_events := ws\<rparr>)) =
      Inr ((out @ [demo_text fmt2 (42 + int i) ''hello'' demo_double]) @
        map (\<lambda>j. demo_text fmt2 (42 + int j) ''hello'' demo_double) [i + 1..<i + 1 + n])"
    by (rule Suc.IH) (use Suc.prems in \<open>simp_all add: ac_simps\<close>)
  moreover have "[i..<i + Suc n] = i # [i + 1..<i + 1 + n]" by (simp add: upt_conv_Cons del: upt_Suc)
  ultimately show ?case
    using Suc.prems(4) set by (simp add: line node_set_parameter_def ebind_def del: upt_Suc)
qed simp

text \<open>The demo prints the vals it declared and then counts \<^verbatim>\<open>my_int\<close> up from 42, one line per second.\<close>

theorem parameters_demo_counts:
  assumes "event_ready pe" "args = [] \<or> 0 \<le> atoi (hd args) \<and> atoi (hd args) + 42 < 2 ^ 31"
  shows "fst (demo_run pe fmt2 args param_state_init) =
    Inr (map (\<lambda>j. demo_text fmt2 (42 + int j) ''hello'' demo_double)
      [0..<nat (case args of [] \<Rightarrow> 10 | a # _ \<Rightarrow> atoi a)])"
proof -
  obtain ws where decl: "demo_declare pe param_state_init = (Inr (),
      \<lparr>ps_values = om_upd ''my_double'' (to_value_double demo_double) (om_upd ''my_string'' (to_value_string ''hello'')
        (om_upd ''my_int'' (to_value_int 42) [])), ps_events = ws\<rparr>)"
    by (simp add: demo_declare_def node_declare_parameter_def param_declare_def ebind_def publish_event_ready [OF assms(1)]
        param_state_init_def to_value_int_def to_value_int64_def to_value_string_def to_value_double_def om_find_Cons)
  have int: "to_value_int 42 = to_value_int64 (word_of_int (42 + int 0))" by (simp add: to_value_int_def)
  show ?thesis
    unfolding demo_run_def Let_def ebind_def decl
    using demo_loop_counts [OF assms(1), of "snd (demo_declare pe param_state_init)" 0 "nat (case args of [] \<Rightarrow> 10 | a # _ \<Rightarrow> atoi a)" fmt2 "[]"]
      assms(2)
    by (cases args) (simp_all add: decl int om_find_Cons)
qed

text \<open>The dump loses nothing of the first 160 bytes: its digits, without the blanks, are the hex form
  that a topology accepts as \<^verbatim>\<open>payload_hex\<close>.\<close>

theorem dump_digits_roundtrip:
  "\<exists>digits. dump_line count p = ''sample '' @ show_nat count @ '' ('' @ show_nat (length p) @ '' bytes):'' @ digits \<and>
     payload_from_hex (filter (\<lambda>c. c \<noteq> CHR '' '') digits) what = Inr (take 160 p)"
proof -
  have blank: "filter (\<lambda>c. c \<noteq> CHR '' '') (hex2 b) = hex2 b" for b
  proof -
    have "list_all (\<lambda>n. lower_hex n \<noteq> CHR '' '') [0..<16]" by code_simp
    then have "lower_hex n \<noteq> CHR '' ''" if "n < 16" for n using that by (simp add: list_all_iff)
    moreover have "unat b div 16 < 16" using unsigned_less [of b, where 'a = nat] by simp
    ultimately show ?thesis by (simp add: hex2_def)
  qed
  have digits: "filter (\<lambda>c. c \<noteq> CHR '' '') (concat (map (\<lambda>b. '' '' @ hex2 b) bs)) = guid_hex bs" for bs
    by (induction bs) (simp_all add: blank guid_hex_def, simp_all add: hex2_def)
  have "length (guid_hex bs) = 2 * length bs" for bs by (induction bs) (simp_all add: guid_hex_def)
  then have "payload_from_hex (guid_hex bs) what = Inr bs" for bs
    by (simp add: payload_from_hex_def hex_pairs_guid_hex)
  then have "payload_from_hex (filter (\<lambda>c. c \<noteq> CHR '' '') (concat (map (\<lambda>b. '' '' @ hex2 b) (take 160 p)))) what = Inr (take 160 p)"
    by (simp only: digits)
  then show ?thesis unfolding dump_line_def by blast
qed


lemma efor_dump: "efor dump_callback ps (n, out) =
    (Inr (), n + length ps, out @ map (\<lambda>i. dump_line (n + i) (ps ! i)) [0..<length ps])"
proof (induction ps arbitrary: n out)
  case (Cons p ps)
  have "[0..<length (p # ps)] = 0 # map Suc [0..<length ps]" by (simp add: map_Suc_upt upt_conv_Cons del: upt_Suc)
  with Cons show ?case by (simp add: dump_callback_def ebind_def comp_def del: upt_Suc)
qed simp

text \<open>The dump ends once the clock has passed its deadline, and it has printed one numbered line per sample
  it took.\<close>

theorem dump_ends:
  assumes "\<And>s. fst (now s) = tm s \<and> tm s \<le> tm (snd (now s))" "\<And>d s. tm s + d \<le> tm (slp d s)"
    and "\<And>s. tm s \<le> tm (snd (tk s))"
  shows "\<exists>pss s'. dump_loop now slp tk deadline s (n, out) =
    Some ((n + length pss, out @ map (\<lambda>i. dump_line (n + i) (pss ! i)) [0..<length pss]), s')"
proof (induction "nat (deadline - tm s)" arbitrary: s n out rule: less_induct)
  case less
  obtain t s1 where now: "now s = (t, s1)" by fastforce
  then have t: "t = tm s" "tm s \<le> tm s1" using assms(1) [of s] by auto
  show ?case
  proof (cases "t < deadline")
    case True
    obtain ps s2 where tk: "tk s1 = (ps, s2)" by fastforce
    have "tm s1 \<le> tm s2" "tm s2 + 200000000 \<le> tm (slp 200000000 s2)" using assms(3) [of s1] assms(2) [of s2] tk by auto
    then have "nat (deadline - tm (slp 200000000 s2)) < nat (deadline - tm s)" using True t by auto
    from less [OF this, of "n + length ps" "out @ map (\<lambda>i. dump_line (n + i) (ps ! i)) [0..<length ps]"]
    obtain pss s' where "dump_loop now slp tk deadline (slp 200000000 s2)
        (n + length ps, out @ map (\<lambda>i. dump_line (n + i) (ps ! i)) [0..<length ps]) =
        Some ((n + length ps + length pss, (out @ map (\<lambda>i. dump_line (n + i) (ps ! i)) [0..<length ps]) @
          map (\<lambda>i. dump_line (n + length ps + i) (pss ! i)) [0..<length pss]), s')"
      by blast
    moreover have "map (\<lambda>i. dump_line (n + i) ((ps @ pss) ! i)) [0..<length (ps @ pss)] =
        map (\<lambda>i. dump_line (n + i) (ps ! i)) [0..<length ps] @
        map (\<lambda>i. dump_line (n + length ps + i) (pss ! i)) [0..<length pss]"
      by (rule nth_equalityI) (auto simp: nth_append)
    ultimately have "dump_loop now slp tk deadline s (n, out) =
        Some ((n + length (ps @ pss), out @ map (\<lambda>i. dump_line (n + i) ((ps @ pss) ! i)) [0..<length (ps @ pss)]), s')"
      using True by (subst dump_loop.simps) (simp add: now tk efor_dump)
    then show ?thesis by blast
  next
    case False
    then show ?thesis by (subst dump_loop.simps) (auto simp: now intro: exI [of _ "[]"])
  qed
qed

end
