(* ===== verification/Spec2Isabelle.thy ===== *)
theory Spec2Isabelle
  imports Ffi_Lifetime Ffi_Graph Abc_Graph Examples
begin

text \<open>
  \<^bold>\<open>rcllite\<close> is a small C++ client library for ROS 2: it speaks CDR over CycloneDDS directly, without rcl
  and rmw.  This development models the library under \<^verbatim>\<open>src/src/rcllite\<close>, its Python bindings under
  \<^verbatim>\<open>src/src/ffi\<close> and its example programs, and proves what makes them correct.

  \<^bold>\<open>The parts and how they interact.\<close>  A \<^verbatim>\<open>Node\<close> owns a DDS participant and a list of entities
  (subscriptions, services, clients) with an epoch counter and a change guard.  Endpoints serialize with
  \<^verbatim>\<open>CdrWriter\<close> into byte buffers, which a serdata of its own type (\<^verbatim>\<open>raw_serdata\<close>) carries through DDS; on
  the other side \<^verbatim>\<open>Reader::take\<close> hands the bytes to a dispatch function, which reads them with
  \<^verbatim>\<open>CdrReader\<close> and calls user code.  An \<^verbatim>\<open>Executor\<close> keeps the conditions of all entities of its nodes attached
  to a waitset and dispatches what is triggered.  Services add a header to the payload and a table of pending
  calls; parameters are six services and an event topic on a node.  \<^verbatim>\<open>GraphMonitor\<close> observes the system from a
  thread of its own, \<^verbatim>\<open>GraphExecutor\<close> builds nodes from a JSON topology, and the bindings keep nodes,
  endpoints, a monitor and graph executors behind integer handles.

  \<^bold>\<open>The theories\<close>, with the files they model:
  \<^item> \<open>Prelude\<close>: errors as values (\<open>rcl_error\<close> is \<^verbatim>\<open>exception.hpp\<close>; undefined behaviour is an error that no
    handler catches), computations with state and exceptions (\<open>ebind\<close>, \<open>ecatch\<close>, \<open>efor\<close>), rules for their
    outcomes (\<open>ensures\<close>), \<^verbatim>\<open>std::map\<close> as an ordered association list (\<open>omap\<close>), string operations, and
    reachability with its invariant rule (locale \<open>transition_system\<close>).
  \<^item> \<open>Cdr\<close> (\<^verbatim>\<open>cdr.hpp\<close>, \<^verbatim>\<open>msg_traits.hpp\<close>): writer, reader and sequences on byte lists; every read stays inside its
    buffer or throws; what is written is read back.  The locale \<open>cdr_codec\<close> is the contract of a message codec.
  \<^item> \<open>Names\<close> (\<^verbatim>\<open>names.cpp\<close>), \<open>Qos\<close> (\<^verbatim>\<open>qos.hpp\<close>, \<^verbatim>\<open>make_dds_qos\<close>), \<open>Json_Writer\<close> (\<^verbatim>\<open>json_writer.hpp\<close>): names are mapped
    injectively and without overlap, profiles survive up to a depth of \<open>2^31\<close>, escaped strings are read back.
  \<^item> \<open>Raw_Serdata\<close> (\<^verbatim>\<open>dds/raw_serdata.cpp\<close>) and \<open>Dds_Entities\<close> (\<^verbatim>\<open>dds/entities.cpp\<close>): padding, reassembly of
    fragments, zero-copy vectors; context, participant, writer, reader and guard with every failing call, the
    handles they release, and the take loop.
  \<^item> \<open>Pubsub\<close> (\<^verbatim>\<open>publisher.hpp\<close>, \<^verbatim>\<open>subscription.hpp\<close>), \<open>Service\<close> (\<^verbatim>\<open>service.hpp\<close>): end-to-end delivery, isolation of
    failing callbacks, the remote call with its timeout, and the interleavings of callers, timeouts and the
    dispatching thread as a step relation.
  \<^item> \<open>Node\<close> (\<^verbatim>\<open>node.cpp\<close>, \<^verbatim>\<open>node_impl.hpp\<close>), \<open>Parameter\<close> (\<^verbatim>\<open>parameter.hpp\<close>, \<^verbatim>\<open>parameter.cpp\<close>, \<^verbatim>\<open>node_params.hpp\<close>): construction and
    announcement, the entity list; the store refines a map, the services agree with it.
  \<^item> \<open>Executor\<close> (\<^verbatim>\<open>executor.cpp\<close>): the attachment table and the waitset stay consistent under every operation,
    reconciliation attaches exactly what the nodes ask for, a batch dispatches exactly what was triggered,
    cancellation ends \<^verbatim>\<open>spin\<close>.
  \<^item> \<open>Graph\<close> and \<open>Graph_Monitor\<close> (\<^verbatim>\<open>graph.cpp\<close>): the tables, the poll thread, the snapshot document; construction,
    destruction and shutdown of the monitor.
  \<^item> \<open>Graph_Executor\<close> (\<^verbatim>\<open>graph_executor.cpp\<close>): the topology loader realises the document it accepts; periodic
    publishers stop; construction with its clean-up and destruction are operations of their own.
  \<^item> \<open>Ffi\<close> (nodes and endpoints of \<^verbatim>\<open>rcllite_ffi.cpp\<close>): the registry refines an abstract set of handles that are
    never reused (locale \<open>handle_registry\<close>); destroying a subscription or a node is effective at once.
    \<open>Ffi_Graph\<close> (the monitor and the graph executors of the same file, on top of their constructors and
    destructors): the same contract for executor handles, the windows in which a raw pointer dangles, and the
    account of DDS handles over every sequence of calls.
  \<^item> \<open>Handles\<close>: an account of open DDS handles, and what the constructors and destructors of the entities do to it.
    \<open>Ffi_Lifetime\<close>: in every reachable state of the bindings each open handle is owned exactly once.
    \<open>Graph_Lifetime\<close>: a topology that is refused half-way or destroyed gives every handle back.  What a spin keeps is
    the locale \<open>exec_relation\<close> of \<open>Executor\<close>, interpreted for both.
  \<^item> \<open>Abc_Graph\<close> (\<^verbatim>\<open>examples/graph/abc_graph.cpp\<close>): the three-node pipeline as a step relation, and when the check
    of its \<^verbatim>\<open>main\<close> succeeds.  \<open>Examples\<close> (the other examples, \<^verbatim>\<open>tools/debug_raw.cpp\<close>): their loops and callbacks.
  \<^item> This theory: properties that span several components.

  \<^bold>\<open>Parameters.\<close>  Code that is not in the repository is an argument: the answers of CycloneDDS (records such as
  \<open>reader_calls\<close> and \<open>exec_env\<close>), \<^verbatim>\<open>dds_takecdr\<close> with its documented order (\<open>takes_fifo\<close>), the JSON library and
  the node registry of vila (\<open>json_api\<close>, \<open>gv_create\<close>), generated message codecs (\<open>cdr_codec\<close>), clocks, user
  callbacks.  The traces of \<open>Created\<close> and \<open>Deleted\<close> handles record what the library asks of DDS.

  \<^bold>\<open>Integers and loops.\<close>  Counters, epochs, lengths on the wire and depths are words of their width; \<open>int64\<close>
  handles and time points are \<open>int\<close> with their range test.  Floating-point values are bit patterns.  There is
  no fuel: loops that may run for ever (take, spin, the poll thread, periodic publishing) are partial functions
  whose value \<open>None\<close> is non-termination, and that they return is proved.  Threads are interleavings of the
  atomic sections that the locks delimit; where a lock is released too early the two halves are separate
  operations.

  \<^bold>\<open>Not modelled.\<close>  \<^verbatim>\<open>logging.hpp\<close> (a wrapper of a logger), the registration macros of \<^verbatim>\<open>node_registry.hpp\<close>, the
  tests, the Python package and the code generator.  The handle accounts of \<open>Ffi_Lifetime\<close>, \<open>Graph_Lifetime\<close> and \<open>Ffi_Graph\<close> leave out
  the calls that DDS refuses in the middle of a constructor, which lose handles (\<open>participant_ctor_leak\<close>,
  \<open>executor_handles_released\<close>).  Weak memory and the scheduling of DDS are outside the model.
\<close>

section \<open>Node changes and the executor\<close>

lemma reconcile_conds:
  assumes "exec_ok x" "\<forall>c. xe_attach xe c"
  shows "a_cond ` snd ` set (ex_attached (reconcile_locked xe nd x)) =
    (\<Union>p \<in> set (ex_nodes x). insert (change_guard (nd p)) (xe_cond_of xe ` set (entities (nd p))))"
proof -
  let ?d = "desired_of (xe_cond_of xe) nd (ex_nodes x)"
  have keyed: "om_find ?d c = Some a \<Longrightarrow> a_cond a = c" for c a
    using cond_keyed_desired unfolding cond_keyed_def by blast
  have att: "snd ` set (ex_attached (reconcile_locked xe nd x)) =
      {a \<in> snd ` set (ex_attached x). om_find ?d (a_cond a) \<noteq> None} \<union>
      {a. \<exists>c. om_find ?d c = Some a \<and> c \<notin> a_cond ` snd ` set (ex_attached x)}"
    using reconcile_attached [OF assms(1), of xe nd] assms(2) by simp
  have "c \<in> a_cond ` snd ` set (ex_attached (reconcile_locked xe nd x)) \<longleftrightarrow> om_find ?d c \<noteq> None" for c
    unfolding att using keyed by (cases "c \<in> a_cond ` snd ` set (ex_attached x)") (blast, force)
  then show ?thesis unfolding desired_of_keys [symmetric] set_eq_iff om_keys_find by blast
qed

lemma refresh_settled:
  assumes "exec_ok (xw_exec w)" "\<forall>c. xe_attach xe c" "ex_nodes (xw_exec w) \<noteq> []"
  shows "refresh xe (w\<lparr>xw_exec := reconcile_locked xe (xw_nodes w) (xw_exec w)\<rparr>) =
    w\<lparr>xw_exec := reconcile_locked xe (xw_nodes w) (xw_exec w)\<rparr>"
proof -
  have "ex_attached (reconcile_locked xe (xw_nodes w) (xw_exec w)) \<noteq> []"
    using reconcile_conds [OF assms(1,2), of "xw_nodes w"] assms(3) by auto
  then show ?thesis
    by (simp add: refresh_def nodes_changed_def reconcile_frame record_epochs_find)
qed

definition change_node :: "nat \<Rightarrow> 'e entity_change list \<Rightarrow> 'e exec_world \<Rightarrow> 'e exec_world" where
  "change_node p cs w = w\<lparr>xw_nodes := (xw_nodes w)(p := fold change_entity cs (xw_nodes w p))\<rparr>"


definition settled_world :: "nat exec_world" where
  "settled_world = refresh demo_exec_env demo_world"



section \<open>From the Python bindings to a typed subscription\<close>

lemma padded_payload: "padded (payload (ser m cdr_writer_init)) = wire_of ser m"
  by (simp add: padded_def wire_of_def Let_def)

lemma codec_payload_header:
  assumes "cdr_codec ser deser fits"
  shows "check_cdr_payload (payload (ser m cdr_writer_init)) topic = Inr ()"
proof -
  obtain ext where "w_buf (ser m cdr_writer_init) = w_buf cdr_writer_init @ ext"
    using cdr_codec.ser_extends [OF assms] by blast
  then show ?thesis by (simp add: check_cdr_payload_def payload_def cdr_writer_init_def)
qed

text \<open>C10: The bindings and the typed API speak the same language: a message encoded by any codec that reads
  back what it wrote is accepted by \<^verbatim>\<open>pub_publish\<close>, goes out as one sample on the publisher of that
  handle, and a typed subscription that receives what was sent calls its callback once, with the message.
  A subscription of the bindings hands Python the bytes sent, from which the codec reads the message.\<close>

theorem python_publish_reaches_subscription:
  assumes "ffi_ok s" "om_find (f_registry s) k = Some e" "om_find (fe_pubs e) h = Some p"
    and "cdr_codec ser deser fits" "fits m" "pl = payload (ser m cdr_writer_init)" "write_ready (fv_we fv h) pl"
    and "takes_fifo tk qs" "qs q = delivered [padded pl]" "cb m c = (Inr (), c')"
    and "python_safe pycb" "\<not> sr_closed st"
  shows "PubPublish fv h pl s = (Inr (), s\<lparr>f_wires := (f_wires s)(h := f_wires s h @ [padded pl])\<rparr>) \<and>
    (\<exists>q'. qs q' = [] \<and> subscription_dispatch tk deser cb q (c, []) =
      Some (Inr 1, \<lparr>t_queue = q', t_unref = 1, t_user = (c', [])\<rparr>)) \<and>
    (\<exists>q'. qs q' = [] \<and> ffi_sub_dispatch tk pycb q st =
      Some (Inr 1, \<lparr>t_queue = q', t_unref = 1, t_user = python_calls pycb [padded pl] st\<rparr>)) \<and>
    (\<exists>r r'. cdr_reader_of_vector (padded pl) = Inr r \<and> deser r = Inr (Some m, r'))"
proof -
  have wire: "padded pl = wire_of ser m" using assms(6) by (simp add: padded_payload)
  have chk: "check_cdr_payload pl (fp_topic p) = Inr ()" using codec_payload_header [OF assms(4)] by (simp add: assms(6))
  have pub: "PubPublish fv h pl s = (Inr (), s\<lparr>f_wires := (f_wires s)(h := f_wires s h @ [padded pl])\<rparr>)"
    using find_pub_owner [OF assms(1-3)] chk writer_write_ready [OF assms(7), of "f_wires s h"]
    by (simp add: PubPublish_def ebind_def padded_def elift_def)
  have "efor (subscription_sample deser cb) (valid_payloads (qs q)) (c, []) = (Inr (), c', [])"
    using efor_subscription_wire [OF assms(4), of "[m]" cb c c' "[]"] assms(5,9,10) wire
    by (simp add: ebind_def)
  from dispatch_drains [OF assms(8) this]
  have sub: "\<exists>q'. qs q' = [] \<and> subscription_dispatch tk deser cb q (c, []) =
      Some (Inr 1, \<lparr>t_queue = q', t_unref = 1, t_user = (c', [])\<rparr>)"
    by (simp add: subscription_dispatch_def assms(9))
  from dispatch_drains [OF assms(8) efor_python [OF assms(11)], of q st]
  have py: "\<exists>q'. qs q' = [] \<and> ffi_sub_dispatch tk pycb q st =
      Some (Inr 1, \<lparr>t_queue = q', t_unref = 1, t_user = python_calls pycb [padded pl] st\<rparr>)"
    using assms(12) by (simp add: ffi_sub_dispatch_def assms(9))
  have "\<exists>r r'. cdr_reader_of_vector (padded pl) = Inr r \<and> deser r = Inr (Some m, r')"
    using deser_wire [OF assms(4,5)] by (simp add: wire cdr_reader_of_vector_def)
  with pub sub py show ?thesis by blast
qed

theorem python_publish_reaches_subscription_witness:
  "let pl = payload (write_string ''hello'' cdr_writer_init) in
   PubPublish demo_ffi_env 2 pl demo_ffi_state =
     (Inr (), demo_ffi_state\<lparr>f_wires := (f_wires demo_ffi_state)(2 := f_wires demo_ffi_state 2 @ [padded pl])\<rparr>) \<and>
   (\<exists>q'. subscription_dispatch list_takecdr (then_true read_string) (\<lambda>m c. (Inr (), c @ [m])) (delivered [padded pl]) ([], []) =
      Some (Inr 1, \<lparr>t_queue = q', t_unref = 1, t_user = ([''hello''], [])\<rparr>))"
proof -
  let ?pl = "payload (write_string ''hello'' cdr_writer_init)"
  let ?py = "\<lambda>p x. (Inr (), x) :: unit result \<times> bool \<times> nat"
  have reg: "om_find (f_registry demo_ffi_state) 1 = Some demo_ffi_node"
    "om_find (fe_pubs demo_ffi_node) 2 = Some \<lparr>fp_topic = ''/t'', fp_type = ''T'', fp_writer = \<lparr>wr_handle = 7\<rparr>\<rparr>"
    by (simp_all add: demo_ffi_state_def demo_ffi_node_def om_find_Cons)
  have fifo: "takes_fifo list_takecdr (\<lambda>q. q)" by (simp add: takes_fifo_def list_takecdr_def)
  have rdy: "write_ready (fv_we demo_ffi_env 2) ?pl" by (simp add: demo_ffi_env_def)
  have fits: "string_fits ''hello''" by (simp add: string_fits_def)
  have safe: "python_safe ?py" by (simp add: python_safe_def)
  have cb: "(\<lambda>m c. (Inr () :: unit result, c @ [m])) ''hello'' [] = (Inr (), [''hello''])" by simp
  have st: "\<not> sr_closed \<lparr>sr_closed = False, sr_user = 0 :: nat, sr_log = []\<rparr>" by simp
  note all = python_publish_reaches_subscription [where ser = write_string and deser = "then_true read_string" and
      fits = string_fits and m = "''hello''" and pl = ?pl and tk = list_takecdr and qs = "\<lambda>q. q" and
      cb = "\<lambda>m c. (Inr (), c @ [m])" and c = "[]" and c' = "[''hello'']" and pycb = ?py and
      q = "delivered [padded ?pl]",
      OF demo_ffi_ok reg string_codec.cdr_codec_axioms fits refl rdy fifo refl cb safe st]
  show ?thesis unfolding Let_def using all by blast
qed

end
